(* ===== verification/CxxPrelude.thy ===== *)
theory CxxPrelude
  imports Main "HOL-Library.Word" "HOL-Library.Sublist"
begin

text \<open>
  Shared vocabulary of the development: machine integers, the ways a C++ run can end other
  than by returning a value (\<open>fault\<close>), the part of \<open>std::string\<close>, \<open>std::unordered_map\<close> and
  \<open>std::to_string\<close> that the library uses, and the lemmas every component shares.

  Conventions.
  \<^item> \<open>std::string\<close> is \<open>string\<close>. The position \<open>std::string::npos\<close> is \<open>None\<close>. A count of
    \<open>npos\<close> (or \<open>npos - from\<close>, which is at least the remaining length for every string that
    fits in memory) means "to the end of the string".
  \<^item> A thrown exception, a call of \<open>exit\<close> or \<open>std::terminate\<close>, and an access the language
    leaves undefined are \<open>Inl\<close> of a \<open>fault\<close>; a normal return is \<open>Inr\<close>.
  \<^item> \<open>std::unordered_map\<close> is an association list in iteration order. The standard leaves
    that order open; the model inserts at the end, and the properties speak about the
    entries as a set, never about their order.
\<close>

section \<open>Types and faults\<close>

type_synonym u8 = "8 word"
type_synonym u16 = "16 word"
type_synonym u32 = "32 word"
type_synonym u64 = "64 word"

datatype fault =
    Exn_out_of_range        \<comment> \<open>std::out_of_range\<close>
  | Exn_invalid_argument    \<comment> \<open>std::invalid_argument\<close>
  | Exn_type_error          \<comment> \<open>nlohmann::json type error\<close>
  | UB_null_deref           \<comment> \<open>member access through a null pointer\<close>
  | UB_end_iterator         \<comment> \<open>dereference of an end iterator\<close>
  | UB_signed_overflow      \<comment> \<open>signed integer overflow\<close>
  | UB_buffer_overflow      \<comment> \<open>write past the end of an array\<close>
  | UB_out_of_bounds        \<comment> \<open>read outside of a string or an array\<close>
  | UB_dangling             \<comment> \<open>access through a pointer to a deleted object\<close>
  | UB_relock               \<comment> \<open>lock of a std::mutex by the thread that holds it\<close>
  | Proc_exit int           \<comment> \<open>exit(code)\<close>
  | Proc_terminate          \<comment> \<open>std::terminate()\<close>

type_synonym 'a res = "fault + 'a"

named_theorems cxx_string "unfolding rules of the std::string operations"
named_theorems cxx_res "rules that evaluate results and their sequencing"

section \<open>Sequencing of results\<close>

fun bindR :: "'a res \<Rightarrow> ('a \<Rightarrow> 'b res) \<Rightarrow> 'b res" where
  "bindR (Inl e) k = Inl e"
| "bindR (Inr x) k = k x"

fun foldR :: "('a \<Rightarrow> 's \<Rightarrow> 's res) \<Rightarrow> 'a list \<Rightarrow> 's \<Rightarrow> 's res" where
  "foldR f [] s = Inr s"
| "foldR f (x # xs) s = bindR (f x s) (foldR f xs)"

lemma bindR_cong [fundef_cong]:
  assumes "r = r'" and "\<And>x. r' = Inr x \<Longrightarrow> k x = k' x"
  shows "bindR r k = bindR r' k'"
  using assms by (cases r') auto

lemma foldR_cong [fundef_cong]:
  assumes "xs = ys" and "s = t" and "\<And>x u. x \<in> set ys \<Longrightarrow> f x u = g x u"
  shows "foldR f xs s = foldR g ys t"
proof -
  have "(\<And>x u. x \<in> set ys \<Longrightarrow> f x u = g x u) \<Longrightarrow> foldR f ys t = foldR g ys t"
    by (induction ys arbitrary: t) (auto intro: bindR_cong)
  with assms show ?thesis by simp
qed

lemma bindR_assoc [cxx_res]: "bindR (bindR r k) l = bindR r (\<lambda>x. bindR (k x) l)"
  by (cases r) auto

lemma bindR_Inr_iff [cxx_res]: "bindR r k = Inr y \<longleftrightarrow> (\<exists>x. r = Inr x \<and> k x = Inr y)"
  by (cases r) auto

lemma bindR_Inl_iff [cxx_res]:
  "bindR r k = Inl e \<longleftrightarrow> r = Inl e \<or> (\<exists>x. r = Inr x \<and> k x = Inl e)"
  by (cases r) auto

lemma bindR_Inr_right [simp]: "bindR r Inr = r"
  by (cases r) auto

lemma foldR_append [cxx_res]: "foldR f (xs @ ys) s = bindR (foldR f xs s) (foldR f ys)"
  by (induction xs arbitrary: s) (auto simp: bindR_assoc intro: bindR_cong)

lemma foldR_total:
  "(\<And>x s. x \<in> set xs \<Longrightarrow> f x s = Inr (g x s)) \<Longrightarrow> foldR f xs s = Inr (fold g xs s)"
  by (induction xs arbitrary: s) auto

lemma foldR_concat_map:
  "foldR f (concat (map h xs)) s = foldR (\<lambda>x. foldR f (h x)) xs s"
  by (induction xs arbitrary: s) (auto simp: foldR_append intro: bindR_cong)

lemma foldR_map: "foldR f (map h xs) s = foldR (\<lambda>x. f (h x)) xs s"
  by (induction xs arbitrary: s) (auto intro: bindR_cong)

lemma foldR_single: "foldR f [x] = f x"
proof
  have "foldR f [] = Inr" by (rule ext) simp
  then show "foldR f [x] s = f x s" for s by simp
qed

lemma foldR_log: "foldR (\<lambda>c s. Inr (s @ [c])) cs s = Inr (s @ cs)"
  by (induction cs arbitrary: s) auto

lemma foldR_skip: "foldR (\<lambda>x s. Inr s) xs s = Inr s"
  by (induction xs) auto

section \<open>Objects shared by pointer\<close>

text \<open>A store of objects; a pointer is an index into it, and a deleted object is gone.\<close>

definition deref :: "'a option list \<Rightarrow> nat \<Rightarrow> 'a res" where
  "deref xs p = (if p < length xs then (case xs ! p of None \<Rightarrow> Inl UB_dangling | Some x \<Rightarrow> Inr x) else Inl UB_dangling)"

section \<open>std::string\<close>

text \<open>\<open>s.find(c, from)\<close> for a one-character pattern, \<open>s.rfind(c)\<close> (which for one character is
  \<open>find_last_of\<close>), and the general \<open>s.find(pat)\<close>.\<close>

fun find_char :: "char \<Rightarrow> string \<Rightarrow> nat option" where
  "find_char c [] = None"
| "find_char c (x # xs) = (if x = c then Some 0 else map_option Suc (find_char c xs))"

definition str_find_from :: "string \<Rightarrow> char \<Rightarrow> nat \<Rightarrow> nat option" where
  "str_find_from s c from = map_option (\<lambda>p. p + from) (find_char c (drop from s))"

fun find_last_of :: "char \<Rightarrow> string \<Rightarrow> nat option" where
  "find_last_of c [] = None"
| "find_last_of c (x # xs) =
     (case find_last_of c xs of
        Some p \<Rightarrow> Some (Suc p)
      | None \<Rightarrow> (if x = c then Some 0 else None))"

fun str_find :: "string \<Rightarrow> string \<Rightarrow> nat option" where
  "str_find s pat =
     (if prefix pat s then Some 0
      else case s of [] \<Rightarrow> None | _ # s' \<Rightarrow> map_option Suc (str_find s' pat))"

declare str_find.simps [simp del]

text \<open>\<open>s.substr(pos, count)\<close>: throws when \<open>pos\<close> is past the end; \<open>None\<close> as the count is
  \<open>npos\<close>.\<close>

definition str_substr :: "string \<Rightarrow> nat \<Rightarrow> nat option \<Rightarrow> string res" where
  "str_substr s pos cnt =
     (if length s < pos then Inl Exn_out_of_range
      else Inr (case cnt of None \<Rightarrow> drop pos s | Some n \<Rightarrow> take n (drop pos s)))"

text \<open>\<open>s[0]\<close> of a possibly empty string: \<open>s[size()]\<close> is the terminating zero character.\<close>

definition str_front :: "string \<Rightarrow> char" where
  "str_front s = (case s of [] \<Rightarrow> CHR 0x00 | c # _ \<Rightarrow> c)"

text \<open>\<open>s.data()\<close> read as a C string, up to its first null character.\<close>

definition c_str :: "string \<Rightarrow> string" where
  "c_str s = takeWhile (\<lambda>c. c \<noteq> CHR 0x00) s"

text \<open>The token of \<open>s\<close> that starts at \<open>from\<close> and ends before the next delimiter. Two classes
  of the library have this routine, \<open>DirTree::getNextToken\<close> (delimiter slash) and
  \<open>RequestEvent::getNextQuery\<close> (delimiter ampersand); both are instances.\<close>

definition next_piece :: "char \<Rightarrow> string \<Rightarrow> nat \<Rightarrow> string" where
  "next_piece c s from =
     (if from \<ge> length s then []
      else case str_find_from s c from of
             None \<Rightarrow> drop from s
           | Some pos \<Rightarrow> take (pos - from) (drop from s))"

lemma find_last_of_None: "find_last_of c s = None \<longleftrightarrow> c \<notin> set s"
  by (induction s) (auto split: option.splits)

lemma find_last_of_append: "c \<notin> set v \<Longrightarrow> find_last_of c (u @ c # v) = Some (length u)"
proof (induction u)
  case Nil
  then have "find_last_of c v = None" by (simp add: find_last_of_None)
  then show ?case by simp
qed simp

lemma find_last_of_Some: "find_last_of c s = Some p \<Longrightarrow> \<exists>u v. s = u @ c # v \<and> c \<notin> set v \<and> p = length u"
proof -
  assume p: "find_last_of c s = Some p"
  then have "c \<in> set s" using find_last_of_None [of c s] by auto
  then obtain u v where "s = u @ c # v" "c \<notin> set v" by (meson split_list_last)
  with p show ?thesis using find_last_of_append [of c v u] by auto
qed

lemma find_char_takeWhile:
  "(case find_char c s of None \<Rightarrow> s | Some p \<Rightarrow> take p s) = takeWhile (\<lambda>x. x \<noteq> c) s"
  by (induction s) (auto split: option.splits)

lemma next_piece_takeWhile [cxx_string]:
  "next_piece c s from = takeWhile (\<lambda>x. x \<noteq> c) (drop from s)"
  using find_char_takeWhile [where c = c and s = "drop from s"]
  by (cases "find_char c (drop from s)") (simp_all add: next_piece_def str_find_from_def)

lemma next_piece_nonempty: "next_piece c s from \<noteq> [] \<Longrightarrow> from < length s"
  by (auto simp: next_piece_def split: if_splits)

text \<open>The pieces a loop sees that starts at \<open>from\<close>, advances by the piece's size plus one and
  stops at the first empty piece.\<close>

function pieces :: "char \<Rightarrow> string \<Rightarrow> nat \<Rightarrow> string list" where
  "pieces c s from =
     (let t = next_piece c s from in
      if t = [] then [] else t # pieces c s (from + length t + 1))"
  by pat_completeness auto
termination
  by (relation "measure (\<lambda>(c, s, from). length s - from)") (auto dest: next_piece_nonempty)

declare pieces.simps [simp del]

lemma pieces_Nil: "next_piece c s from = [] \<Longrightarrow> pieces c s from = []"
  by (simp add: pieces.simps)

lemma pieces_Cons:
  "next_piece c s from = t \<Longrightarrow> t \<noteq> [] \<Longrightarrow>
   pieces c s from = t # pieces c s (from + length t + 1)"
  by (subst pieces.simps) (simp add: Let_def)

lemma pieces_empty_iff [simp]: "pieces c s from = [] \<longleftrightarrow> next_piece c s from = []"
  by (subst pieces.simps) (simp add: Let_def)

text \<open>Reference definition: split the string at every delimiter and keep the leading
  non-empty pieces.\<close>

fun split_at :: "char \<Rightarrow> string \<Rightarrow> string list" where
  "split_at c [] = [[]]"
| "split_at c (x # xs) =
     (if x = c then [] # split_at c xs
      else case split_at c xs of [] \<Rightarrow> [[x]] | p # ps \<Rightarrow> (x # p) # ps)"

lemma split_at_nonempty [simp]: "split_at c s \<noteq> []"
  by (cases s) (auto split: list.splits)

lemma split_at_no_delim: "c \<notin> set s \<Longrightarrow> split_at c s = [s]"
  by (induction s) auto

lemma split_at_delim: "c \<notin> set t \<Longrightarrow> split_at c (t @ c # r) = t # split_at c r"
  by (induction t) auto

lemma takeWhile_no_delim: "c \<notin> set t \<Longrightarrow> takeWhile (\<lambda>x. x \<noteq> c) t = t"
  by (induction t) auto

lemma takeWhile_delim: "c \<notin> set t \<Longrightarrow> takeWhile (\<lambda>x. x \<noteq> c) (t @ c # r) = t"
  by (induction t) auto

lemma drop_eq_appendD:
  assumes "drop from s = t @ u" and "from < length s"
  shows "drop (from + length t) s = u"
  using assms by (metis add.commute append_eq_conv_conj drop_drop)

lemma pieces_split_at:
  "pieces c s from = takeWhile (\<lambda>p. p \<noteq> []) (split_at c (drop from s))"
proof (induction c s "from" rule: pieces.induct)
  case (1 c s "from")
  show ?case
  proof (cases "c \<in> set (drop from s)")
    case False
    then have np: "next_piece c s from = drop from s"
      by (simp add: next_piece_takeWhile takeWhile_no_delim)
    moreover have "next_piece c s (from + length (drop from s) + 1) = []"
      by (simp add: next_piece_def)
    ultimately show ?thesis
      using False by (cases "drop from s = []") (simp_all add: split_at_no_delim pieces_Nil pieces_Cons)
  next
    case True
    then obtain t r where d: "drop from s = t @ c # r" and t: "c \<notin> set t"
      by (meson split_list_first)
    then have np: "next_piece c s from = t"
      by (simp add: next_piece_takeWhile takeWhile_delim)
    have "from < length s" using d by (cases "from < length s") auto
    then have "drop (from + length (t @ [c])) s = r"
      using drop_eq_appendD [of "from" s "t @ [c]" r] d by simp
    then show ?thesis
      using np d t "1" by (cases "t = []") (simp_all add: split_at_delim pieces_Nil pieces_Cons)
  qed
qed

lemma pieces_no_delim: "t \<in> set (pieces c s from) \<Longrightarrow> t \<noteq> [] \<and> c \<notin> set t"
proof (induction c s "from" rule: pieces.induct)
  case (1 c s "from")
  have "c \<notin> set (next_piece c s from)"
    by (auto simp: next_piece_takeWhile dest: set_takeWhileD)
  with 1 show ?case
    by (cases "next_piece c s from = []") (auto simp: pieces_Nil pieces_Cons)
qed

end
