(* ===== verification/UnorderedMap.thy ===== *)
theory UnorderedMap
  imports CxxPrelude
begin

text \<open>
  \<open>std::unordered_map\<close> as the library uses it. The interface is the locale
  \<open>unordered_map\<close>: what \<open>find\<close>, \<open>insert\<close>, \<open>erase\<close>, \<open>size\<close> and iteration promise. The
  association lists of the model provide it (interpretation \<open>um\<close>), and every component
  that keeps an \<open>unordered_map\<close> rests on the facts proved once in the locale.
\<close>

section \<open>The interface\<close>

locale unordered_map =
  fixes emp :: "'m"
    and ins :: "'k \<Rightarrow> 'v \<Rightarrow> 'm \<Rightarrow> 'm"
    and era :: "'k \<Rightarrow> 'm \<Rightarrow> 'm"
    and fnd :: "'m \<Rightarrow> 'k \<Rightarrow> 'v option"
    and sz :: "'m \<Rightarrow> nat"
    and ok :: "'m \<Rightarrow> bool"
  assumes ok_emp: "ok emp"
    and ok_ins: "ok m \<Longrightarrow> ok (ins k v m)"
    and ok_era: "ok m \<Longrightarrow> ok (era k m)"
    and fnd_emp: "fnd emp k = None"
    and fnd_ins: "fnd (ins k v m) k' =
          (if k' = k \<and> fnd m k = None then Some v else fnd m k')"
    and fnd_era: "fnd (era k m) k' = (if k' = k then None else fnd m k')"
    and sz_card: "ok m \<Longrightarrow> sz m = card (dom (fnd m))"
    and fin_dom: "finite (dom (fnd m))"
begin

lemma ins_present: "fnd m k \<noteq> None \<Longrightarrow> fnd (ins k v m) = fnd m"
  by (rule ext) (simp add: fnd_ins)

lemma first_insert_wins: "fnd m k = None \<Longrightarrow> fnd (ins k w (ins k v m)) k = Some v"
  by (simp add: fnd_ins)

lemma ins_after_era: "fnd (ins k v (era k m)) k = Some v"
  by (simp add: fnd_ins fnd_era)

lemma sz_ins:
  assumes "ok m"
  shows "sz (ins k v m) = (if fnd m k = None then Suc (sz m) else sz m)"
proof -
  have "dom (fnd (ins k v m)) = insert k (dom (fnd m))"
    by (auto simp: fnd_ins split: if_splits)
  with assms show ?thesis
    by (auto simp: sz_card ok_ins fin_dom card_insert_if)
qed

lemma sz_era:
  assumes "ok m"
  shows "sz (era k m) = (if fnd m k = None then sz m else sz m - 1)"
proof -
  have "dom (fnd (era k m)) = dom (fnd m) - {k}"
    by (auto simp: fnd_era split: if_splits)
  with assms show ?thesis
    by (auto simp: sz_card ok_era fin_dom card_Diff_singleton_if)
qed

lemma sz_zero: "ok m \<Longrightarrow> sz m = 0 \<longleftrightarrow> (\<forall>k. fnd m k = None)"
  using fin_dom [of m] by (auto simp: sz_card dom_def)

end

section \<open>Association lists provide it\<close>

definition um_find :: "('k \<times> 'v) list \<Rightarrow> 'k \<Rightarrow> 'v option" where
  "um_find m k = map_of m k"

definition um_insert :: "'k \<Rightarrow> 'v \<Rightarrow> ('k \<times> 'v) list \<Rightarrow> ('k \<times> 'v) list" where
  "um_insert k v m = (if map_of m k = None then m @ [(k, v)] else m)"

definition um_erase :: "'k \<Rightarrow> ('k \<times> 'v) list \<Rightarrow> ('k \<times> 'v) list" where
  "um_erase k m = filter (\<lambda>e. fst e \<noteq> k) m"

definition um_wf :: "('k \<times> 'v) list \<Rightarrow> bool" where
  "um_wf m \<longleftrightarrow> distinct (map fst m)"

lemma map_of_filter_neq: "map_of (filter (\<lambda>e. fst e \<noteq> k) m) k' = (if k' = k then None else map_of m k')"
  by (induction m) auto

interpretation um: unordered_map "[]" um_insert um_erase um_find length um_wf
proof unfold_locales
  fix m :: "('k \<times> 'v) list" and k v k'
  show "um_wf ([] :: ('k \<times> 'v) list)" by (simp add: um_wf_def)
  show "um_wf m \<Longrightarrow> um_wf (um_insert k v m)"
    by (auto simp: um_wf_def um_insert_def map_of_eq_None_iff)
  show "um_wf m \<Longrightarrow> um_wf (um_erase k m)"
    by (simp add: um_wf_def um_erase_def distinct_map_filter)
  show "um_find ([] :: ('k \<times> 'v) list) k = None" by (simp add: um_find_def)
  show "um_find (um_insert k v m) k' =
      (if k' = k \<and> um_find m k = None then Some v else um_find m k')"
    by (auto simp: um_find_def um_insert_def map_add_def split: option.splits)
  show "um_find (um_erase k m) k' = (if k' = k then None else um_find m k')"
    by (simp add: um_find_def um_erase_def map_of_filter_neq)
  show "um_wf m \<Longrightarrow> length m = card (dom (um_find m))"
    unfolding um_wf_def um_find_def dom_map_of_conv_image_fst
    by (metis distinct_card length_map list.set_map)
  show "finite (dom (um_find m))"
    unfolding um_find_def by (rule finite_dom_map_of)
qed

lemmas um_simps [simp] = um.fnd_emp um.fnd_ins um.fnd_era um.ok_emp um.ok_ins um.ok_era

lemma um_find_Some_in: "um_find m k = Some v \<Longrightarrow> (k, v) \<in> set m"
  by (simp add: um_find_def map_of_SomeD)

lemma um_find_in: "um_wf m \<Longrightarrow> (k, v) \<in> set m \<Longrightarrow> um_find m k = Some v"
  by (simp add: um_find_def um_wf_def)

lemma um_in_insert: "e \<in> set (um_insert k v m) \<Longrightarrow> e = (k, v) \<or> e \<in> set m"
  by (auto simp: um_insert_def split: if_splits)

lemma um_in_erase: "e \<in> set (um_erase k m) \<Longrightarrow> e \<in> set m"
  by (auto simp: um_erase_def)

text \<open>Assignment through an iterator or a stored pointer: the mapped value of an existing
  key is replaced, the order of the entries stays.\<close>

fun um_modify :: "'k \<Rightarrow> ('v \<Rightarrow> 'v) \<Rightarrow> ('k \<times> 'v) list \<Rightarrow> ('k \<times> 'v) list" where
  "um_modify k f [] = []"
| "um_modify k f (e # m) = (if fst e = k then (fst e, f (snd e)) # m else e # um_modify k f m)"

lemma um_find_modify [simp]:
  "um_find (um_modify k f m) k' = (if k' = k then map_option f (um_find m k) else um_find m k')"
  unfolding um_find_def by (induction m) auto

lemma um_keys_modify [simp]: "map fst (um_modify k f m) = map fst m"
  by (induction m) auto

lemma um_wf_modify [simp]: "um_wf (um_modify k f m) = um_wf m"
  by (simp add: um_wf_def)

lemma um_in_modify: "e \<in> set (um_modify k f m) \<Longrightarrow> e \<in> set m \<or> (\<exists>v. e = (k, f v) \<and> (k, v) \<in> set m)"
  by (induction m) (auto split: if_splits)

section \<open>std::to_string of an unsigned number\<close>

definition digit_char :: "nat \<Rightarrow> char" where
  "digit_char d = char_of (48 + d)"

fun to_string :: "nat \<Rightarrow> string" where
  "to_string n = (if n < 10 then [digit_char n] else to_string (n div 10) @ [digit_char (n mod 10)])"

declare to_string.simps [simp del]

fun decimal_value :: "string \<Rightarrow> nat \<Rightarrow> nat" where
  "decimal_value [] acc = acc"
| "decimal_value (c # cs) acc = decimal_value cs (10 * acc + (of_char c - 48))"

lemma decimal_value_append: "decimal_value (xs @ ys) acc = decimal_value ys (decimal_value xs acc)"
  by (induction xs arbitrary: acc) auto

lemma of_char_digit: "d < 10 \<Longrightarrow> of_char (digit_char d) = 48 + d"
  by (simp add: digit_char_def)

lemma decimal_value_to_string: "decimal_value (to_string n) 0 = n"
proof (induction n rule: to_string.induct)
  case (1 n)
  show ?case
  proof (cases "n < 10")
    case True
    then show ?thesis by (simp add: to_string.simps [of n] of_char_digit)
  next
    case False
    then show ?thesis
      using "1" by (simp add: to_string.simps [of n] of_char_digit decimal_value_append)
  qed
qed

lemma to_string_inj: "to_string m = to_string n \<Longrightarrow> m = n"
  by (metis decimal_value_to_string)

definition is_digit :: "char \<Rightarrow> bool" where
  "is_digit c \<longleftrightarrow> 48 \<le> (of_char c :: nat) \<and> (of_char c :: nat) \<le> 57"

lemma to_string_digits: "c \<in> set (to_string n) \<Longrightarrow> is_digit c"
proof (induction n rule: to_string.induct)
  case (1 n)
  then show ?case
    by (cases "n < 10") (auto simp: to_string.simps [of n] is_digit_def of_char_digit)
qed

lemma to_string_nonempty: "to_string n \<noteq> []"
  by (subst to_string.simps) simp

end
