(* ===== verification/DirTree.thy ===== *)
theory DirTree
  imports UnorderedMap
begin

text \<open>
  \<open>src/dirtree.cpp\<close>: the tree of path components that the file system watcher and the
  HTTP router share.

  A \<open>Node\<close> is owned by the one entry of its parent's \<open>children\<close> that holds it, so the heap
  of nodes is a tree and the model is a tree value. A \<open>Node *\<close> that a loop moves down the
  tree is the list of keys from the root to the node (\<open>node_at\<close> dereferences it); a null
  \<open>void *data\<close> is \<open>None\<close>. \<open>new Node()\<close> value-initialises, so a fresh node has null data.
  The root is set by the constructor and reset only by the destructor, so between the two
  the guard \<open>NULL_ROOT\<close> never returns and the model's tree always has a root.

  The loops are translated as loops over \<open>from\<close>, and a callback is a function on the state
  of the client that may fault. What they compute is then stated over the token list of the
  key (\<open>key_tokens\<close>): lookup after insert, lookup after drop, the nodes a drop visits.
\<close>

section \<open>class Node\<close>

datatype 'd node = Node (getKey: string) (getData: "'d option") (getChildren: "(string \<times> 'd node) list")

definition Node_new :: "'d node" where
  "Node_new = Node [] None []"

definition Node_addChild :: "string \<Rightarrow> 'd node \<Rightarrow> 'd node \<Rightarrow> 'd node" where
  "Node_addChild key child n = Node (getKey n) (getData n) (um_insert key child (getChildren n))"

definition Node_hasChildren :: "'d node \<Rightarrow> bool" where
  "Node_hasChildren n = (if 0 = length (getChildren n) then False else True)"

definition Node_hasChild :: "string \<Rightarrow> 'd node \<Rightarrow> bool" where
  "Node_hasChild key n = (case um_find (getChildren n) key of None \<Rightarrow> False | Some _ \<Rightarrow> True)"

definition Node_getChild :: "string \<Rightarrow> 'd node \<Rightarrow> 'd node option" where
  "Node_getChild key n = um_find (getChildren n) key"

definition Node_deleteChild :: "string \<Rightarrow> 'd node \<Rightarrow> 'd node" where
  "Node_deleteChild key n = Node (getKey n) (getData n) (um_erase key (getChildren n))"

definition Node_setChildren :: "(string \<times> 'd node) list \<Rightarrow> 'd node \<Rightarrow> 'd node" where
  "Node_setChildren cs n = Node (getKey n) (getData n) cs"

definition Node_setData :: "'d option \<Rightarrow> 'd node \<Rightarrow> 'd node" where
  "Node_setData d n = Node (getKey n) d (getChildren n)"

definition Node_setKey :: "string \<Rightarrow> 'd node \<Rightarrow> 'd node" where
  "Node_setKey key n = Node key (getData n) (getChildren n)"

text \<open>\<open>Node::dropChildren(cbk, suffix, this_)\<close>: the children first, each deleted after its own
  call, then the callback on this node, whose \<open>children\<close> are cleared by then. The callback
  works on the client's state; \<open>None\<close> is a null callback.\<close>

fun Node_dropChildren_suffix ::
  "('d node \<Rightarrow> string \<Rightarrow> 's \<Rightarrow> 's res) option \<Rightarrow> string \<Rightarrow> 'd node \<Rightarrow> 's \<Rightarrow> 's res" where
  "Node_dropChildren_suffix cbk sfx (Node key d cs) s =
     bindR (foldR (\<lambda>e. Node_dropChildren_suffix cbk (sfx @ ''/'' @ key) (snd e)) cs s)
       (\<lambda>s'. case cbk of
               None \<Rightarrow> Inr s'
             | Some f \<Rightarrow> f (Node_setChildren [] (Node key d cs)) (sfx @ ''/'' @ key) s')"

definition Node_dropChildren ::
  "('d node \<Rightarrow> string \<Rightarrow> 's \<Rightarrow> 's res) option \<Rightarrow> 'd node \<Rightarrow> 's \<Rightarrow> 's res" where
  "Node_dropChildren cbk n s = Node_dropChildren_suffix cbk [] n s"

section \<open>class DirTree\<close>

record 'd DirTree =
  root :: "'d node"

definition DirTree_new :: "'d DirTree" where
  "DirTree_new = \<lparr>root = Node_setKey ''root'' Node_new\<rparr>"

definition DirTree_normalize :: "string \<Rightarrow> string" where
  "DirTree_normalize key =
     (if str_front key \<noteq> CHR ''/'' \<and> str_front key \<noteq> CHR ''.'' then ''./'' @ key
      else if str_front key = CHR ''/'' then ''.'' @ key
      else key)"

definition getNextToken :: "string \<Rightarrow> nat \<Rightarrow> string" where
  "getNextToken path from =
     (if from \<ge> length path then []
      else case str_find_from path CHR ''/'' from of
             None \<Rightarrow> drop from path
           | Some pos \<Rightarrow> take (pos - from) (drop from path))"

definition isLastToken :: "string \<Rightarrow> nat \<Rightarrow> bool" where
  "isLastToken path from =
     (let token = getNextToken path from in if 0 = length token then True else False)"

text \<open>Dereference of, and update through, a node pointer given as its path from the root.\<close>

fun node_at :: "'d node \<Rightarrow> string list \<Rightarrow> 'd node option" where
  "node_at n [] = Some n"
| "node_at n (k # ks) = (case Node_getChild k n of None \<Rightarrow> None | Some c \<Rightarrow> node_at c ks)"

fun update_at :: "string list \<Rightarrow> ('d node \<Rightarrow> 'd node) \<Rightarrow> 'd node \<Rightarrow> 'd node" where
  "update_at [] f n = f n"
| "update_at (k # ks) f n =
     Node (getKey n) (getData n) (um_modify k (update_at ks f) (getChildren n))"

lemma getNextToken_piece: "getNextToken path from = next_piece CHR ''/'' path from"
  by (simp add: getNextToken_def next_piece_def)

lemma getNextToken_nonempty: "getNextToken path from \<noteq> [] \<Longrightarrow> from < length path"
  by (simp add: getNextToken_piece next_piece_nonempty)

text \<open>\<open>DirTree::insert\<close>. The loop variables are \<open>root\<close> (the tree it mutates), \<open>node\<close> and
  \<open>from\<close>; the last statement sets the data of the node the loop ends at.\<close>

definition hasChild_at :: "'d node \<Rightarrow> string list \<Rightarrow> string \<Rightarrow> bool" where
  "hasChild_at r node token = (case node_at r node of None \<Rightarrow> False | Some n \<Rightarrow> Node_hasChild token n)"

function insert_loop :: "string \<Rightarrow> nat \<Rightarrow> 'd node \<Rightarrow> string list \<Rightarrow> 'd node \<times> string list" where
  "insert_loop key from r node =
     (let token = getNextToken key from in
      if length token \<noteq> 0 then
        (let r' = (if \<not> hasChild_at r node token
                   then update_at node (Node_addChild token (Node_setKey token Node_new)) r
                   else r)
         in insert_loop key (from + length token + 1) r' (node @ [token]))
      else (r, node))"
  by pat_completeness auto
termination
  by (relation "measure (\<lambda>(key, from, r, node). length key - from)")
     (auto dest: getNextToken_nonempty)

definition DirTree_insert :: "string \<Rightarrow> 'd option \<Rightarrow> 'd DirTree \<Rightarrow> 'd DirTree" where
  "DirTree_insert key0 data t =
     (let key1 = DirTree_normalize key0;
          key = (if str_front key1 = CHR ''/'' then drop 1 key1 else key1);
          rn = insert_loop key 0 (root t) []
      in t\<lparr>root := update_at (snd rn) (Node_setData data) (fst rn)\<rparr>)"

text \<open>\<open>DirTree::search\<close>. The result pairs \<open>found\<close> with \<open>node\<close> at the end of the loop; \<open>found\<close>
  keeps its old value when a wildcard is accepted.\<close>

function search_loop :: "(string \<Rightarrow> string \<Rightarrow> bool) \<Rightarrow> string \<Rightarrow> nat \<Rightarrow> bool \<Rightarrow> 'd node \<Rightarrow> bool \<times> 'd node option" where
  "search_loop cbk key from found node =
     (let token = getNextToken key from in
      if 0 = length token then (found, Some node)
      else
        (let from' = from + length token + 1 in
         case Node_getChild token node of
           None \<Rightarrow>
             (if \<not> isLastToken key from' then (False, None)
              else case Node_getChild ''*'' node of
                     None \<Rightarrow> (False, None)
                   | Some star \<Rightarrow>
                       (if cbk (getKey star) token then (found, Some star) else (False, Some star)))
         | Some child \<Rightarrow> search_loop cbk key from' True child))"
  by pat_completeness auto
termination
  by (relation "measure (\<lambda>(cbk, key, from, found, node). length key - from)")
     (auto dest: getNextToken_nonempty)

definition DirTree_search :: "string \<Rightarrow> (string \<Rightarrow> string \<Rightarrow> bool) \<Rightarrow> 'd DirTree \<Rightarrow> 'd option res" where
  "DirTree_search key0 cbk t =
     (let key = DirTree_normalize key0 in
      case search_loop cbk key 0 False (root t) of
        (True, Some node) \<Rightarrow> Inr (getData node)
      | (True, None) \<Rightarrow> Inl UB_null_deref
      | (False, _) \<Rightarrow> Inr None)"

text \<open>\<open>DirTree::hasChildren\<close>. \<open>node\<close> may become null, and the next iteration calls a member
  function through it. The loop has no other way out than \<open>break\<close> or that fault.\<close>

function hasChildren_loop :: "string \<Rightarrow> nat \<Rightarrow> 'd node option \<Rightarrow> bool res" where
  "hasChildren_loop key from node =
     (let token = getNextToken key from;
          from' = from + length token + 1
      in case node of
           None \<Rightarrow> Inl UB_null_deref
         | Some n \<Rightarrow>
             (if isLastToken key from' then
                (case Node_getChild token n of
                   Some c \<Rightarrow> Inr (Node_hasChildren c)
                 | None \<Rightarrow> hasChildren_loop key from' None)
              else hasChildren_loop key from' (Node_getChild token n)))"
  by pat_completeness auto
termination
proof (relation "measure (\<lambda>(key, from, node). (if node = None then 0 else Suc (length key - from)))")
  show "wf (measure (\<lambda>(key :: string, from, node :: 'd node option).
      (if node = None then 0 else Suc (length key - from))))" by simp
next
  fix key token :: string and "from" node from' and n :: "'d node"
  assume f: "from' = from + length token + 1" and n: "node = Some n" and l: "\<not> isLastToken key from'"
  then have "from' < length key"
    by (auto simp: isLastToken_def Let_def dest: getNextToken_nonempty split: if_splits)
  with f n show "((key, from', Node_getChild token n), (key, from, node))
      \<in> measure (\<lambda>(key, from, node). (if node = None then 0 else Suc (length key - from)))"
    by auto
qed auto

definition DirTree_hasChildren :: "string \<Rightarrow> 'd DirTree \<Rightarrow> bool res" where
  "DirTree_hasChildren key0 t =
     (let key = DirTree_normalize key0 in hasChildren_loop key 0 (Some (root t)))"

text \<open>\<open>DirTree::drop\<close>: find the node, then \<open>dropTree\<close>, whose callback turns the suffix that
  \<open>Node::dropChildren\<close> builds into a path below the parent of the key.\<close>

definition dropChildCbk ::
  "string \<Rightarrow> (string \<Rightarrow> 'd option \<Rightarrow> 's \<Rightarrow> 's res) option \<Rightarrow> 'd node \<Rightarrow> string \<Rightarrow> 's \<Rightarrow> 's res" where
  "dropChildCbk pre dropCbk node sfx s =
     (let path0 = (case find_last_of CHR ''/'' pre of None \<Rightarrow> pre | Some p \<Rightarrow> take p pre);
          path = path0 @ sfx
      in case dropCbk of None \<Rightarrow> Inr s | Some f \<Rightarrow> f path (getData node) s)"

definition DirTree_dropTree ::
  "string \<Rightarrow> string list \<Rightarrow> 'd node \<Rightarrow> (string \<Rightarrow> 'd option \<Rightarrow> 's \<Rightarrow> 's res) option \<Rightarrow>
   'd DirTree \<Rightarrow> 's \<Rightarrow> ('d DirTree \<times> 's) res" where
  "DirTree_dropTree key parent child dropCbk t s =
     bindR (Node_dropChildren (Some (dropChildCbk key dropCbk)) child s)
       (\<lambda>s'. Inr (t\<lparr>root := update_at parent (Node_deleteChild (getKey child)) (root t)\<rparr>, s'))"

function drop_loop :: "'d node \<Rightarrow> string \<Rightarrow> nat \<Rightarrow> bool \<Rightarrow> string list \<Rightarrow> string list \<Rightarrow>
    bool \<times> string list \<times> 'd node option" where
  "drop_loop r key from found node parent =
     (let token = getNextToken key from in
      if 0 = length token then (found, parent, node_at r node)
      else
        (let parent' = node; node' = node @ [token] in
         case node_at r node' of
           None \<Rightarrow> (False, parent', None)
         | Some _ \<Rightarrow> drop_loop r key (from + length token + 1) True node' parent'))"
  by pat_completeness auto
termination
  by (relation "measure (\<lambda>(r, key, from, found, node, parent). length key - from)")
     (auto dest: getNextToken_nonempty)

definition DirTree_drop ::
  "string \<Rightarrow> (string \<Rightarrow> 'd option \<Rightarrow> 's \<Rightarrow> 's res) option \<Rightarrow> 'd DirTree \<Rightarrow> 's \<Rightarrow> ('d DirTree \<times> 's) res" where
  "DirTree_drop key0 dropCbk t s =
     (let key = DirTree_normalize key0 in
      case drop_loop (root t) key 0 False [] [] of
        (True, parent, Some node) \<Rightarrow> DirTree_dropTree key parent node dropCbk t s
      | (True, parent, None) \<Rightarrow> Inl UB_null_deref
      | (False, _, _) \<Rightarrow> Inr (t, s))"

text \<open>The destructor drops everything below the current directory component and then deletes
  the root node itself: no tree is left.\<close>

definition DirTree_delete :: "'d DirTree \<Rightarrow> unit res" where
  "DirTree_delete t = bindR (DirTree_drop ''.'' None t ()) (\<lambda>_. Inr ())"

text \<open>\<open>DirTree::print\<close>: one line per node, indented by a format built in a buffer of 1024 bytes.
  Iteration \<open>i\<close> appends at most \<open>sizeof(format) - sizeof("  ") * i\<close> (that is \<open>1024 - 3 * i\<close>, in
  \<open>size_t\<close>) of two blanks; the buffer overflows when blanks and terminator need more than
  1024 bytes. The lines are returned instead of printed.\<close>

definition strncat_count :: "nat \<Rightarrow> nat" where
  "strncat_count i = min 2 (unat (1024 - 3 * word_of_nat i :: u64))"

definition print_indent :: "nat \<Rightarrow> nat" where
  "print_indent depth = sum_list (map strncat_count [0..<min (depth + 1) 1024])"

fun print_node :: "nat \<Rightarrow> 'd node \<Rightarrow> string list \<Rightarrow> string list res" where
  "print_node depth0 (Node key d cs) out =
     (let depth = depth0 + 1;
          indent = print_indent depth
      in if 1024 < indent + 1 then Inl UB_buffer_overflow
         else foldR (\<lambda>e. print_node depth (snd e)) cs (out @ [replicate indent CHR '' '' @ key]))"

definition DirTree_print :: "'d DirTree \<Rightarrow> string list res" where
  "DirTree_print t = bindR (print_node 0 (root t) []) (\<lambda>out. Inr (out @ [[]]))"

declare insert_loop.simps [simp del] search_loop.simps [simp del]
  hasChildren_loop.simps [simp del] drop_loop.simps [simp del]


section \<open>Children, pointers and paths\<close>

lemmas node_defs = Node_new_def Node_addChild_def Node_hasChildren_def Node_hasChild_def
  Node_getChild_def Node_deleteChild_def Node_setChildren_def Node_setData_def Node_setKey_def

lemma node_at_append: "node_at n (ks @ ls) = Option.bind (node_at n ks) (\<lambda>m. node_at m ls)"
  by (induction ks arbitrary: n) (auto split: option.splits)

lemma node_at_snoc:
  "node_at n (ks @ [k]) = Option.bind (node_at n ks) (Node_getChild k)"
  by (cases "node_at n ks") (auto simp: node_at_append split: option.splits)

lemma node_at_prefix: "node_at n (ks @ ls) \<noteq> None \<Longrightarrow> node_at n ks \<noteq> None"
  by (cases "node_at n ks") (auto simp: node_at_append)

lemma update_at_Nil: "update_at [] f = f"
  by (rule ext) simp

lemma update_at_append: "update_at (ks @ ls) f = update_at ks (update_at ls f)"
proof (induction ks)
  case (Cons k ks)
  show ?case by (rule ext) (simp add: Cons.IH)
qed (simp add: update_at_Nil)

lemma um_modify_cong:
  "(\<And>v. um_find m k = Some v \<Longrightarrow> f v = g v) \<Longrightarrow> um_modify k f m = um_modify k g m"
  by (induction m) (auto simp: um_find_def)

lemma um_modify_modify: "um_modify k f (um_modify k g m) = um_modify k (\<lambda>v. f (g v)) m"
  by (induction m) auto

lemma um_modify_insert:
  "um_find m k = None \<Longrightarrow> um_modify k f (um_insert k v m) = um_insert k (f v) m"
  by (induction m) (auto simp: um_find_def um_insert_def)

lemma update_at_cong:
  "(\<And>m. node_at n ks = Some m \<Longrightarrow> f m = g m) \<Longrightarrow> update_at ks f n = update_at ks g n"
proof (induction ks arbitrary: n)
  case (Cons k ks)
  have "um_modify k (update_at ks f) (getChildren n) = um_modify k (update_at ks g) (getChildren n)"
    by (rule um_modify_cong) (rule Cons.IH, simp add: Cons.prems Node_getChild_def)
  then show ?case by simp
qed simp

lemma update_at_comp: "update_at ks f (update_at ks g n) = update_at ks (\<lambda>m. f (g m)) n"
proof (induction ks arbitrary: n)
  case (Cons k ks)
  then have "(\<lambda>m. update_at ks f (update_at ks g m)) = update_at ks (\<lambda>m. f (g m))" by (rule ext)
  then show ?case by (simp add: um_modify_modify)
qed simp

lemma node_at_update_ptr: "node_at (update_at ks f n) ks = map_option f (node_at n ks)"
  by (induction ks arbitrary: n) (auto simp: Node_getChild_def split: option.splits)

lemma node_at_update_same:
  "node_at (update_at ks f n) (ks @ ls) = Option.bind (node_at n ks) (\<lambda>m. node_at (f m) ls)"
  by (induction ks arbitrary: n) (auto simp: Node_getChild_def split: option.splits)

section \<open>Token lists of keys\<close>

definition key_tokens :: "string \<Rightarrow> string list" where
  "key_tokens key = pieces CHR ''/'' (DirTree_normalize key) 0"

lemma normalize_front [simp]: "str_front (DirTree_normalize key) = CHR ''.''"
  by (cases key) (auto simp: DirTree_normalize_def str_front_def)

lemma normalize_nonempty: "DirTree_normalize key \<noteq> []"
  using normalize_front [of key] by (auto simp: str_front_def simp del: normalize_front)

lemma key_tokens_nonempty [simp]: "key_tokens key \<noteq> []"
proof (cases "DirTree_normalize key")
  case Nil
  then show ?thesis using normalize_nonempty by simp
next
  case (Cons c cs)
  then have "c = CHR ''.''" using normalize_front [of key] by (simp add: str_front_def del: normalize_front)
  with Cons show ?thesis by (simp add: key_tokens_def next_piece_takeWhile)
qed

lemma key_tokens_valid: "t \<in> set (key_tokens key) \<Longrightarrow> t \<noteq> [] \<and> CHR ''/'' \<notin> set t"
  unfolding key_tokens_def by (rule pieces_no_delim)

section \<open>Insertion\<close>

text \<open>What the insertion loop builds: the path of the tokens, created where it is missing, with
  \<open>f\<close> applied to its last node.\<close>

fun grow :: "string list \<Rightarrow> ('d node \<Rightarrow> 'd node) \<Rightarrow> 'd node \<Rightarrow> 'd node" where
  "grow [] f n = f n"
| "grow (k # ks) f n =
     (case Node_getChild k n of
        Some _ \<Rightarrow> Node (getKey n) (getData n) (um_modify k (grow ks f) (getChildren n))
      | None \<Rightarrow> Node_addChild k (grow ks f (Node k None [])) n)"

lemma grow_child:
  "Node_getChild k n \<noteq> None \<Longrightarrow> update_at [k] (grow ks f) n = grow (k # ks) f n"
  by (auto simp: update_at_Nil split: option.splits)

lemma grow_new_child:
  "Node_getChild k n = None \<Longrightarrow>
   update_at [k] (grow ks f) (Node_addChild k (Node k None []) n) = grow (k # ks) f n"
  by (simp add: node_defs um_modify_insert update_at_Nil)

lemma insert_loop_grow:
  "node_at r node \<noteq> None \<Longrightarrow>
   update_at (snd (insert_loop key from r node)) f (fst (insert_loop key from r node)) =
   update_at node (grow (pieces CHR ''/'' key from) f) r"
proof (induction key "from" r node rule: insert_loop.induct)
  case (1 key "from" r node)
  obtain n where n: "node_at r node = Some n" using "1.prems" by auto
  define token where "token = getNextToken key from"
  define rest where "rest = pieces CHR ''/'' key (from + length token + 1)"
  show ?case
  proof (cases "token = []")
    case True
    then show ?thesis
      by (simp add: insert_loop.simps [of key "from" r node] pieces_Nil token_def getNextToken_piece Let_def)
  next
    case False
    have ps: "pieces CHR ''/'' key from = token # rest"
      unfolding rest_def using False by (intro pieces_Cons) (simp_all add: token_def getNextToken_piece)
    define r' where "r' = (if \<not> hasChild_at r node token
        then update_at node (Node_addChild token (Node_setKey token Node_new)) r else r)"
    have loop: "insert_loop key from r node = insert_loop key (from + length token + 1) r' (node @ [token])"
      using False by (simp add: insert_loop.simps [of key "from" r node] r'_def token_def Let_def)
    have ptr: "node_at r' (node @ [token]) \<noteq> None"
      using n by (auto simp: r'_def hasChild_at_def node_at_snoc node_at_update_ptr node_defs split: option.splits)
    have IH: "update_at (snd (insert_loop key from r node)) f (fst (insert_loop key from r node)) =
        update_at node (update_at [token] (grow rest f)) r'"
      using "1.IH" [OF token_def, of r'] False ptr
      by (simp add: loop rest_def r'_def update_at_append token_def)
    also have "\<dots> = update_at node (grow (token # rest) f) r"
    proof (cases "Node_getChild token n")
      case None
      then have "r' = update_at node (Node_addChild token (Node token None [])) r"
        using n by (simp add: r'_def hasChild_at_def node_defs)
      then show ?thesis
        using n None by (auto simp: update_at_comp grow_new_child simp del: update_at.simps grow.simps
            intro!: update_at_cong)
    next
      case (Some c)
      then have "r' = r" using n by (simp add: r'_def hasChild_at_def node_defs)
      then show ?thesis
        using n Some by (auto simp: grow_child simp del: update_at.simps grow.simps intro!: update_at_cong)
    qed
    finally show ?thesis by (simp only: ps)
  qed
qed

lemma insert_grow:
  "root (DirTree_insert key d t) = grow (key_tokens key) (Node_setData d) (root t)"
  by (simp add: DirTree_insert_def Let_def insert_loop_grow key_tokens_def)

text \<open>The abstract view: the data stored at a token list, and which token lists have a node.\<close>

definition data_at :: "'d node \<Rightarrow> string list \<Rightarrow> 'd option" where
  "data_at n ks = Option.bind (node_at n ks) getData"

lemma data_at_simps [simp]:
  "data_at n [] = getData n"
  "data_at n (k # ks) = (case Node_getChild k n of None \<Rightarrow> None | Some c \<Rightarrow> data_at c ks)"
  by (auto simp: data_at_def split: option.splits)

lemma getChild_grow:
  "Node_getChild k' (grow (k # ks) f n) =
     (if k' = k then Some (grow ks f (case Node_getChild k n of None \<Rightarrow> Node k None [] | Some c \<Rightarrow> c))
      else Node_getChild k' n)"
  by (auto simp: node_defs split: option.splits)

lemma getData_grow_Cons [simp]: "getData (grow (k # ks) f n) = getData n"
  by (auto simp: node_defs split: option.splits)

lemma data_at_fresh [simp]: "data_at (Node k None []) us = None"
  by (cases us) (auto simp: node_defs)

lemma node_at_fresh: "node_at (Node k d []) us = (if us = [] then Some (Node k d []) else None)"
  by (cases us) (auto simp: node_defs)

lemma data_at_grow:
  "data_at (grow ks (Node_setData d) n) us = (if us = ks then d else data_at n us)"
proof (induction ks arbitrary: n us)
  case Nil
  then show ?case by (cases us) (auto simp: node_defs)
next
  case (Cons k ks)
  show ?case
    by (cases us) (auto simp: getChild_grow Cons.IH simp del: grow.simps split: option.splits)
qed

definition has_node :: "'d node \<Rightarrow> string list \<Rightarrow> bool" where
  "has_node n ks \<longleftrightarrow> node_at n ks \<noteq> None"

lemma has_node_simps [simp]:
  "has_node n []"
  "has_node n (k # ks) = (case Node_getChild k n of None \<Rightarrow> False | Some c \<Rightarrow> has_node c ks)"
  by (auto simp: has_node_def split: option.splits)

lemma has_node_fresh [simp]: "has_node (Node k d []) us \<longleftrightarrow> us = []"
  by (cases us) (auto simp: node_defs)

lemma has_node_grow:
  "has_node (grow ks (Node_setData d) n) us \<longleftrightarrow> prefix us ks \<or> has_node n us"
proof (induction ks arbitrary: n us)
  case Nil
  then show ?case by (cases us) (auto simp: node_defs)
next
  case (Cons k ks)
  show ?case
    by (cases us) (auto simp: getChild_grow Cons.IH simp del: grow.simps split: option.splits)
qed

section \<open>Well-formed trees\<close>

text \<open>Every child is stored under its own key, keys are non-empty and hold no slash, and no
  key occurs twice.\<close>

fun node_wf :: "'d node \<Rightarrow> bool" where
  "node_wf (Node k d cs) =
     (um_wf cs \<and> (\<forall>e \<in> set cs. getKey (snd e) = fst e \<and> fst e \<noteq> [] \<and> CHR ''/'' \<notin> set (fst e)
                             \<and> node_wf (snd e)))"

declare node_wf.simps [simp del]

lemma node_wf_getChild: "node_wf n \<Longrightarrow> Node_getChild k n = Some c \<Longrightarrow> node_wf c \<and> getKey c = k"
  by (cases n) (force simp: node_wf.simps Node_getChild_def dest: um_find_Some_in)

lemma node_wf_node_at: "node_wf n \<Longrightarrow> node_at n (ks @ [k]) = Some c \<Longrightarrow> node_wf c \<and> getKey c = k"
proof (induction ks arbitrary: n)
  case Nil
  then show ?case by (auto split: option.splits dest: node_wf_getChild)
next
  case (Cons j ks)
  then show ?case by (auto split: option.splits dest: node_wf_getChild)
qed

lemma node_wf_fresh [simp]: "node_wf (Node k d [])"
  by (simp add: node_wf.simps)

lemma node_wf_setData: "node_wf n \<Longrightarrow> node_wf (Node_setData d n)"
  by (cases n) (simp add: node_defs node_wf.simps)

lemma getKey_setData: "getKey (Node_setData d n) = getKey n"
  by (simp add: node_defs)

lemma node_wf_addChild:
  "node_wf n \<Longrightarrow> node_wf c \<Longrightarrow> getKey c = k \<Longrightarrow> k \<noteq> [] \<Longrightarrow> CHR ''/'' \<notin> set k \<Longrightarrow> node_wf (Node_addChild k c n)"
  by (cases n) (auto simp: node_defs node_wf.simps dest!: um_in_insert)

lemma node_wf_modify:
  assumes "node_wf n" and "\<And>c. node_wf c \<Longrightarrow> getKey c = k \<Longrightarrow> node_wf (f c) \<and> getKey (f c) = k"
  shows "node_wf (Node (getKey n) d (um_modify k f (getChildren n)))"
  using assms by (cases n) (auto simp: node_wf.simps dest!: um_in_modify)

lemma getKey_grow: "(\<And>m. getKey (f m) = getKey m) \<Longrightarrow> getKey (grow ks f n) = getKey n"
  by (cases ks) (auto simp: node_defs split: option.splits)

lemma getKey_update_at: "(\<And>m. getKey (f m) = getKey m) \<Longrightarrow> getKey (update_at ks f n) = getKey n"
  by (cases ks) auto

lemma node_wf_grow:
  assumes "\<And>m. node_wf m \<Longrightarrow> node_wf (f m)" and "\<And>m. getKey (f m) = getKey m"
    and "\<And>k. k \<in> set ks \<Longrightarrow> k \<noteq> [] \<and> CHR ''/'' \<notin> set k"
  shows "node_wf n \<Longrightarrow> node_wf (grow ks f n)"
  using assms(3)
proof (induction ks arbitrary: n)
  case Nil
  then show ?case by (simp add: assms)
next
  case (Cons k ks)
  then show ?case
    by (auto simp: getKey_grow assms split: option.splits intro!: node_wf_addChild node_wf_modify)
qed

lemma node_wf_update_at:
  assumes "\<And>m. node_wf m \<Longrightarrow> node_wf (f m)" and "\<And>m. getKey (f m) = getKey m"
  shows "node_wf n \<Longrightarrow> node_wf (update_at ks f n)"
  by (induction ks arbitrary: n) (auto simp: getKey_update_at assms intro!: node_wf_modify)

lemma node_wf_deleteChild: "node_wf n \<Longrightarrow> node_wf (Node_deleteChild k n)"
  by (cases n) (auto simp: node_defs node_wf.simps dest: um_in_erase)

definition DirTree_wf :: "'d DirTree \<Rightarrow> bool" where
  "DirTree_wf t \<longleftrightarrow> node_wf (root t)"

lemma DirTree_wf_new [simp]: "DirTree_wf DirTree_new"
  by (simp add: DirTree_wf_def DirTree_new_def node_defs)

lemma DirTree_wf_insert: "DirTree_wf t \<Longrightarrow> DirTree_wf (DirTree_insert key d t)"
  unfolding DirTree_wf_def insert_grow
  by (rule node_wf_grow) (auto simp: node_wf_setData getKey_setData dest: key_tokens_valid)

section \<open>Search\<close>

text \<open>The search loop over the token list.\<close>

fun look :: "(string \<Rightarrow> string \<Rightarrow> bool) \<Rightarrow> bool \<Rightarrow> string list \<Rightarrow> 'd node \<Rightarrow> bool \<times> 'd node option" where
  "look cbk found [] n = (found, Some n)"
| "look cbk found (k # ks) n =
     (case Node_getChild k n of
        Some c \<Rightarrow> look cbk True ks c
      | None \<Rightarrow>
          (if ks \<noteq> [] then (False, None)
           else case Node_getChild ''*'' n of
                  None \<Rightarrow> (False, None)
                | Some star \<Rightarrow> (if cbk (getKey star) k then (found, Some star) else (False, Some star))))"

lemma isLastToken_pieces: "isLastToken key from \<longleftrightarrow> pieces CHR ''/'' key from = []"
  by (simp add: isLastToken_def getNextToken_piece Let_def)

lemma search_loop_look:
  "search_loop cbk key from found n = look cbk found (pieces CHR ''/'' key from) n"
proof (induction cbk key "from" found n rule: search_loop.induct)
  case (1 cbk key "from" found n)
  show ?case
  proof (cases "getNextToken key from = []")
    case True
    then show ?thesis
      by (simp add: search_loop.simps [of cbk key "from"] pieces_Nil getNextToken_piece)
  next
    case False
    then have ps: "pieces CHR ''/'' key from =
        getNextToken key from # pieces CHR ''/'' key (from + length (getNextToken key from) + 1)"
      by (intro pieces_Cons) (simp_all add: getNextToken_piece)
    show ?thesis
      using False "1"
      by (simp add: search_loop.simps [of cbk key "from"] ps isLastToken_pieces Let_def split: option.splits
          del: pieces_empty_iff)
  qed
qed

lemma look_value:
  "look cbk found ks n =
     (case node_at n ks of
        Some m \<Rightarrow> (found \<or> ks \<noteq> [], Some m)
      | None \<Rightarrow>
          (case node_at n (butlast ks @ [''*'']) of
             Some star \<Rightarrow>
               (if cbk (getKey star) (last ks) then (found \<or> butlast ks \<noteq> [], Some star)
                else (False, Some star))
           | None \<Rightarrow> (False, None)))
   \<or> fst (look cbk found ks n) = False \<and> node_at n ks = None \<and> node_at n (butlast ks) = None"
proof (induction ks arbitrary: n found)
  case Nil
  then show ?case by simp
next
  case (Cons k ks)
  show ?case
  proof (cases "Node_getChild k n")
    case None
    then show ?thesis by (cases "ks = []") (auto split: option.splits)
  next
    case (Some c)
    then show ?thesis using Cons.IH [of True c] by (auto split: option.splits if_splits)
  qed
qed

theorem search_spec:
  "DirTree_search key cbk t =
     Inr (case node_at (root t) (key_tokens key) of
            Some n \<Rightarrow> getData n
          | None \<Rightarrow>
              (case node_at (root t) (butlast (key_tokens key) @ [''*'']) of
                 Some star \<Rightarrow>
                   (if cbk (getKey star) (last (key_tokens key)) \<and> 2 \<le> length (key_tokens key)
                    then getData star else None)
               | None \<Rightarrow> None))"
proof -
  define ks where "ks = key_tokens key"
  have ks: "ks \<noteq> []" by (simp add: ks_def)
  have two: "butlast ks \<noteq> [] \<longleftrightarrow> 2 \<le> length ks"
    using ks by (cases ks rule: rev_cases) (auto simp: Suc_le_eq)
  have star: "node_at (root t) (butlast ks) = None \<Longrightarrow> node_at (root t) (butlast ks @ [''*'']) = None"
    by (simp add: node_at_append)
  have "search_loop cbk (DirTree_normalize key) 0 False (root t) = look cbk False ks (root t)"
    by (simp add: search_loop_look ks_def key_tokens_def)
  then show ?thesis
    using look_value [of cbk False ks "root t"] ks two star
    unfolding DirTree_search_def Let_def ks_def [symmetric]
    by (auto split: option.splits if_splits prod.splits bool.splits)
qed

section \<open>Children of a key\<close>

lemma hasChildren_loop_spec:
  "pieces CHR ''/'' key from \<noteq> [] \<Longrightarrow>
   hasChildren_loop key from (Some n) =
     (case node_at n (pieces CHR ''/'' key from) of
        None \<Rightarrow> Inl UB_null_deref
      | Some m \<Rightarrow> Inr (getChildren m \<noteq> []))"
proof (induction key "from" "Some n" arbitrary: n rule: hasChildren_loop.induct)
  case (1 key "from" n)
  define token where "token = getNextToken key from"
  define rest where "rest = pieces CHR ''/'' key (from + length token + 1)"
  have token: "token \<noteq> []" using "1.prems" by (simp add: token_def getNextToken_piece)
  have ps: "pieces CHR ''/'' key from = token # rest"
    unfolding rest_def using token by (intro pieces_Cons) (simp_all add: token_def getNextToken_piece)
  have dead: "hasChildren_loop key j None = Inl UB_null_deref" for j
    by (simp add: hasChildren_loop.simps Let_def)
  have last: "isLastToken key (from + length token + 1) \<longleftrightarrow> rest = []"
    unfolding rest_def by (rule isLastToken_pieces)
  have step: "hasChildren_loop key from (Some n) =
     (if rest = [] then
        (case Node_getChild token n of Some c \<Rightarrow> Inr (Node_hasChildren c) | None \<Rightarrow> Inl UB_null_deref)
      else hasChildren_loop key (from + length token + 1) (Node_getChild token n))"
    using last by (simp add: hasChildren_loop.simps [of key "from" "Some n"] token_def dead Let_def split: option.splits)
  show ?case
  proof (cases "rest = []")
    case True
    then show ?thesis by (simp add: step ps Node_hasChildren_def split: option.splits)
  next
    case False
    then have "\<not> isLastToken key (from + length token + 1)" using last by simp
    with False show ?thesis
      using "1.hyps" [of token "from + length token + 1"] 
      by (cases "Node_getChild token n") (simp_all add: step ps dead token_def rest_def)
  qed
qed

theorem hasChildren_spec:
  "DirTree_hasChildren key t =
     (case node_at (root t) (key_tokens key) of
        None \<Rightarrow> Inl UB_null_deref
      | Some n \<Rightarrow> Inr (getChildren n \<noteq> []))"
  using hasChildren_loop_spec [of "DirTree_normalize key" 0 "root t"] key_tokens_nonempty [of key]
  by (simp add: DirTree_hasChildren_def key_tokens_def del: key_tokens_nonempty)

section \<open>Dropping a subtree\<close>

lemma node_induct [case_names Node]:
  assumes "\<And>k d cs. (\<And>e. e \<in> set cs \<Longrightarrow> P (snd e)) \<Longrightarrow> P (Node k d cs)"
  shows "P n"
  by (induction n) (rule assms, auto simp: snds.simps)

text \<open>The nodes below a node in the order \<open>Node::dropChildren\<close> calls back on them, as key lists
  relative to the node.\<close>

fun visit_order :: "'d node \<Rightarrow> (string list \<times> 'd option) list" where
  "visit_order (Node k d cs) =
     concat (map (\<lambda>e. map (\<lambda>v. (fst e # fst v, snd v)) (visit_order (snd e))) cs) @ [([], d)]"

definition path_str :: "string list \<Rightarrow> string" where
  "path_str ks = concat (map (\<lambda>k. ''/'' @ k) ks)"

lemma path_str_simps [simp]:
  "path_str [] = []" "path_str (k # ks) = ''/'' @ k @ path_str ks"
  "path_str (ks @ ls) = path_str ks @ path_str ls"
  by (simp_all add: path_str_def)

lemma dropChildren_visits:
  "node_wf n \<Longrightarrow>
    Node_dropChildren_suffix (Some (\<lambda>m p. g p (getData m))) sfx n s =
    foldR (\<lambda>v. g (sfx @ path_str (getKey n # fst v)) (snd v)) (visit_order n) s"
proof (induction n arbitrary: sfx s rule: node_induct)
  case (Node k d cs)
  let ?f = "Some (\<lambda>m p. g p (getData m))"
  let ?g = "\<lambda>v. g (sfx @ path_str (k # fst v)) (snd v)"
  have child: "Node_dropChildren_suffix ?f (sfx @ ''/'' @ k) (snd e) u =
      foldR ?g (map (\<lambda>v. (fst e # fst v, snd v)) (visit_order (snd e))) u" if "e \<in> set cs" for e u
  proof -
    have "node_wf (snd e)" and "getKey (snd e) = fst e"
      using that Node.prems by (auto simp: node_wf.simps)
    with Node.IH [OF that, of "sfx @ ''/'' @ k" u] show ?thesis
      by (simp add: foldR_map)
  qed
  have "foldR (\<lambda>e. Node_dropChildren_suffix ?f (sfx @ ''/'' @ k) (snd e)) cs s =
      foldR ?g (concat (map (\<lambda>e. map (\<lambda>v. (fst e # fst v, snd v)) (visit_order (snd e))) cs)) s"
    unfolding foldR_concat_map by (rule foldR_cong) (auto simp only: child)
  then show ?case
    by (simp add: foldR_append foldR_single Node_setChildren_def)
qed

lemma dropChildren_null:
  "Node_dropChildren_suffix None sfx n s = Inr s"
proof (induction n arbitrary: sfx s rule: node_induct)
  case (Node k d cs)
  then have "foldR (\<lambda>e. Node_dropChildren_suffix None (sfx @ ''/'' @ k) (snd e)) cs s = foldR (\<lambda>e. Inr) cs s"
    by (intro foldR_cong) simp_all
  then show ?case by (simp add: foldR_skip)
qed

lemma visit_order_iff:
  "node_wf n \<Longrightarrow> (us, d) \<in> set (visit_order n) \<longleftrightarrow> (\<exists>m. node_at n us = Some m \<and> getData m = d)"
proof (induction n arbitrary: us rule: node_induct)
  case (Node k d' cs)
  have wf: "um_wf cs" using Node.prems by (simp add: node_wf.simps)
  have IH: "(us, d) \<in> set (visit_order (snd e)) \<longleftrightarrow> (\<exists>m. node_at (snd e) us = Some m \<and> getData m = d)"
    if "e \<in> set cs" for e us
    using Node.IH [OF that] Node.prems that by (auto simp: node_wf.simps)
  show ?case
  proof (cases us)
    case Nil
    then show ?thesis by auto
  next
    case (Cons u us')
    have "(us, d) \<in> set (visit_order (Node k d' cs)) \<longleftrightarrow>
        (\<exists>e \<in> set cs. fst e = u \<and> (us', d) \<in> set (visit_order (snd e)))"
      using Cons by force
    also have "\<dots> \<longleftrightarrow> (\<exists>c. um_find cs u = Some c \<and> (us', d) \<in> set (visit_order c))"
    proof -
      have "e \<in> set cs \<and> fst e = u \<longleftrightarrow> um_find cs u = Some (snd e) \<and> fst e = u" for e
        using um_find_in [OF wf, of "fst e" "snd e"] um_find_Some_in [of cs u "snd e"] by (cases e) auto
      then show ?thesis by (metis fst_conv snd_conv)
    qed
    also have "\<dots> \<longleftrightarrow> (\<exists>m. node_at (Node k d' cs) us = Some m \<and> getData m = d)"
    proof (cases "um_find cs u")
      case (Some c)
      then have "(u, c) \<in> set cs" by (rule um_find_Some_in)
      from IH [OF this] Some Cons show ?thesis by (simp add: Node_getChild_def)
    qed (simp add: Cons Node_getChild_def)
    finally show ?thesis .
  qed
qed

text \<open>No node is visited after one of its ancestors: children come first, and no node is
  visited twice (a list is a prefix of itself).\<close>

lemma sorted_wrt_concat:
  "sorted_wrt P (concat xss) \<longleftrightarrow>
   (\<forall>xs \<in> set xss. sorted_wrt P xs) \<and> sorted_wrt (\<lambda>xs ys. \<forall>x \<in> set xs. \<forall>y \<in> set ys. P x y) xss"
  by (induction xss) (auto simp: sorted_wrt_append)

lemma visit_order_sorted:
  "node_wf n \<Longrightarrow> sorted_wrt (\<lambda>v w. \<not> prefix (fst v) (fst w)) (visit_order n)"
proof (induction n rule: node_induct)
  case (Node k d cs)
  have keys: "sorted_wrt (\<lambda>e e'. fst e \<noteq> fst e') cs"
    using Node.prems by (simp add: node_wf.simps um_wf_def distinct_conv_nth sorted_wrt_iff_nth_less)
  have "sorted_wrt (\<lambda>v w. \<not> prefix (fst v) (fst w)) (visit_order (snd e))" if "e \<in> set cs" for e
    using Node.IH [OF that] Node.prems that by (auto simp: node_wf.simps)
  with keys show ?case
    by (auto simp: sorted_wrt_append sorted_wrt_concat sorted_wrt_map
        intro!: sorted_wrt_mono_rel [OF _ keys])
qed

lemma drop_loop_spec:
  "node_at r node \<noteq> None \<Longrightarrow>
   (case node_at r (node @ pieces CHR ''/'' key from) of
      Some m \<Rightarrow> drop_loop r key from found node parent =
        (found \<or> pieces CHR ''/'' key from \<noteq> [],
         (if pieces CHR ''/'' key from = [] then parent else node @ butlast (pieces CHR ''/'' key from)),
         Some m)
    | None \<Rightarrow> fst (drop_loop r key from found node parent) = False)"
proof (induction r key "from" found node parent rule: drop_loop.induct)
  case (1 r key "from" found node parent)
  define token where "token = getNextToken key from"
  show ?case
  proof (cases "token = []")
    case True
    then have "pieces CHR ''/'' key from = []" by (simp add: token_def getNextToken_piece)
    then show ?thesis
      using True "1.prems" by (auto simp: drop_loop.simps [of r key "from"] token_def simp del: pieces_empty_iff)
  next
    case False
    define rest where "rest = pieces CHR ''/'' key (from + length token + 1)"
    have ps: "pieces CHR ''/'' key from = token # rest"
      unfolding rest_def using False by (intro pieces_Cons) (simp_all add: token_def getNextToken_piece)
    show ?thesis
    proof (cases "node_at r (node @ [token])")
      case None
      then have "node_at r (node @ token # rest) = None"
        using node_at_append [of r "node @ [token]" rest] by simp
      with None False ps show ?thesis
        by (simp add: drop_loop.simps [of r key "from"] token_def Let_def)
    next
      case (Some m)
      then have "drop_loop r key from found node parent =
          drop_loop r key (from + length token + 1) True (node @ [token]) node"
        using False by (simp add: drop_loop.simps [of r key "from"] token_def Let_def)
      then show ?thesis
        using "1.IH" [OF token_def _ refl refl, of m] False Some ps
        by (cases "rest = []") (auto simp: rest_def split: option.splits)
    qed
  qed
qed

text \<open>The tree and the callbacks of a drop. The path a callback sees is the text of the key
  before its last slash, followed by the keys from the dropped node down.\<close>

definition drop_base :: "string \<Rightarrow> string" where
  "drop_base key = (let k = DirTree_normalize key in
     case find_last_of CHR ''/'' k of None \<Rightarrow> k | Some p \<Rightarrow> take p k)"

definition drop_calls :: "string \<Rightarrow> 'd node \<Rightarrow> (string \<times> 'd option) list" where
  "drop_calls key n =
     map (\<lambda>v. (drop_base key @ path_str (last (key_tokens key) # fst v), snd v)) (visit_order n)"

definition remove_at :: "string list \<Rightarrow> 'd node \<Rightarrow> 'd node" where
  "remove_at ks n = update_at (butlast ks) (Node_deleteChild (last ks)) n"

theorem drop_spec:
  assumes wf: "DirTree_wf t"
  shows "DirTree_drop key cbk t s =
    (case node_at (root t) (key_tokens key) of
       None \<Rightarrow> Inr (t, s)
     | Some n \<Rightarrow>
         bindR (case cbk of None \<Rightarrow> Inr s
                | Some f \<Rightarrow> foldR (\<lambda>c. f (fst c) (snd c)) (drop_calls key n) s)
           (\<lambda>s'. Inr (t\<lparr>root := remove_at (key_tokens key) (root t)\<rparr>, s')))"
proof -
  define ks where "ks = key_tokens key"
  have ks: "ks \<noteq> []" "pieces CHR ''/'' (DirTree_normalize key) 0 = ks"
    by (simp_all add: ks_def key_tokens_def [symmetric])
  note loop = drop_loop_spec [of "root t" "[]" "DirTree_normalize key" 0 False "[]", unfolded ks(2)]
  show ?thesis
  proof (cases "node_at (root t) ks")
    case None
    then have "fst (drop_loop (root t) (DirTree_normalize key) 0 False [] []) = False" using loop by simp
    with None ks show ?thesis
      unfolding DirTree_drop_def Let_def ks_def [symmetric] by (auto split: prod.splits)
  next
    case (Some n)
    have n: "node_wf n" "getKey n = last ks"
      using wf Some ks(1) node_wf_node_at [of "root t" "butlast ks" "last ks" n]
      by (simp_all add: DirTree_wf_def)
    define g where "g = (\<lambda>p d u. case cbk of None \<Rightarrow> Inr u | Some f \<Rightarrow> f (drop_base key @ p) d u)"
    have call: "dropChildCbk (DirTree_normalize key) cbk = (\<lambda>m p. g p (getData m))"
      by (cases cbk) (simp_all add: fun_eq_iff g_def dropChildCbk_def drop_base_def Let_def)
    have "Node_dropChildren (Some (dropChildCbk (DirTree_normalize key) cbk)) n s =
        (case cbk of None \<Rightarrow> Inr s | Some f \<Rightarrow> foldR (\<lambda>c. f (fst c) (snd c)) (drop_calls key n) s)"
      unfolding Node_dropChildren_def call dropChildren_visits [OF n(1)]
      using n(2)
      by (cases cbk) (simp_all add: g_def drop_calls_def foldR_map ks_def foldR_skip)
    then show ?thesis
      using loop Some ks n
      by (simp add: DirTree_drop_def DirTree_dropTree_def ks_def [symmetric] remove_at_def)
  qed
qed

lemma data_at_remove:
  "ks \<noteq> [] \<Longrightarrow> data_at (remove_at ks n) us = (if prefix ks us then None else data_at n us)"
proof (induction ks arbitrary: n us)
  case (Cons k ks)
  show ?case
  proof (cases "ks = []")
    case True
    then show ?thesis by (cases us) (auto simp: remove_at_def node_defs)
  next
    case False
    have step: "remove_at (k # ks) n = Node (getKey n) (getData n) (um_modify k (remove_at ks) (getChildren n))"
      using False by (simp add: remove_at_def [abs_def])
    show ?thesis
      using Cons.IH [OF False] by (cases us) (auto simp: step Node_getChild_def split: option.splits)
  qed
qed simp

lemma has_node_remove:
  "ks \<noteq> [] \<Longrightarrow> has_node (remove_at ks n) us \<longleftrightarrow> \<not> prefix ks us \<and> has_node n us"
proof (induction ks arbitrary: n us)
  case (Cons k ks)
  show ?case
  proof (cases "ks = []")
    case True
    then show ?thesis by (cases us) (auto simp: remove_at_def node_defs)
  next
    case False
    have step: "remove_at (k # ks) n = Node (getKey n) (getData n) (um_modify k (remove_at ks) (getChildren n))"
      using False by (simp add: remove_at_def [abs_def])
    show ?thesis
      using Cons.IH [OF False] by (cases us) (auto simp: step Node_getChild_def split: option.splits)
  qed
qed simp

lemma node_wf_remove_at: "node_wf n \<Longrightarrow> node_wf (remove_at ks n)"
  unfolding remove_at_def by (rule node_wf_update_at) (auto simp: node_wf_deleteChild, simp add: node_defs)

lemma DirTree_wf_drop: "DirTree_wf t \<Longrightarrow> DirTree_drop key cbk t s = Inr (t', s') \<Longrightarrow> DirTree_wf t'"
  by (auto simp: drop_spec bindR_Inr_iff DirTree_wf_def node_wf_remove_at split: option.splits)

section \<open>The interface: a table of paths\<close>

text \<open>What the router and the watcher rely on: a set of paths that have a node, the data stored at
  each path, and a search that prefers the node of the path itself and otherwise accepts the
  node of a star in place of the last component.\<close>

definition table_search ::
  "string list set \<Rightarrow> (string list \<Rightarrow> 'd option) \<Rightarrow> (string \<Rightarrow> string \<Rightarrow> bool) \<Rightarrow> string list \<Rightarrow> 'd option" where
  "table_search N D cbk ks =
     (if ks \<in> N then D ks
      else if butlast ks @ [''*''] \<in> N \<and> cbk ''*'' (last ks) \<and> 2 \<le> length ks
      then D (butlast ks @ [''*'']) else None)"

text \<open>A history of a table: data stored under a key, or a key dropped with everything below it (without a callback).\<close>

datatype 'd table_op = Put string "'d option" | Cut string

fun table_apply :: "'d table_op \<Rightarrow> string list set \<times> (string list \<Rightarrow> 'd option) \<Rightarrow> string list set \<times> (string list \<Rightarrow> 'd option)" where
  "table_apply (Put k d) (N, D) = (N \<union> {us. prefix us (key_tokens k)}, D(key_tokens k := d))"
| "table_apply (Cut k) (N, D) =
     (N - {us. prefix (key_tokens k) us}, \<lambda>us. if prefix (key_tokens k) us then None else D us)"

locale path_table =
  fixes ok :: "'t \<Rightarrow> bool"
    and emp :: "'t"
    and ins :: "string \<Rightarrow> 'd option \<Rightarrow> 't \<Rightarrow> 't"
    and srch :: "string \<Rightarrow> (string \<Rightarrow> string \<Rightarrow> bool) \<Rightarrow> 't \<Rightarrow> 'd option res"
    and drp :: "string \<Rightarrow> (string \<Rightarrow> 'd option \<Rightarrow> 's \<Rightarrow> 's res) option \<Rightarrow> 't \<Rightarrow> 's \<Rightarrow> ('t \<times> 's) res"
    and nodes :: "'t \<Rightarrow> string list set"
    and dat :: "'t \<Rightarrow> string list \<Rightarrow> 'd option"
  assumes ok_emp: "ok emp"
    and ok_ins: "ok t \<Longrightarrow> ok (ins k d t)"
    and ok_drp: "ok t \<Longrightarrow> drp k cbk t s = Inr (t', s') \<Longrightarrow> ok t'"
    and nodes_emp: "nodes emp = {[]}"
    and dat_emp: "dat emp ks = None"
    and nodes_ins: "nodes (ins k d t) = nodes t \<union> {us. prefix us (key_tokens k)}"
    and dat_ins: "dat (ins k d t) = (dat t)(key_tokens k := d)"
    and srch_table: "ok t \<Longrightarrow> srch k c t = Inr (table_search (nodes t) (dat t) c (key_tokens k))"
    and nodes_drp: "ok t \<Longrightarrow> drp k cbk t s = Inr (t', s') \<Longrightarrow>
          nodes t' = nodes t - {us. prefix (key_tokens k) us}"
    and dat_drp: "ok t \<Longrightarrow> drp k cbk t s = Inr (t', s') \<Longrightarrow>
          dat t' us = (if prefix (key_tokens k) us then None else dat t us)"
    and drp_null: "ok t \<Longrightarrow> \<exists>t'. drp k None t s = Inr (t', s)"
begin

lemma srch_ins_same:
  assumes "ok t" "key_tokens k = key_tokens k'"
  shows "srch k' cbk (ins k d t) = Inr d"
  using assms by (simp add: srch_table ok_ins table_search_def nodes_ins dat_ins)

lemma srch_ins_other:
  assumes "ok t" and "\<not> prefix (key_tokens k') (key_tokens k)"
    and "\<not> prefix (butlast (key_tokens k') @ [''*'']) (key_tokens k)"
  shows "srch k' cbk (ins k d t) = srch k' cbk t"
proof -
  have "key_tokens k' \<noteq> key_tokens k" "butlast (key_tokens k') @ [''*''] \<noteq> key_tokens k"
    using assms by auto
  with assms show ?thesis by (simp add: srch_table ok_ins table_search_def nodes_ins dat_ins)
qed

definition ins_all :: "(string \<times> 'd option) list \<Rightarrow> 't \<Rightarrow> 't" where
  "ins_all kds t = fold (\<lambda>e. ins (fst e) (snd e)) kds t"

lemma ok_ins_all: "ok t \<Longrightarrow> ok (ins_all kds t)"
  unfolding ins_all_def by (induction kds arbitrary: t) (auto simp: ok_ins)

lemma nodes_ins_all:
  "nodes (ins_all kds t) = nodes t \<union> {us. \<exists>e \<in> set kds. prefix us (key_tokens (fst e))}"
  unfolding ins_all_def by (induction kds arbitrary: t) (auto simp: nodes_ins)

lemma dat_ins_all:
  "dat (ins_all kds t) ks =
     (case map_of (rev (map (\<lambda>e. (key_tokens (fst e), snd e)) kds)) ks of None \<Rightarrow> dat t ks | Some d \<Rightarrow> d)"
  unfolding ins_all_def
  by (induction kds arbitrary: t) (auto simp: dat_ins map_add_def split: option.splits)

definition apply_op :: "'d table_op \<Rightarrow> 't \<times> 's \<Rightarrow> ('t \<times> 's) res" where
  "apply_op p ts = (case p of Put k d \<Rightarrow> Inr (ins k d (fst ts), snd ts) | Cut k \<Rightarrow> drp k None (fst ts) (snd ts))"

lemma apply_op_table:
  assumes "ok t"
  shows "\<exists>t'. apply_op p (t, s) = Inr (t', s) \<and> ok t' \<and> (nodes t', dat t') = table_apply p (nodes t, dat t)"
proof (cases p)
  case (Put k d)
  then show ?thesis using assms by (simp add: apply_op_def ok_ins nodes_ins dat_ins)
next
  case (Cut k)
  obtain t' where t': "drp k None t s = Inr (t', s)" using drp_null [OF assms] by blast
  then show ?thesis
    using Cut ok_drp [OF assms t'] nodes_drp [OF assms t'] dat_drp [OF assms t'] by (auto simp: apply_op_def fun_eq_iff)
qed

lemma history_table:
  assumes "ok t"
  shows "\<exists>t'. foldR apply_op ps (t, s) = Inr (t', s) \<and> ok t' \<and> (nodes t', dat t') = fold table_apply ps (nodes t, dat t)"
  using assms
proof (induction ps arbitrary: t)
  case (Cons p ps)
  obtain u where u: "apply_op p (t, s) = Inr (u, s)" "ok u" "(nodes u, dat u) = table_apply p (nodes t, dat t)"
    using apply_op_table [OF Cons.prems] by blast
  then show ?case using Cons.IH [OF u(2)] by simp
qed simp

lemma srch_after_drp:
  assumes "ok t" and "drp k cbk t s = Inr (t', s')" and "prefix (key_tokens k) (key_tokens k')"
    and "key_tokens k \<noteq> key_tokens k'"
  shows "srch k' c t' = Inr None"
proof -
  have "ok t'" using ok_drp assms by blast
  obtain vs where k': "key_tokens k' = key_tokens k @ vs" and vs: "vs \<noteq> []"
    using assms(3,4) by (auto simp: prefix_def)
  then have "prefix (key_tokens k) (butlast (key_tokens k') @ [''*''])"
    by (simp add: butlast_append prefix_def)
  then show ?thesis
    using assms \<open>ok t'\<close> by (simp add: srch_table table_search_def nodes_drp [OF assms(1,2)])
qed

end

definition DirTree_nodes :: "'d DirTree \<Rightarrow> string list set" where
  "DirTree_nodes t = {ks. has_node (root t) ks}"

definition DirTree_data :: "'d DirTree \<Rightarrow> string list \<Rightarrow> 'd option" where
  "DirTree_data t ks = data_at (root t) ks"

lemma search_table:
  assumes "DirTree_wf t"
  shows "DirTree_search key cbk t =
    Inr (table_search (DirTree_nodes t) (DirTree_data t) cbk (key_tokens key))"
proof -
  have key: "node_at (root t) (butlast ks @ [''*'']) = Some star \<Longrightarrow> getKey star = ''*''" for ks star
    using assms node_wf_node_at unfolding DirTree_wf_def by blast
  show ?thesis
    unfolding search_spec table_search_def DirTree_nodes_def DirTree_data_def has_node_def data_at_def
    using key by (auto split: option.splits)
qed

lemma no_node_below:
  "node_at n ks = None \<Longrightarrow> prefix ks us \<Longrightarrow> \<not> has_node n us \<and> data_at n us = None"
  by (auto simp: has_node_def data_at_def node_at_append prefix_def)

lemma DirTree_drop_root:
  assumes "DirTree_wf t" and "DirTree_drop k cbk t s = Inr (t', s')"
  shows "node_at (root t) (key_tokens k) = None \<and> root t' = root t \<or>
    root t' = remove_at (key_tokens k) (root t)"
  using assms by (auto simp: drop_spec bindR_Inr_iff split: option.splits)

lemma DirTree_drop_abs:
  assumes "DirTree_wf t" and "DirTree_drop k cbk t s = Inr (t', s')"
  shows "has_node (root t') us \<longleftrightarrow> \<not> prefix (key_tokens k) us \<and> has_node (root t) us"
    and "data_at (root t') us = (if prefix (key_tokens k) us then None else data_at (root t) us)"
  using DirTree_drop_root [OF assms] no_node_below [of "root t" "key_tokens k" us]
  by (auto simp: has_node_remove data_at_remove)

interpretation dt: path_table DirTree_wf DirTree_new DirTree_insert DirTree_search DirTree_drop
  DirTree_nodes DirTree_data
proof unfold_locales
  fix t t' :: "'a DirTree" and k cbk cbk' d s s' us ks
  show "DirTree_wf (DirTree_new :: 'a DirTree)" by simp
  show "DirTree_wf t \<Longrightarrow> DirTree_wf (DirTree_insert k d t)" by (rule DirTree_wf_insert)
  show "DirTree_wf t \<Longrightarrow> DirTree_drop k cbk t (s :: 'b) = Inr (t', s') \<Longrightarrow> DirTree_wf t'"
    by (rule DirTree_wf_drop)
  show "DirTree_nodes (DirTree_new :: 'a DirTree) = {[]}"
    by (auto simp: DirTree_nodes_def DirTree_new_def Node_new_def Node_setKey_def)
  show "DirTree_data (DirTree_new :: 'a DirTree) ks = None"
    by (simp add: DirTree_data_def DirTree_new_def Node_new_def Node_setKey_def)
  show "DirTree_nodes (DirTree_insert k d t) = DirTree_nodes t \<union> {us. prefix us (key_tokens k)}"
    by (auto simp: DirTree_nodes_def insert_grow has_node_grow)
  show "DirTree_data (DirTree_insert k d t) = (DirTree_data t)(key_tokens k := d)"
    by (auto simp: DirTree_data_def insert_grow data_at_grow)
  show "DirTree_wf t \<Longrightarrow> DirTree_search k cbk' t =
      Inr (table_search (DirTree_nodes t) (DirTree_data t) cbk' (key_tokens k))"
    by (rule search_table)
  show "DirTree_wf t \<Longrightarrow> DirTree_drop k cbk t (s :: 'b) = Inr (t', s') \<Longrightarrow>
      DirTree_nodes t' = DirTree_nodes t - {us. prefix (key_tokens k) us}"
    by (auto simp: DirTree_nodes_def DirTree_drop_abs)
  show "DirTree_wf t \<Longrightarrow> DirTree_drop k cbk t (s :: 'b) = Inr (t', s') \<Longrightarrow>
      DirTree_data t' us = (if prefix (key_tokens k) us then None else DirTree_data t us)"
    by (auto simp: DirTree_data_def DirTree_drop_abs)
  show "DirTree_wf t \<Longrightarrow> \<exists>t'. DirTree_drop k None t (s :: 'b) = Inr (t', s)"
    by (auto simp: drop_spec split: option.splits)
qed

section \<open>Paths reported by a drop\<close>

text \<open>A key is clean when its normal form is its tokens joined by slashes: no empty component and no
  slash at the end.\<close>

definition clean_key :: "string \<Rightarrow> bool" where
  "clean_key key \<longleftrightarrow> path_str (key_tokens key) = CHR ''/'' # DirTree_normalize key"

lemma drop_base_clean:
  assumes "clean_key key" and "2 \<le> length (key_tokens key)"
  shows "drop_base key @ path_str (last (key_tokens key) # us) = DirTree_normalize key @ path_str us"
proof -
  obtain ts l where ts: "key_tokens key = ts @ [l]"
    by (cases "key_tokens key" rule: rev_cases) auto
  then obtain t ts' where t: "ts = t # ts'" using assms(2) by (cases ts) auto
  have l: "CHR ''/'' \<notin> set l" using key_tokens_valid [of l key] ts by simp
  have norm: "DirTree_normalize key = (t @ path_str ts') @ CHR ''/'' # l"
    using assms(1) ts t by (simp add: clean_key_def)
  then have "find_last_of CHR ''/'' (DirTree_normalize key) = Some (length (t @ path_str ts'))"
    using find_last_of_append [OF l] by metis
  then have "drop_base key = t @ path_str ts'"
    by (simp add: drop_base_def norm)
  with norm ts show ?thesis by simp
qed

section \<open>Printing\<close>

lemma strncat_count_le: "strncat_count i \<le> 2"
  by (simp add: strncat_count_def)

lemma print_indent_le: "print_indent depth \<le> 2 * (depth + 1)"
proof -
  have "sum_list (map strncat_count xs) \<le> 2 * length xs" for xs
    by (induction xs) (auto intro: order.trans [OF add_mono [OF strncat_count_le]])
  from this [of "[0..<min (depth + 1) 1024]"] show ?thesis
    by (simp add: print_indent_def)
qed

fun node_height :: "'d node \<Rightarrow> nat" where
  "node_height (Node k d cs) = foldr (\<lambda>e. max (Suc (node_height (snd e)))) cs 0"

lemma node_height_child: "e \<in> set cs \<Longrightarrow> node_height (snd e) < node_height (Node k d cs)"
  by (induction cs) auto

lemma print_node_ok:
  "depth + node_height n \<le> 509 \<Longrightarrow>
   \<exists>lines. print_node depth n out = Inr (out @ lines) \<and> length lines = length (visit_order n)"
proof (induction n arbitrary: depth out rule: node_induct)
  case (Node k d cs)
  have fits: "\<not> 1024 < print_indent (depth + 1) + 1"
    using print_indent_le [of "depth + 1"] Node.prems by simp
  have child: "\<exists>lines. print_node (depth + 1) (snd e) o' = Inr (o' @ lines) \<and>
      length lines = length (visit_order (snd e))" if "e \<in> set cs" for e o'
    using Node.IH [OF that, of "depth + 1"] Node.prems node_height_child [OF that, of k d] by simp
  have kids: "\<exists>lines. foldR (\<lambda>e. print_node (depth + 1) (snd e)) es o' = Inr (o' @ lines) \<and>
      length lines = length (concat (map (\<lambda>e. visit_order (snd e)) es))" if "set es \<subseteq> set cs" for es o'
    using that
  proof (induction es arbitrary: o')
    case (Cons e es)
    then obtain l1 where l1: "print_node (depth + 1) (snd e) o' = Inr (o' @ l1)"
      "length l1 = length (visit_order (snd e))" using child [of e o'] by auto
    obtain l2 where "foldR (\<lambda>e. print_node (depth + 1) (snd e)) es (o' @ l1) = Inr ((o' @ l1) @ l2)"
      "length l2 = length (concat (map (\<lambda>e. visit_order (snd e)) es))"
      using Cons.IH [of "o' @ l1"] Cons.prems by auto
    with l1 show ?case by (intro exI [of _ "l1 @ l2"]) simp
  qed simp
  have len: "length (concat (map (\<lambda>e. map (\<lambda>v. (fst e # fst v, snd v)) (visit_order (snd e))) cs)) =
      length (concat (map (\<lambda>e. visit_order (snd e)) cs))"
    by (simp add: length_concat comp_def)
  define line where "line = replicate (print_indent (depth + 1)) CHR '' '' @ k"
  obtain lines where "foldR (\<lambda>e. print_node (depth + 1) (snd e)) cs (out @ [line]) = Inr ((out @ [line]) @ lines)"
    "length lines = length (concat (map (\<lambda>e. visit_order (snd e)) cs))"
    using kids [of cs "out @ [line]"] by auto
  then show ?case
    using fits len by (intro exI [of _ "line # lines"]) (simp add: Let_def line_def)
qed

section \<open>Properties\<close>

text \<open>C30: The tokens that every loop of the tree (insert, search, hasChildren, drop) sees for a key
  are the non-empty pieces of the normalised key up to the first empty one: splitting at the
  slashes and stopping at the first double or trailing slash.\<close>

theorem DirTree_tokens_split:
  "key_tokens key = takeWhile (\<lambda>p. p \<noteq> []) (split_at CHR ''/'' (DirTree_normalize key)) \<and>
   key_tokens key \<noteq> [] \<and> (\<forall>cbk n. search_loop cbk (DirTree_normalize key) 0 False n = look cbk False (key_tokens key) n)"
  by (simp add: key_tokens_def [symmetric] search_loop_look) (simp add: key_tokens_def pieces_split_at)

definition DirTree_apply :: "'d table_op \<Rightarrow> 'd DirTree \<times> 's \<Rightarrow> ('d DirTree \<times> 's) res" where
  "DirTree_apply p ts =
     (case p of Put k d \<Rightarrow> Inr (DirTree_insert k d (fst ts), snd ts) | Cut k \<Rightarrow> DirTree_drop k None (fst ts) (snd ts))"

text \<open>C5: Over its whole life a tree stays well formed and is the table of its history: for every sequence of insertions and
  drops on a new tree no operation faults, the resulting tree is well formed, its nodes and data are those of the table,
  and every search on it answers from the table.\<close>

theorem DirTree_history:
  "\<exists>t. foldR DirTree_apply ps (DirTree_new, s) = Inr (t, s) \<and> DirTree_wf t
     \<and> (DirTree_nodes t, DirTree_data t) = fold table_apply ps ({[]}, \<lambda>_. None)
     \<and> (\<forall>key cbk. DirTree_search key cbk t
          = Inr (case fold table_apply ps ({[]}, \<lambda>_. None) of (N, D) \<Rightarrow> table_search N D cbk (key_tokens key)))"
proof -
  have step: "DirTree_apply = dt.apply_op" by (intro ext) (simp add: DirTree_apply_def dt.apply_op_def)
  have new: "(DirTree_nodes DirTree_new, DirTree_data DirTree_new) = ({[]}, \<lambda>_. None)"
    by (simp add: dt.nodes_emp fun_eq_iff dt.dat_emp)
  obtain t where t: "foldR DirTree_apply ps (DirTree_new, s) = Inr (t, s)" "DirTree_wf t"
      "(DirTree_nodes t, DirTree_data t) = fold table_apply ps ({[]}, \<lambda>_. None)"
    using dt.history_table [OF dt.ok_emp, of ps s] unfolding step new by blast
  then show ?thesis using dt.srch_table [OF t(2)] by (metis (no_types, lifting) prod.case)
qed



text \<open>After a sequence of insertions into a new tree, a search for a key that was inserted returns
  the data of the last insertion whose key has the same tokens; the keys may be written
  differently (with or without a leading slash or dot).\<close>

theorem DirTree_search_last_insert:
  assumes "key_tokens key' = key_tokens key"
    and "\<forall>e \<in> set later. key_tokens (fst e) \<noteq> key_tokens key"
  shows "DirTree_search key' cbk
    (fold (\<lambda>e. DirTree_insert (fst e) (snd e)) (earlier @ (key, d) # later) DirTree_new) = Inr d"
proof -
  let ?kds = "earlier @ (key, d) # later"
  let ?t = "fold (\<lambda>e. DirTree_insert (fst e) (snd e)) ?kds DirTree_new"
  have t: "?t = dt.ins_all ?kds DirTree_new" by (simp only: dt.ins_all_def)
  have wf: "DirTree_wf ?t" unfolding t by (rule dt.ok_ins_all) simp
  have none: "map_of (rev (map (\<lambda>e. (key_tokens (fst e), snd e)) later)) (key_tokens key) = None"
    using assms(2) by (auto simp: map_of_eq_None_iff)
  have "DirTree_data ?t (key_tokens key') = d"
    unfolding t dt.dat_ins_all using none assms(1) by (simp add: map_add_def)
  moreover have "key_tokens key' \<in> DirTree_nodes ?t"
    unfolding t dt.nodes_ins_all using assms(1) by auto
  ultimately show ?thesis
    unfolding dt.srch_table [OF wf] table_search_def by simp
qed

theorem DirTree_search_last_insert_witness:
  "DirTree_search ''./x/y'' (\<lambda>_ _. False)
     (fold (\<lambda>e. DirTree_insert (fst e) (snd e)) ([(''x/y'', Some (1::nat))] @ (''/x/y'', Some 2) # [(''x'', None)])
       DirTree_new) = Inr (Some 2)"
  by (rule DirTree_search_last_insert)
     (simp_all add: key_tokens_def DirTree_normalize_def str_front_def pieces_split_at)

text \<open>\<open>hasChildren\<close> answers for every key that has a node, whether the node has children; for every
  other key it calls a member function through a null pointer. It never loops forever.\<close>

theorem DirTree_hasChildren_branches:
  "DirTree_hasChildren key t =
     (if key_tokens key \<in> DirTree_nodes t
      then Inr (\<exists>k. key_tokens key @ [k] \<in> DirTree_nodes t)
      else Inl UB_null_deref)"
proof (cases "node_at (root t) (key_tokens key)")
  case None
  then show ?thesis by (simp add: hasChildren_spec DirTree_nodes_def has_node_def)
next
  case (Some n)
  have "(\<exists>k. has_node (root t) (key_tokens key @ [k])) \<longleftrightarrow> getChildren n \<noteq> []"
    using Some by (cases "getChildren n")
      (auto simp: has_node_def node_at_snoc Node_getChild_def um_find_def split: if_splits)
  with Some show ?thesis by (simp add: hasChildren_spec DirTree_nodes_def has_node_def)
qed

text \<open>C21: A drop of a key that has a node calls back exactly once on every node at or below it, with
  that node's data, never on a node after one of its ancestors (children first), and leaves a
  well-formed tree with exactly the paths that do not start with the key's.\<close>

theorem DirTree_drop_visits_subtree:
  assumes "DirTree_wf t" and "node_at (root t) (key_tokens key) = Some n"
  shows "\<exists>t'. DirTree_drop key (Some (\<lambda>p d s. Inr (s @ [(p, d)]))) t [] = Inr (t', drop_calls key n) \<and>
      DirTree_wf t' \<and>
      DirTree_nodes t' = DirTree_nodes t - {us. prefix (key_tokens key) us} \<and>
      sorted_wrt (\<lambda>v w. \<not> prefix (fst v) (fst w)) (visit_order n) \<and>
      (\<forall>us d. (us, d) \<in> set (visit_order n) \<longleftrightarrow>
         (\<exists>m. node_at (root t) (key_tokens key @ us) = Some m \<and> getData m = d))"
proof -
  let ?f = "\<lambda>p d s. Inr (s @ [(p, d)])"
  let ?t = "t\<lparr>root := remove_at (key_tokens key) (root t)\<rparr>"
  have wfn: "node_wf n"
    using assms node_wf_node_at [of "root t" "butlast (key_tokens key)" "last (key_tokens key)" n]
    by (simp add: DirTree_wf_def)
  have run: "DirTree_drop key (Some ?f) t [] = Inr (?t, drop_calls key n)"
    using assms by (simp add: drop_spec foldR_log)
  moreover have "DirTree_wf ?t" by (rule dt.ok_drp [OF assms(1) run])
  moreover have "DirTree_nodes ?t = DirTree_nodes t - {us. prefix (key_tokens key) us}"
    by (rule dt.nodes_drp [OF assms(1) run])
  moreover have "sorted_wrt (\<lambda>v w. \<not> prefix (fst v) (fst w)) (visit_order n)"
    by (rule visit_order_sorted [OF wfn])
  ultimately show ?thesis
    using visit_order_iff [OF wfn] assms(2) by (intro exI [of _ ?t]) (simp add: node_at_append)
qed

definition sample_tree :: "nat DirTree" where
  "sample_tree = \<lparr>root = Node ''root'' None [(''.'', Node ''.'' None
     [(''a'', Node ''a'' (Some 1) [(''b'', Node ''b'' (Some 2) [])])])]\<rparr>"

lemma sample_tree_wf: "DirTree_wf sample_tree"
  by (simp add: sample_tree_def DirTree_wf_def node_wf.simps um_wf_def)

lemma sample_tree_node:
  "node_at (root sample_tree) (key_tokens ''/a'') = Some (Node ''a'' (Some 1) [(''b'', Node ''b'' (Some 2) [])])"
  by (simp add: sample_tree_def key_tokens_def DirTree_normalize_def str_front_def pieces_split_at
      Node_getChild_def um_find_def)

theorem DirTree_drop_visits_subtree_witness:
  "\<exists>t'. DirTree_drop ''/a'' (Some (\<lambda>p d s. Inr (s @ [(p, d)]))) sample_tree [] =
     Inr (t', [(''./a/b'', Some 2), (''./a'', Some 1)])"
proof -
  have "drop_calls ''/a'' (Node ''a'' (Some 1) [(''b'', Node ''b'' (Some (2::nat)) [])]) =
      [(''./a/b'', Some 2), (''./a'', Some 1)]"
    by (simp add: drop_calls_def drop_base_def key_tokens_def DirTree_normalize_def str_front_def pieces_split_at)
  then show ?thesis
    using DirTree_drop_visits_subtree [OF sample_tree_wf sample_tree_node] by auto
qed

text \<open>For a clean key of at least two components, the paths a drop reports are the normalised key
  followed by the keys below it: what was inserted under such a key is reported under the
  normal form of the key it was inserted with.\<close>

theorem DirTree_drop_reports_paths:
  assumes "DirTree_wf t" and "node_at (root t) (key_tokens key) = Some n"
    and "clean_key key" and "2 \<le> length (key_tokens key)"
  shows "\<exists>t'. DirTree_drop key (Some (\<lambda>p d s. Inr (s @ [(p, d)]))) t [] =
    Inr (t', map (\<lambda>v. (DirTree_normalize key @ path_str (fst v), snd v)) (visit_order n))"
  using assms by (simp add: drop_spec foldR_log drop_calls_def drop_base_clean del: path_str_simps)

theorem DirTree_drop_reports_paths_witness:
  "\<exists>t'. DirTree_drop ''/a'' (Some (\<lambda>p d s. Inr (s @ [(p, d)]))) sample_tree [] =
     Inr (t', [(''./a/b'', Some 2), (''./a'', Some 1)])"
proof -
  have "clean_key ''/a''" "2 \<le> length (key_tokens ''/a'')"
    by (simp_all add: clean_key_def key_tokens_def DirTree_normalize_def str_front_def pieces_split_at)
  from DirTree_drop_reports_paths [OF sample_tree_wf sample_tree_node this] show ?thesis
    by (simp add: DirTree_normalize_def str_front_def)
qed

text \<open>C31: \<open>print\<close> writes one line per node and stays inside its format buffer for every tree at most
  509 levels deep.\<close>

theorem DirTree_print_safe:
  assumes "node_height (root t) \<le> 509"
  shows "\<exists>lines. DirTree_print t = Inr (lines @ [[]]) \<and> length lines = length (visit_order (root t))"
  using print_node_ok [of 0 "root t" "[]"] assms by (auto simp: DirTree_print_def)

theorem DirTree_print_safe_witness:
  "\<exists>lines. DirTree_print sample_tree = Inr (lines @ [[]]) \<and> length lines = 4"
proof -
  have "node_height (root sample_tree) \<le> 509" by (simp add: sample_tree_def)
  from DirTree_print_safe [OF this] show ?thesis by (simp add: sample_tree_def eval_nat_numeral)
qed

end
