(* ===== verification/Base64.thy ===== *)
theory Base64
  imports CxxPrelude
begin

text \<open>
  \<open>src/base64.cpp\<close>: the encoder and the decoder, statement by statement over the working
  arrays \<open>char_array_3\<close> and \<open>char_array_4\<close>. The arrays are not initialised in the source,
  so the model takes their initial contents as arguments and the properties hold for all
  of them: no uninitialised byte reaches the output. Arithmetic on \<open>unsigned char\<close> is
  arithmetic on 8-bit words (the promotion to \<open>int\<close> and the conversion back keep the low
  eight bits, which is all the word operations keep).
\<close>

unbundle bit_operations_syntax

section \<open>The code\<close>

definition base64_chars :: string where
  "base64_chars = ''ABCDEFGHIJKLMNOPQRSTUVWXYZabcdefghijklmnopqrstuvwxyz0123456789+/''"

text \<open>\<open>isalnum\<close> in the C locale.\<close>

definition isalnum :: "char \<Rightarrow> bool" where
  "isalnum c \<longleftrightarrow> (let n = of_char c :: nat in
     48 \<le> n \<and> n \<le> 57 \<or> 65 \<le> n \<and> n \<le> 90 \<or> 97 \<le> n \<and> n \<le> 122)"

definition is_base64 :: "char \<Rightarrow> bool" where
  "is_base64 c \<longleftrightarrow> isalnum c \<or> c = CHR ''+'' \<or> c = CHR ''/''"

definition encode_0 :: "u8 list \<Rightarrow> u8" where
  "encode_0 a3 = drop_bit 2 (a3 ! 0 AND 0xfc)"

definition encode_1 :: "u8 list \<Rightarrow> u8" where
  "encode_1 a3 = push_bit 4 (a3 ! 0 AND 0x03) + drop_bit 4 (a3 ! 1 AND 0xf0)"

definition encode_2 :: "u8 list \<Rightarrow> u8" where
  "encode_2 a3 = push_bit 2 (a3 ! 1 AND 0x0f) + drop_bit 6 (a3 ! 2 AND 0xc0)"

definition encode_3 :: "u8 list \<Rightarrow> u8" where
  "encode_3 a3 = a3 ! 2 AND 0x3f"

definition base64_char :: "u8 \<Rightarrow> char" where
  "base64_char x = base64_chars ! unat x"

fun encode_loop :: "u8 list \<Rightarrow> nat \<Rightarrow> u8 list \<Rightarrow> string \<Rightarrow> nat \<times> u8 list \<times> string" where
  "encode_loop [] i a3 ret = (i, a3, ret)"
| "encode_loop (b # bytes) i a3 ret =
     (let a3' = a3[i := b]; i' = i + 1 in
      if i' = 3
      then encode_loop bytes 0 a3' (ret @ map base64_char [encode_0 a3', encode_1 a3', encode_2 a3', encode_3 a3'])
      else encode_loop bytes i' a3' ret)"

function clear_from :: "nat \<Rightarrow> u8 list \<Rightarrow> u8 list" where
  "clear_from j a3 = (if j < 3 then clear_from (j + 1) (a3[j := 0]) else a3)"
  by pat_completeness auto
termination
  by (relation "measure (\<lambda>(j, a3). 3 - j)") auto

declare clear_from.simps [simp del]

text \<open>The bytes are the \<open>in_len\<close> bytes at \<open>bytes_to_encode\<close>; \<open>a3\<close> is the uninitialised array.\<close>

definition encode_tail :: "nat \<times> u8 list \<times> string \<Rightarrow> string" where
  "encode_tail st =
     (case st of (i, a3, ret) \<Rightarrow>
        if i \<noteq> 0 then
          (let a3' = clear_from i a3;
               a4 = [encode_0 a3', encode_1 a3', encode_2 a3']
           in ret @ map base64_char (take (i + 1) a4) @ replicate (3 - i) CHR ''='')
        else ret)"

definition base64_encode :: "u8 list \<Rightarrow> u8 list \<Rightarrow> string" where
  "base64_encode a3_init bytes = encode_tail (encode_loop bytes 0 a3_init [])"

text \<open>\<open>base64_chars.find(c)\<close> converted to \<open>unsigned char\<close>: \<open>npos\<close> becomes 255.\<close>

definition base64_index :: "u8 \<Rightarrow> u8" where
  "base64_index x =
     (case find_char (char_of (unat x)) base64_chars of None \<Rightarrow> 255 | Some p \<Rightarrow> word_of_nat p)"

definition decode_0 :: "u8 list \<Rightarrow> u8" where
  "decode_0 a4 = push_bit 2 (a4 ! 0) + drop_bit 4 (a4 ! 1 AND 0x30)"

definition decode_1 :: "u8 list \<Rightarrow> u8" where
  "decode_1 a4 = push_bit 4 (a4 ! 1 AND 0xf) + drop_bit 2 (a4 ! 2 AND 0x3c)"

definition decode_2 :: "u8 list \<Rightarrow> u8" where
  "decode_2 a4 = push_bit 6 (a4 ! 2 AND 0x3) + a4 ! 3"

definition byte_char :: "u8 \<Rightarrow> char" where
  "byte_char x = char_of (unat x)"

definition char_byte :: "char \<Rightarrow> u8" where
  "char_byte c = word_of_nat (of_char c)"

fun decode_loop :: "string \<Rightarrow> nat \<Rightarrow> u8 list \<Rightarrow> string \<Rightarrow> nat \<times> u8 list \<times> string" where
  "decode_loop [] i a4 ret = (i, a4, ret)"
| "decode_loop (c # cs) i a4 ret =
     (if c \<noteq> CHR ''='' \<and> is_base64 c then
        (let a4' = a4[i := char_byte c]; i' = i + 1 in
         if i' = 4 then
           (let a4'' = map base64_index a4' in
            decode_loop cs 0 a4'' (ret @ map byte_char [decode_0 a4'', decode_1 a4'', decode_2 a4'']))
         else decode_loop cs i' a4' ret)
      else (i, a4, ret))"

definition decode_tail :: "nat \<times> u8 list \<times> string \<Rightarrow> string" where
  "decode_tail st =
     (case st of (i, a4, ret) \<Rightarrow>
        if i \<noteq> 0 then
          (let a4' = map base64_index (take i a4) @ drop i a4;
               a3 = [decode_0 a4', decode_1 a4']
           in ret @ map byte_char (take (i - 1) a3))
        else ret)"

definition base64_decode :: "u8 list \<Rightarrow> string \<Rightarrow> string" where
  "base64_decode a4_init encoded_string = decode_tail (decode_loop encoded_string 0 a4_init [])"

section \<open>Bit arithmetic\<close>

lemma nat_and_mask: "(n :: nat) AND mask k = n mod 2 ^ k"
  by (metis take_bit_eq_mask take_bit_eq_mod)

lemma unat_and_mask: "unat (x AND 3 :: u8) = unat x mod 4" "unat (x AND 15 :: u8) = unat x mod 16"
  "unat (x AND 63 :: u8) = unat x mod 64"
  using nat_and_mask [of "unat x" 2] nat_and_mask [of "unat x" 4] nat_and_mask [of "unat x" 6]
  by (simp_all add: unsigned_and_eq mask_eq_exp_minus_1)

lemma unat_drop: "unat (drop_bit 2 (x :: u8)) = unat x div 4" "unat (drop_bit 4 (x :: u8)) = unat x div 16"
  "unat (drop_bit 6 (x :: u8)) = unat x div 64"
  by (simp_all add: drop_bit_eq_div unat_div)

lemma unat_u8_lt: "unat (x :: u8) < 256"
  using unsigned_less [of x, where 'a = nat] by simp

lemma unat_u8_mult: "unat (x * y :: u8) = (unat x * unat y) mod 256"
  by (simp add: unat_word_ariths)

lemma u8_fields:
  "unat (drop_bit 2 (x AND 0xfc) :: u8) = unat x div 4"
  "unat (push_bit 4 (x AND 0x03) :: u8) = (unat x mod 4) * 16"
  "unat (drop_bit 4 (x AND 0xf0) :: u8) = unat x div 16"
  "unat (push_bit 2 (x AND 0x0f) :: u8) = (unat x mod 16) * 4"
  "unat (drop_bit 6 (x AND 0xc0) :: u8) = unat x div 64"
proof -
  have "unat x div 4 < 64" "unat x div 16 < 16" "unat x div 64 < 4" using unat_u8_lt [of x] by auto
  then show "unat (drop_bit 2 (x AND 0xfc) :: u8) = unat x div 4"
    "unat (drop_bit 4 (x AND 0xf0) :: u8) = unat x div 16" 
    "unat (drop_bit 6 (x AND 0xc0) :: u8) = unat x div 64"
    by (simp_all add: unat_and_mask unat_drop)
  show "unat (push_bit 4 (x AND 0x03) :: u8) = (unat x mod 4) * 16"
    "unat (push_bit 2 (x AND 0x0f) :: u8) = (unat x mod 16) * 4"
    by (simp_all add: push_bit_eq_mult unat_u8_mult unat_and_mask del: push_bit_and)
qed

lemma u8_unfields:
  "unat (push_bit 2 x :: u8) = (unat x * 4) mod 256"
  "unat (drop_bit 4 (x AND 0x30) :: u8) = (unat x div 16) mod 4"
  "unat (push_bit 4 (x AND 0xf) :: u8) = (unat x mod 16) * 16"
  "unat (drop_bit 2 (x AND 0x3c) :: u8) = (unat x div 4) mod 16"
  "unat (push_bit 6 (x AND 0x3) :: u8) = (unat x mod 4) * 64"
  by (simp_all add: push_bit_eq_mult unat_u8_mult unat_and_mask unat_drop mult.commute del: push_bit_and)

lemma join_byte_0: "(a :: nat) < 256 \<Longrightarrow> b < 256 \<Longrightarrow>
  ((a div 4 * 4) mod 256 + ((a mod 4) * 16 + b div 16) div 16 mod 4) mod 256 = a"
proof -
  assume a: "a < 256" "b < 256"
  then have "b div 16 < 16" by auto
  then have "((a mod 4) * 16 + b div 16) div 16 = a mod 4" by simp
  moreover have "a div 4 * 4 + a mod 4 = a" by (rule div_mult_mod_eq)
  ultimately show ?thesis using a by simp
qed

lemma join_byte_1: "(a :: nat) < 256 \<Longrightarrow> b < 256 \<Longrightarrow> c < 256 \<Longrightarrow>
  (((a mod 4) * 16 + b div 16) mod 16 * 16 + ((b mod 16)*4 + c div 64) div 4 mod 16) mod 256 = b"
proof -
  assume a: "a < 256" "b < 256" "c < 256"
  then have "b div 16 < 16" "c div 64 < 4" by auto
  then have "((a mod 4) * 16 + b div 16) mod 16 = b div 16" "((b mod 16)*4 + c div 64) div 4 = b mod 16" by simp_all
  moreover have "b div 16 * 16 + b mod 16 = b" by (rule div_mult_mod_eq)
  ultimately show ?thesis using a by simp
qed

lemma join_byte_2: "b < 256 \<Longrightarrow> (c :: nat) < 256 \<Longrightarrow>
  (((b mod 16)*4 + c div 64) mod 4 * 64 + c mod 64) mod 256 = c"
proof -
  assume a:  "b < 256" "c < 256"
  then have "c div 64 < 4" by auto
  then have "((b mod 16)*4 + c div 64) mod 4 = c div 64" by simp
  moreover have "c div 64 * 64 + c mod 64 = c" by (rule div_mult_mod_eq)
  ultimately show ?thesis using a by simp
qed

lemma unat_u8_add: "unat (x + y :: u8) = (unat x + unat y) mod 256"
  by (simp add: unat_word_ariths)

lemma unat_encode:
  "unat (encode_0 a3) = unat (a3 ! 0) div 4"
  "unat (encode_1 a3) = (unat (a3 ! 0) mod 4) * 16 + unat (a3 ! 1) div 16"
  "unat (encode_2 a3) = (unat (a3 ! 1) mod 16) * 4 + unat (a3 ! 2) div 64"
  "unat (encode_3 a3) = unat (a3 ! 2) mod 64"
proof -
  have "unat (a3 ! 1) div 16 < 16" "unat (a3 ! 2) div 64 < 4"
    using unat_u8_lt [of "a3 ! 1"] unat_u8_lt [of "a3 ! 2"] by auto
  then show "unat (encode_1 a3) = (unat (a3 ! 0) mod 4) * 16 + unat (a3 ! 1) div 16"
    "unat (encode_2 a3) = (unat (a3 ! 1) mod 16) * 4 + unat (a3 ! 2) div 64"
    unfolding encode_1_def encode_2_def unat_u8_add u8_fields by (auto intro!: mod_less)
  show "unat (encode_0 a3) = unat (a3 ! 0) div 4" "unat (encode_3 a3) = unat (a3 ! 2) mod 64"
    unfolding encode_0_def encode_3_def u8_fields unat_and_mask by simp_all
qed

lemma encode_bound:
  "unat (encode_0 a3) < 64" "unat (encode_1 a3) < 64" "unat (encode_2 a3) < 64" "unat (encode_3 a3) < 64"
proof -
  have "unat (a3 ! 0) div 4 < 64" "unat (a3 ! 1) div 16 < 16" "unat (a3 ! 2) div 64 < 4"
    "unat (a3 ! 0) mod 4 < 4" "unat (a3 ! 1) mod 16 < 16"
    using unat_u8_lt [of "a3 ! 0"] unat_u8_lt [of "a3 ! 1"] unat_u8_lt [of "a3 ! 2"] by auto
  then show "unat (encode_0 a3) < 64" "unat (encode_1 a3) < 64" "unat (encode_2 a3) < 64" "unat (encode_3 a3) < 64"
    unfolding unat_encode by linarith+
qed

lemma decode_encode_bytes:
  assumes "a4 ! 0 = encode_0 a3" and "a4 ! 1 = encode_1 a3"
  shows "decode_0 a4 = a3 ! 0"
    and "a4 ! 2 = encode_2 a3 \<Longrightarrow> decode_1 a4 = a3 ! 1"
    and "a4 ! 2 = encode_2 a3 \<Longrightarrow> a4 ! 3 = encode_3 a3 \<Longrightarrow> decode_2 a4 = a3 ! 2"
  unfolding word_unat_eq_iff decode_0_def decode_1_def decode_2_def unat_u8_add u8_unfields
  using assms by (simp_all only: unat_encode join_byte_0 join_byte_1 join_byte_2 unat_u8_lt)

section \<open>The alphabet\<close>

lemma find_char_nth: "distinct s \<Longrightarrow> k < length s \<Longrightarrow> find_char (s ! k) s = Some k"
proof (induction s arbitrary: k)
  case (Cons c s)
  then show ?case by (cases k) (auto simp: nth_mem)
qed simp

lemma base64_chars_facts: "distinct base64_chars" "length base64_chars = 64"
  "\<forall>c \<in> set base64_chars. is_base64 c \<and> c \<noteq> CHR ''=''"
  unfolding base64_chars_def by (simp, simp, simp add: is_base64_def isalnum_def)

lemma byte_char_byte: "char_of (unat (char_byte c)) = c"
  by (simp add: char_byte_def unat_of_nat of_char_mod_256)

lemma char_byte_byte: "char_byte (byte_char x) = x"
  using unat_u8_lt [of x] by (simp add: char_byte_def byte_char_def)

lemma base64_index_char: "unat x < 64 \<Longrightarrow> base64_index (char_byte (base64_char x)) = x"
  by (simp add: base64_index_def byte_char_byte base64_char_def find_char_nth base64_chars_facts)

lemma base64_char_valid: "unat x < 64 \<Longrightarrow> is_base64 (base64_char x) \<and> base64_char x \<noteq> CHR ''=''"
  using base64_chars_facts by (simp add: base64_char_def)

section \<open>Group by group\<close>

definition quad :: "u8 \<Rightarrow> u8 \<Rightarrow> u8 \<Rightarrow> u8 list" where
  "quad a b c = [encode_0 [a, b, c], encode_1 [a, b, c], encode_2 [a, b, c], encode_3 [a, b, c]]"

fun enc_ref :: "u8 list \<Rightarrow> string" where
  "enc_ref [] = []"
| "enc_ref [a] = map base64_char (take 2 (quad a 0 0)) @ ''==''"
| "enc_ref [a, b] = map base64_char (take 3 (quad a b 0)) @ ''=''"
| "enc_ref (a # b # c # bytes) = map base64_char (quad a b c) @ enc_ref bytes"

lemma clear_from_1: "clear_from 1 [a, b, c] = [a, 0, 0]"
  and clear_from_2: "clear_from 2 [a, b, c] = [a, b, 0]"
  and clear_from_2': "clear_from (Suc (Suc 0)) [a, b, c] = [a, b, 0]"
  by (simp_all add: clear_from.simps)

lemma length_3E: "length xs = 3 \<Longrightarrow> (\<And>x y z. xs = [x, y, z] \<Longrightarrow> P) \<Longrightarrow> P"
  by (auto simp: numeral_3_eq_3 length_Suc_conv)

lemma length_4E: "length xs = 4 \<Longrightarrow> (\<And>w x y z. xs = [w, x, y, z] \<Longrightarrow> P) \<Longrightarrow> P"
  by (auto simp: eval_nat_numeral length_Suc_conv)

lemma encode_loop_ref:
  "length a3 = 3 \<Longrightarrow> encode_tail (encode_loop bytes 0 a3 ret) = ret @ enc_ref bytes"
proof (induction bytes arbitrary: a3 ret rule: enc_ref.induct)
  case 1
  then show ?case by (simp add: encode_tail_def)
next
  case (2 a)
  then show ?case
    by (elim length_3E) (simp add: encode_tail_def clear_from_1 [simplified] quad_def numeral_2_eq_2 Let_def)
next
  case (3 a b)
  then show ?case
    by (elim length_3E) (simp add: encode_tail_def clear_from_2' quad_def numeral_2_eq_2 numeral_3_eq_3 Let_def)
next
  case (4 a b c bytes)
  then show ?case
    by (elim length_3E) (simp add: quad_def Let_def numeral_2_eq_2)
qed

lemma decode_loop_quad:
  assumes "length a4 = 4" and "\<forall>x \<in> {w, x, y, z}. unat x < 64"
  shows "decode_loop (map base64_char [w, x, y, z] @ cs) 0 a4 ret =
    decode_loop cs 0 [w, x, y, z]
      (ret @ map byte_char [decode_0 [w, x, y, z], decode_1 [w, x, y, z], decode_2 [w, x, y, z]])"
  using assms
  by (elim length_4E) (simp add: base64_char_valid base64_index_char Let_def numeral_2_eq_2 numeral_3_eq_3)

lemma decode_loop_ref:
  "length a4 = 4 \<Longrightarrow> decode_tail (decode_loop (enc_ref bytes) 0 a4 ret) = ret @ map byte_char bytes"
proof (induction bytes arbitrary: a4 ret rule: enc_ref.induct)
  case 1
  then show ?case by (simp add: decode_tail_def)
next
  case (2 a)
  have "decode_0 (encode_0 [a, 0, 0] # encode_1 [a, 0, 0] # r) = a" for r
    using decode_encode_bytes(1) [of "encode_0 [a, 0, 0] # encode_1 [a, 0, 0] # r" "[a, 0, 0]"] by simp
  with 2 show ?case
    by (elim length_4E)
       (simp add: quad_def decode_tail_def base64_char_valid base64_index_char encode_bound Let_def numeral_2_eq_2 numeral_3_eq_3)
next
  case (3 a b)
  have "decode_0 (encode_0 [a, b, 0] # encode_1 [a, b, 0] # r) = a" for r
    using decode_encode_bytes(1) [of "encode_0 [a, b, 0] # encode_1 [a, b, 0] # r" "[a, b, 0]"] by simp
  moreover have "decode_1 (encode_0 [a, b, 0] # encode_1 [a, b, 0] # encode_2 [a, b, 0] # r) = b" for r
    using decode_encode_bytes(2) [of "encode_0 [a, b, 0] # encode_1 [a, b, 0] # encode_2 [a, b, 0] # r" "[a, b, 0]"]
    by simp
  ultimately show ?case
    using 3 by (elim length_4E)
       (simp add: quad_def decode_tail_def base64_char_valid base64_index_char encode_bound Let_def numeral_2_eq_2 numeral_3_eq_3)
next
  case (4 a b c bytes)
  have "map byte_char [decode_0 (quad a b c), decode_1 (quad a b c), decode_2 (quad a b c)] = map byte_char [a, b, c]"
    using decode_encode_bytes [of "quad a b c" "[a, b, c]"] by (simp add: quad_def)
  moreover have "\<forall>x \<in> set (quad a b c). unat x < 64" by (simp add: quad_def encode_bound)
  ultimately show ?case
    using "4.IH" [of "quad a b c"] "4.prems" decode_loop_quad [of a4 "encode_0 [a, b, c]" "encode_1 [a, b, c]"
        "encode_2 [a, b, c]" "encode_3 [a, b, c]" "enc_ref bytes" ret]
    by (simp add: quad_def)
qed

section \<open>Properties\<close>



text \<open>The encoder groups its input in threes: four characters per group, a last group of one or two
  bytes padded with equals signs to four characters; so the output of n bytes has exactly
  four times (n + 2) div 3 characters, all of the alphabet except for at most two signs at the end.\<close>

theorem base64_encode_shape:
  assumes "length a3 = 3"
  shows "base64_encode a3 bytes = enc_ref bytes \<and>
    length (base64_encode a3 bytes) = 4 * ((length bytes + 2) div 3) \<and>
    (\<exists>body pad. base64_encode a3 bytes = body @ replicate pad CHR ''='' \<and> pad \<le> 2 \<and>
       pad = (3 - length bytes mod 3) mod 3 \<and> (\<forall>c \<in> set body. c \<in> set base64_chars))"
proof -
  have enc: "base64_encode a3 bytes = enc_ref bytes"
    using encode_loop_ref [OF assms, of bytes "[]"] by (simp add: base64_encode_def)
  have in_alphabet: "unat x < 64 \<Longrightarrow> base64_char x \<in> set base64_chars" for x
    by (simp add: base64_char_def base64_chars_facts)
  have "length (enc_ref bytes) = 4 * ((length bytes + 2) div 3)"
  proof (induction bytes rule: enc_ref.induct)
    case (4 a b c bytes)
    have "(length (a # b # c # bytes) + 2) div 3 = Suc ((length bytes + 2) div 3)"
      by simp
    with 4 show ?case by (simp add: quad_def)
  qed (simp_all add: quad_def)
  moreover have "\<exists>body pad. enc_ref bytes = body @ replicate pad CHR ''='' \<and> pad \<le> 2 \<and>
      pad = (3 - length bytes mod 3) mod 3 \<and> (\<forall>c \<in> set body. c \<in> set base64_chars)"
  proof (induction bytes rule: enc_ref.induct)
    case (2 a)
    show ?case
      by (rule exI [of _ "map base64_char (take 2 (quad a 0 0))"], rule exI [of _ "Suc 1"])
         (simp add: quad_def in_alphabet encode_bound)
  next
    case (3 a b)
    show ?case
      by (rule exI [of _ "map base64_char (take 3 (quad a b 0))"], rule exI [of _ 1])
         (simp add: quad_def in_alphabet encode_bound)
  next
    case (4 a b c bytes)
    then obtain body pad where "enc_ref bytes = body @ replicate pad CHR ''=''" "pad \<le> 2"
      "pad = (3 - length bytes mod 3) mod 3" "\<forall>c \<in> set body. c \<in> set base64_chars" by blast
    then show ?case
      by (intro exI [of _ "map base64_char (quad a b c) @ body"] exI [of _ pad])
         (simp add: quad_def in_alphabet encode_bound)
  qed simp
  ultimately show ?thesis using enc by simp
qed

theorem base64_encode_shape_witness:
  "base64_encode [1, 2, 3] [77] = enc_ref [77] \<and> length (base64_encode [1, 2, 3] [77]) = 4"
  using base64_encode_shape [of "[1, 2, 3]" "[77]"] by (simp add: quad_def)

end
