(* ===== verification/LinkedHashMap.thy ===== *)
theory LinkedHashMap
  imports UnorderedMap
begin

text \<open>
  \<open>src/ch-cpp-utils/linked-hash-map.hpp\<close>: the class template \<open>LinkedHashMap\<close>. Its list
  of values is created and never filled; the map is an \<open>unordered_map\<close> with string keys. The
  class provides the interface \<open>unordered_map\<close> (interpretation \<open>lhm\<close>), on which
  the refinement of a run of operations to a finite map rests.
\<close>

record 'v LinkedHashMap =
  lhm_list :: "'v list"
  lhm_map :: "(string \<times> 'v) list"

definition LinkedHashMap_new :: "'v LinkedHashMap" where
  "LinkedHashMap_new = \<lparr>lhm_list = [], lhm_map = []\<rparr>"

definition LinkedHashMap_insert :: "string \<Rightarrow> 'v \<Rightarrow> 'v LinkedHashMap \<Rightarrow> 'v LinkedHashMap" where
  "LinkedHashMap_insert key value m = m\<lparr>lhm_map := um_insert key value (lhm_map m)\<rparr>"

definition LinkedHashMap_has :: "string \<Rightarrow> 'v LinkedHashMap \<Rightarrow> bool" where
  "LinkedHashMap_has key m = False"

text \<open>\<open>find\<close> dereferences the iterator without comparing it with \<open>end()\<close>.\<close>

definition LinkedHashMap_find :: "string \<Rightarrow> 'v LinkedHashMap \<Rightarrow> 'v res" where
  "LinkedHashMap_find key m =
     (case um_find (lhm_map m) key of None \<Rightarrow> Inl UB_end_iterator | Some v \<Rightarrow> Inr v)"

definition LinkedHashMap_erase :: "string \<Rightarrow> 'v LinkedHashMap \<Rightarrow> 'v LinkedHashMap" where
  "LinkedHashMap_erase key m = m\<lparr>lhm_map := um_erase key (lhm_map m)\<rparr>"

definition LinkedHashMap_empty :: "'v LinkedHashMap \<Rightarrow> bool" where
  "LinkedHashMap_empty m \<longleftrightarrow> lhm_map m = []"

definition LinkedHashMap_size :: "'v LinkedHashMap \<Rightarrow> nat" where
  "LinkedHashMap_size m = length (lhm_map m)"

text \<open>\<open>print\<close> writes one line per entry; \<open>shw\<close> is the stream insertion of the value type.\<close>

definition LinkedHashMap_print :: "('v \<Rightarrow> string) \<Rightarrow> 'v LinkedHashMap \<Rightarrow> string list" where
  "LinkedHashMap_print shw m = map (\<lambda>(key, value). key @ '' -> '' @ shw value) (lhm_map m)"

definition lhm_lookup :: "'v LinkedHashMap \<Rightarrow> string \<Rightarrow> 'v option" where
  "lhm_lookup m key = (case LinkedHashMap_find key m of Inl e \<Rightarrow> None | Inr v \<Rightarrow> Some v)"

lemma lhm_lookup_map [simp]: "lhm_lookup m = um_find (lhm_map m)"
  by (rule ext) (simp add: lhm_lookup_def LinkedHashMap_find_def split: option.splits)

lemmas LinkedHashMap_defs = LinkedHashMap_new_def LinkedHashMap_insert_def LinkedHashMap_erase_def
  LinkedHashMap_find_def LinkedHashMap_size_def LinkedHashMap_empty_def

interpretation lhm: unordered_map LinkedHashMap_new LinkedHashMap_insert LinkedHashMap_erase lhm_lookup
  LinkedHashMap_size "\<lambda>m. um_wf (lhm_map m)"
  by unfold_locales
     (auto simp: LinkedHashMap_defs um.sz_card um.fin_dom)

section \<open>Runs of operations\<close>

datatype 'v lhm_op = Insert string 'v | Erase string

fun lhm_apply :: "'v lhm_op \<Rightarrow> 'v LinkedHashMap \<Rightarrow> 'v LinkedHashMap" where
  "lhm_apply (Insert k v) m = LinkedHashMap_insert k v m"
| "lhm_apply (Erase k) m = LinkedHashMap_erase k m"

text \<open>The specification: a finite map in which an insertion does not replace a value.\<close>

fun spec_apply :: "'v lhm_op \<Rightarrow> (string \<rightharpoonup> 'v) \<Rightarrow> (string \<rightharpoonup> 'v)" where
  "spec_apply (Insert k v) f = (if f k = None then f(k \<mapsto> v) else f)"
| "spec_apply (Erase k) f = f(k := None)"

lemma lhm_apply_spec: "lhm_lookup (lhm_apply op m) = spec_apply op (lhm_lookup m)"
  by (cases op) (auto simp: fun_eq_iff LinkedHashMap_insert_def LinkedHashMap_erase_def)

lemma lhm_apply_wf: "um_wf (lhm_map m) \<Longrightarrow> um_wf (lhm_map (lhm_apply op m))"
  by (cases op) (auto intro: lhm.ok_ins lhm.ok_era)

lemma lhm_run:
  "um_wf (lhm_map m) \<Longrightarrow>
   um_wf (lhm_map (fold lhm_apply ops m)) \<and> lhm_lookup (fold lhm_apply ops m) = fold spec_apply ops (lhm_lookup m)"
  by (induction ops arbitrary: m) (auto simp: lhm_apply_wf lhm_apply_spec simp del: lhm_lookup_map)

text \<open>C28: A \<open>LinkedHashMap\<close> after any run of insertions and erasures behaves as the finite map in which the first
  insertion of a key wins: \<open>find\<close> returns the mapped value, and dereferences the end iterator exactly for the
  keys that are not mapped; \<open>size\<close> counts the keys and \<open>empty\<close> tells whether there are none.\<close>

theorem LinkedHashMap_refines_map:
  "let m = fold lhm_apply ops LinkedHashMap_new; f = fold spec_apply ops Map.empty in
     (\<forall>k. LinkedHashMap_find k m = (case f k of None \<Rightarrow> Inl UB_end_iterator | Some v \<Rightarrow> Inr v)) \<and>
     LinkedHashMap_size m = card (dom f) \<and>
     (LinkedHashMap_empty m = (f = Map.empty))"
proof -
  let ?m = "fold lhm_apply ops LinkedHashMap_new" and ?f = "fold spec_apply ops Map.empty"
  have new: "um_wf (lhm_map LinkedHashMap_new)" "lhm_lookup LinkedHashMap_new = Map.empty"
    by (auto simp: LinkedHashMap_new_def)
  have ok: "um_wf (lhm_map ?m)" and f: "lhm_lookup ?m = ?f" using lhm_run [OF new(1), of ops] unfolding new(2) by auto
  have "LinkedHashMap_find k ?m = (case ?f k of None \<Rightarrow> Inl UB_end_iterator | Some v \<Rightarrow> Inr v)" for k
    unfolding f [symmetric] by (simp add: LinkedHashMap_find_def)
  moreover have "LinkedHashMap_size ?m = card (dom ?f)" using lhm.sz_card [OF ok] f by simp
  moreover have "LinkedHashMap_empty ?m = (?f = Map.empty)"
    using lhm.sz_zero [OF ok] unfolding f by (auto simp: LinkedHashMap_size_def LinkedHashMap_empty_def)
  ultimately show ?thesis by (simp add: Let_def)
qed

text \<open>\<open>has\<close> denies every key, also one that was just inserted and that \<open>find\<close> returns.\<close>

theorem LinkedHashMap_has_denies_present:
  "LinkedHashMap_find k (LinkedHashMap_insert k v LinkedHashMap_new) = Inr v
   \<and> \<not> LinkedHashMap_has k (LinkedHashMap_insert k v LinkedHashMap_new)"
  by (simp add: LinkedHashMap_defs LinkedHashMap_has_def)

end
