(* ===== verification/Events.thy ===== *)
theory Events
  imports UnorderedMap
begin

text \<open>
  \<open>src/events.cpp\<close>: classes \<open>Target\<close>, \<open>Event\<close> and \<open>Events\<close>. The objects live on the heap
  and are shared by pointer (the client keeps the \<open>Target\<close> that \<open>on\<close> returns and may
  \<open>bind\<close> it later), so the model has a store per class, addressed by index; nothing
  is ever deleted. An \<open>EventTarget\<close> is a value of type \<open>'t\<close>; firing logs the calls.
\<close>

section \<open>The classes\<close>

record 't Target =
  target :: "'t option"
  this_ptr :: "nat option"

record Event =
  name :: string
  targets :: "nat list"

record 't Events =
  events :: "(string \<times> nat) list"
  eventStore :: "Event list"
  targetStore :: "'t Target list"

definition Target_new :: "'t Target" where
  "Target_new = \<lparr>target = None, this_ptr = None\<rparr>"

definition Target_add :: "'t option \<Rightarrow> 't Target \<Rightarrow> 't Target" where
  "Target_add f t = t\<lparr>target := f\<rparr>"

definition Target_bind :: "nat \<Rightarrow> nat option \<Rightarrow> 't Events \<Rightarrow> 't Events" where
  "Target_bind t p s = s\<lparr>targetStore := (targetStore s)[t := (targetStore s ! t)\<lparr>this_ptr := p\<rparr>]\<rparr>"

type_synonym 't call = "'t \<times> string \<times> nat option"

definition Target_fire :: "string \<Rightarrow> 't Target \<Rightarrow> 't call list \<Rightarrow> 't call list res" where
  "Target_fire n t log =
     (case target t of None \<Rightarrow> Inl UB_null_deref | Some f \<Rightarrow> Inr (log @ [(f, n, this_ptr t)]))"

definition Event_new :: "string \<Rightarrow> Event" where
  "Event_new n = \<lparr>name = n, targets = []\<rparr>"

definition Event_addTarget :: "nat \<Rightarrow> 't option \<Rightarrow> 't Events \<Rightarrow> nat \<times> 't Events" where
  "Event_addTarget e f s =
     (let t = length (targetStore s);
          ev = eventStore s ! e
      in (t, s\<lparr>targetStore := targetStore s @ [Target_add f Target_new],
               eventStore := (eventStore s)[e := ev\<lparr>targets := targets ev @ [t]\<rparr>]\<rparr>))"

definition Event_fire :: "Event \<Rightarrow> 't Events \<Rightarrow> 't call list \<Rightarrow> 't call list res" where
  "Event_fire ev s log = foldR (\<lambda>t. Target_fire (name ev) (targetStore s ! t)) (targets ev) log"

definition Events_new :: "'t Events" where
  "Events_new = \<lparr>events = [], eventStore = [], targetStore = []\<rparr>"

definition Events_on :: "string \<Rightarrow> 't option \<Rightarrow> 't Events \<Rightarrow> nat \<times> 't Events" where
  "Events_on n f s =
     (case um_find (events s) n of
        None \<Rightarrow>
          (let e = length (eventStore s);
               s1 = s\<lparr>eventStore := eventStore s @ [Event_new n], events := um_insert n e (events s)\<rparr>
           in Event_addTarget e f s1)
      | Some e \<Rightarrow> Event_addTarget e f s)"

text \<open>\<open>fire\<close> dereferences the iterator of a name that nobody registered.\<close>

definition Events_fire :: "string \<Rightarrow> 't Events \<Rightarrow> 't call list res" where
  "Events_fire n s =
     (case um_find (events s) n of
        None \<Rightarrow> Inl UB_end_iterator
      | Some e \<Rightarrow> Event_fire (eventStore s ! e) s [])"

section \<open>Specification: the list of registrations\<close>

text \<open>Abstractly an \<open>Events\<close> object is the list of registrations in the order they were made; the
  pointer \<open>on\<close> returns is a position of that list.\<close>

type_synonym 't registration = "string \<times> 't option \<times> nat option"

datatype 't events_call = On string "'t option" | Bind nat "nat option"

fun spec_op :: "'t events_call \<Rightarrow> 't registration list \<Rightarrow> 't registration list" where
  "spec_op (On n f) rs = rs @ [(n, f, None)]"
| "spec_op (Bind t p) rs = (if t < length rs then rs[t := (fst (rs ! t), fst (snd (rs ! t)), p)] else rs)"

fun events_op :: "'t events_call \<Rightarrow> 't Events \<Rightarrow> 't Events" where
  "events_op (On n f) s = snd (Events_on n f s)"
| "events_op (Bind t p) s = (if t < length (targetStore s) then Target_bind t p s else s)"

definition registered :: "string \<Rightarrow> 't registration list \<Rightarrow> nat list" where
  "registered n rs = filter (\<lambda>i. fst (rs ! i) = n) [0..<length rs]"

definition event_ok :: "'t Events \<Rightarrow> 't registration list \<Rightarrow> string \<Rightarrow> bool" where
  "event_ok s rs n \<longleftrightarrow>
     (case um_find (events s) n of
        None \<Rightarrow> registered n rs = []
      | Some e \<Rightarrow> e < length (eventStore s) \<and> eventStore s ! e = \<lparr>name = n, targets = registered n rs\<rparr> \<and> registered n rs \<noteq> [])"

definition represents :: "'t Events \<Rightarrow> 't registration list \<Rightarrow> bool" where
  "represents s rs \<longleftrightarrow>
     targetStore s = map (\<lambda>(n, f, p). \<lparr>target = f, this_ptr = p\<rparr>) rs \<and> (\<forall>n. event_ok s rs n)"

lemma registered_append:
  "registered n (rs @ [r]) = registered n rs @ (if fst r = n then [length rs] else [])"
proof -
  have "filter (\<lambda>i. fst ((rs @ [r]) ! i) = n) [0..<length rs] = filter (\<lambda>i. fst (rs ! i) = n) [0..<length rs]"
    by (rule filter_cong) (auto simp: nth_append)
  then show ?thesis by (simp add: registered_def)
qed

lemma registered_update: "fst r = fst (rs ! t) \<Longrightarrow> registered n (rs[t := r]) = registered n rs"
proof -
  assume "fst r = fst (rs ! t)"
  then have "fst (rs[t := r] ! i) = fst (rs ! i)" if "i < length rs" for i
    using that by (cases "i = t") simp_all
  then show ?thesis by (auto simp: registered_def intro!: filter_cong)
qed

lemma represents_new: "represents Events_new []"
  by (simp add: represents_def event_ok_def registered_def Events_new_def)

lemma represents_on:
  assumes "represents s rs"
  shows "represents (snd (Events_on n f s)) (rs @ [(n, f, None)]) \<and> fst (Events_on n f s) = length rs"
proof (cases "um_find (events s) n")
  case None
  have "event_ok (snd (Events_on n f s)) (rs @ [(n, f, None)]) m" for m
  proof -
    have "event_ok s rs m" "event_ok s rs n" "length (targetStore s) = length rs"
      using assms by (auto simp: represents_def)
    then show ?thesis
      using None by (auto simp: event_ok_def registered_append Events_on_def Event_addTarget_def Event_new_def
          Let_def nth_append nth_list_update split: option.splits)
  qed
  with assms None show ?thesis
    by (simp add: represents_def Events_on_def Event_addTarget_def Let_def Target_add_def Target_new_def)
next
  case (Some e)
  have "event_ok (snd (Events_on n f s)) (rs @ [(n, f, None)]) m" for m
  proof -
    have "event_ok s rs m" "event_ok s rs n" "length (targetStore s) = length rs"
      using assms by (auto simp: represents_def)
    then show ?thesis
      using Some
      by (auto simp: event_ok_def registered_append Events_on_def Event_addTarget_def
          Let_def nth_list_update split: option.splits)
  qed
  with assms Some show ?thesis
    by (simp add: represents_def Events_on_def Event_addTarget_def Let_def Target_add_def Target_new_def)
qed

lemma represents_bind:
  assumes "represents s rs" and "t < length rs"
  shows "represents (Target_bind t p s) (rs[t := (fst (rs ! t), fst (snd (rs ! t)), p)])"
proof -
  let ?rs = "rs[t := (fst (rs ! t), fst (snd (rs ! t)), p)]"
  have "event_ok (Target_bind t p s) ?rs n = event_ok s rs n" for n
    by (simp add: event_ok_def Target_bind_def registered_update split: option.split)
  moreover have "targetStore (Target_bind t p s) = map (\<lambda>(n, f, p). \<lparr>target = f, this_ptr = p\<rparr>) ?rs"
    using assms by (simp add: represents_def Target_bind_def map_update split_beta)
  ultimately show ?thesis using assms by (simp add: represents_def)
qed

lemma represents_op: "represents s rs \<Longrightarrow> represents (events_op op s) (spec_op op rs)"
proof (cases op)
  case (Bind t p)
  moreover assume "represents s rs"
  moreover from this have "length (targetStore s) = length rs" by (simp add: represents_def)
  ultimately show ?thesis by (simp add: represents_bind)
qed (simp add: represents_on)

lemma represents_run: "represents s rs \<Longrightarrow> represents (fold events_op ops s) (fold spec_op ops rs)"
  by (induction ops arbitrary: s rs) (auto intro: represents_op)

text \<open>The calls a name's registrations ask for, in order; a null target is a null call.\<close>

fun spec_fire :: "string \<Rightarrow> 't registration list \<Rightarrow> 't call list \<Rightarrow> 't call list res" where
  "spec_fire n [] log = Inr log"
| "spec_fire n ((m, f, p) # rs) log =
     (if m = n then (case f of None \<Rightarrow> Inl UB_null_deref | Some g \<Rightarrow> spec_fire n rs (log @ [(g, n, p)]))
      else spec_fire n rs log)"

lemma foldR_filter: "foldR f (filter P xs) s = foldR (\<lambda>x u. if P x then f x u else Inr u) xs s"
  by (induction xs arbitrary: s) (auto intro: bindR_cong)

lemma spec_fire_fold:
  "spec_fire n rs log =
   foldR (\<lambda>(m, f, p) log. if m = n then Target_fire n \<lparr>target = f, this_ptr = p\<rparr> log else Inr log) rs log"
  by (induction n rs log rule: spec_fire.induct) (auto simp: Target_fire_def split: option.splits)

lemma represents_fire:
  assumes "represents s rs"
  shows "Events_fire n s =
    (if n \<in> fst ` set rs then spec_fire n rs [] else Inl UB_end_iterator)"
proof -
  have none: "registered n rs = [] \<longleftrightarrow> n \<notin> fst ` set rs"
    by (force simp: registered_def filter_empty_conv in_set_conv_nth)
  have "foldR (\<lambda>t. Target_fire n (targetStore s ! t)) (registered n rs) [] =
      foldR (\<lambda>t log. if fst (rs ! t) = n then Target_fire n (targetStore s ! t) log else Inr log) [0..<length rs] []"
    by (simp add: registered_def foldR_filter)
  also have "\<dots> = foldR (\<lambda>t. (\<lambda>(m, f, p) log. if m = n then Target_fire n \<lparr>target = f, this_ptr = p\<rparr> log else Inr log) (rs ! t))
      [0..<length rs] []"
    using assms by (intro foldR_cong refl) (auto simp: represents_def split_beta)
  also have "\<dots> = spec_fire n rs []"
    unfolding spec_fire_fold by (subst foldR_map [symmetric]) (simp add: map_nth)
  finally have "foldR (\<lambda>t. Target_fire n (targetStore s ! t)) (registered n rs) [] = spec_fire n rs []" .
  moreover have "event_ok s rs n" using assms by (simp add: represents_def)
  ultimately show ?thesis
    using none by (auto simp: event_ok_def Events_fire_def Event_fire_def split: option.splits)
qed

text \<open>C27: For every run of registrations (\<open>on\<close>) and of \<open>bind\<close> on the pointers they returned, \<open>fire\<close> of a
  name calls exactly the targets registered under that name, in the order of their registration,
  each with the name and the value it was bound to last; for a name nobody registered it dereferences the end
  iterator.\<close>

theorem Events_fire_calls_registered:
  "Events_fire n (fold events_op ops Events_new) =
     (if n \<in> fst ` set (fold spec_op ops []) then spec_fire n (fold spec_op ops []) []
      else Inl UB_end_iterator)"
  by (rule represents_fire) (rule represents_run [OF represents_new])

end
