(* ===== verification/Utils.thy ===== *)
theory Utils
  imports UnorderedMap
begin

text \<open>
  \<open>src/utils.cpp\<close>: the free functions. The operating system and libc (\<open>stat\<close>, \<open>mkdir\<close>,
  \<open>opendir\<close>/\<open>readdir\<close>, \<open>fork\<close> and friends, the clock, \<open>strftime\<close>, \<open>rand\<close>) and libevent's
  request are parameters; what a property needs of them is a named hypothesis.
\<close>

section \<open>mkpath\<close>

record stat_result =
  st_isdir :: bool
  st_mtim_sec :: int
  st_mtim_nsec :: int

definition EEXIST :: nat where
  "EEXIST = 17"

definition ENOTDIR :: nat where
  "ENOTDIR = 20"

text \<open>\<open>stat\<close> reads the file system \<open>'w\<close>; \<open>mkdir\<close> changes it and returns \<open>None\<close> or the error number.
  The results here are the status, \<open>errno\<close> and the file system.\<close>

type_synonym 'w stat_fun = "'w \<Rightarrow> string \<Rightarrow> stat_result option"
type_synonym 'w mkdir_fun = "string \<Rightarrow> u32 \<Rightarrow> 'w \<Rightarrow> nat option \<times> 'w"

definition do_mkdir :: "'w stat_fun \<Rightarrow> 'w mkdir_fun \<Rightarrow> string \<Rightarrow> u32 \<Rightarrow> nat \<times> 'w \<Rightarrow> int \<times> nat \<times> 'w" where
  "do_mkdir stat mkdir path mode = (\<lambda>(errno, w).
     (case stat w path of
        None \<Rightarrow>
          (case mkdir path mode w of
             (None, w') \<Rightarrow> (0, errno, w')
           | (Some e, w') \<Rightarrow> (if e \<noteq> EEXIST then -1 else 0, e, w'))
      | Some st \<Rightarrow> if \<not> st_isdir st then (-1, ENOTDIR, w) else (0, errno, w)))"

lemma find_char_less: "find_char c s = Some p \<Longrightarrow> p < length s"
  by (induction s arbitrary: p) (auto split: if_splits)

lemma str_find_from_bounds:
  "str_find_from s c from = Some p \<Longrightarrow> from \<le> p \<and> p < length s"
  by (auto simp: str_find_from_def dest!: find_char_less)

text \<open>The loop, at position \<open>pp\<close> of the copied path.\<close>

function mkpath_loop ::
  "'w stat_fun \<Rightarrow> 'w mkdir_fun \<Rightarrow> string \<Rightarrow> u32 \<Rightarrow> nat \<Rightarrow> nat \<times> 'w \<Rightarrow> int \<times> nat \<times> 'w" where
  "mkpath_loop stat mkdir path mode pp s =
     (case str_find_from path CHR ''/'' pp of
        None \<Rightarrow> (0, s)
      | Some sp \<Rightarrow>
          let r = (if sp \<noteq> pp then do_mkdir stat mkdir (take sp path) mode s else (0, s))
          in if fst r = 0 then mkpath_loop stat mkdir path mode (sp + 1) (snd r) else r)"
  by pat_completeness auto
termination
  by (relation "measure (\<lambda>(stat, mkdir, path, mode, pp, s). length path - pp)")
     (auto dest: str_find_from_bounds)

declare mkpath_loop.simps [simp del]

definition mkpath :: "'w stat_fun \<Rightarrow> 'w mkdir_fun \<Rightarrow> string \<Rightarrow> u32 \<Rightarrow> nat \<times> 'w \<Rightarrow> int \<times> nat \<times> 'w" where
  "mkpath stat mkdir path mode s =
     (let r = mkpath_loop stat mkdir path mode 0 s
      in if fst r = 0 then do_mkdir stat mkdir path mode (snd r) else r)"

definition mkPath :: "'w stat_fun \<Rightarrow> 'w mkdir_fun \<Rightarrow> string \<Rightarrow> u32 \<Rightarrow> nat \<times> 'w \<Rightarrow> bool \<times> nat \<times> 'w" where
  "mkPath stat mkdir path mode s =
     (let r = mkpath stat mkdir (c_str path) mode s
      in if fst r \<noteq> 0 then (False, snd r) else (True, snd r))"

section \<open>Replies\<close>

text \<open>libevent's request, as far as the replies use it: whether it has an output buffer, what is in
  the buffer, and the replies sent (status and body).\<close>

record evhttp_request =
  has_output :: bool
  out_buf :: string
  replies :: "(nat \<times> string) list"

definition send_reply :: "nat \<Rightarrow> string \<Rightarrow> evhttp_request \<Rightarrow> evhttp_request" where
  "send_reply code html request =
     (if \<not> has_output request then request
      else request\<lparr>out_buf := [], replies := replies request @ [(code, out_buf request @ html)]\<rparr>)"

definition send400BadRequest :: "evhttp_request \<Rightarrow> evhttp_request" where
  "send400BadRequest = send_reply 400 ''<html><body><center><h1>Bad Request</h1></center></body></html>''"

definition send404NotFound :: "evhttp_request \<Rightarrow> evhttp_request" where
  "send404NotFound = send_reply 404 ''<html><body><center><h1>Not Found</h1></center></body></html>''"

definition send500InternalServerError :: "evhttp_request \<Rightarrow> evhttp_request" where
  "send500InternalServerError =
     send_reply 500 ''<html><body><center><h1>Internal Server Error</h1></center></body></html>''"

definition send200OK :: "evhttp_request \<Rightarrow> evhttp_request" where
  "send200OK = send_reply 200 ''<html><body><center><h1>OK</h1></center></body></html>''"

section \<open>Files and directories\<close>

definition fileExists :: "'w stat_fun \<Rightarrow> 'w \<Rightarrow> string \<Rightarrow> bool" where
  "fileExists stat w name \<longleftrightarrow> stat w (c_str name) \<noteq> None"

datatype d_type = DT_REG | DT_DIR | DT_OTHER

type_synonym dirent = "string \<times> d_type"

definition is_dot :: "string \<Rightarrow> bool" where
  "is_dot n \<longleftrightarrow> n = ''.'' \<or> n = ''..''"

text \<open>\<open>opendir\<close> gives the entries that \<open>readdir\<close> will return, or fails.\<close>

definition directoryListing :: "(string \<Rightarrow> dirent list option) \<Rightarrow> string \<Rightarrow> string list" where
  "directoryListing opendir directory =
     (case opendir (c_str directory) of
        None \<Rightarrow> []
      | Some ents \<Rightarrow> map fst (filter (\<lambda>ent. \<not> is_dot (fst ent)) ents))"

definition directoryListing_only :: "(string \<Rightarrow> dirent list option) \<Rightarrow> string \<Rightarrow> bool \<Rightarrow> bool \<Rightarrow> string list" where
  "directoryListing_only opendir directory filesOnly dirsOnly =
     (case opendir (c_str directory) of
        None \<Rightarrow> []
      | Some ents \<Rightarrow>
          concat (map (\<lambda>(n, t).
            if \<not> is_dot n
            then (if filesOnly \<and> t = DT_REG then [n] else []) @ (if dirsOnly \<and> t = DT_DIR then [n] else [])
            else []) ents))"

text \<open>The times are 64-bit counts of nanoseconds, far from their bounds until the year 2262;
  \<open>duration_cast\<close> truncates towards zero.\<close>

definition trunc_div :: "int \<Rightarrow> int \<Rightarrow> int" where
  "trunc_div a b = sgn a * (\<bar>a\<bar> div b)"

definition fileExpired :: "'w stat_fun \<Rightarrow> 'w \<Rightarrow> int \<Rightarrow> string \<Rightarrow> u32 \<Rightarrow> bool" where
  "fileExpired stat w now path expiresInSec =
     (case stat w (c_str path) of
        Some result \<Rightarrow>
          (let start = st_mtim_sec result * 1000000000 + st_mtim_nsec result;
               elapsed = trunc_div (now - start) 1000000000
           in elapsed - uint expiresInSec > 0)
      | None \<Rightarrow> False)"

section \<open>daemonizeProcess\<close>

datatype syscall = Fork | Umask nat | Setsid | Chdir string | Close nat

text \<open>\<open>sys\<close> is the result of each system call; the second component of the result is the calls made.\<close>

definition daemonizeProcess :: "(syscall \<Rightarrow> int) \<Rightarrow> int res \<times> syscall list" where
  "daemonizeProcess sys =
     (if sys Fork < 0 then (Inr (-1), [Fork])
      else if sys Fork > 0 then (Inl (Proc_exit 0), [Fork])
      else if sys Setsid < 0 then (Inr (-1), [Fork, Umask 0, Setsid])
      else if sys (Chdir ''/'') \<noteq> 0 then (Inr (-1), [Fork, Umask 0, Setsid, Chdir ''/''])
      else if sys (Close 0) \<noteq> 0 then (Inr (-1), [Fork, Umask 0, Setsid, Chdir ''/'', Close 0])
      else if sys (Close 1) \<noteq> 0 then (Inr (-1), [Fork, Umask 0, Setsid, Chdir ''/'', Close 0, Close 1])
      else (Inr (if sys (Close 2) \<noteq> 0 then -1 else 0),
            [Fork, Umask 0, Setsid, Chdir ''/'', Close 0, Close 1, Close 2]))"

section \<open>Clock\<close>

definition getEpochNano :: "int \<Rightarrow> u64" where
  "getEpochNano now = word_of_int now"

definition getDateTime :: "'t \<Rightarrow> ('t \<Rightarrow> 'tm) \<Rightarrow> (nat \<Rightarrow> string \<Rightarrow> 'tm \<Rightarrow> string) \<Rightarrow> string" where
  "getDateTime now localtime strftime = strftime 80 ''%a %Y-%m-%d %H:%M:%S %Z'' (localtime now)"

definition getDate :: "'t \<Rightarrow> ('t \<Rightarrow> 'tm) \<Rightarrow> (nat \<Rightarrow> string \<Rightarrow> 'tm \<Rightarrow> string) \<Rightarrow> string" where
  "getDate now localtime strftime = strftime 80 ''%m-%d-%Y-%a'' (localtime now)"

definition getTime :: "'t \<Rightarrow> ('t \<Rightarrow> 'tm) \<Rightarrow> (nat \<Rightarrow> string \<Rightarrow> 'tm \<Rightarrow> string) \<Rightarrow> string" where
  "getTime now localtime strftime = strftime 80 ''%H-%M-%S-%Z'' (localtime now)"

definition getHour :: "'t \<Rightarrow> ('t \<Rightarrow> 'tm) \<Rightarrow> (nat \<Rightarrow> string \<Rightarrow> 'tm \<Rightarrow> string) \<Rightarrow> string" where
  "getHour now localtime strftime = strftime 80 ''%H-%Z'' (localtime now)"

section \<open>Strings\<close>

text \<open>\<open>replace\<close> changes its first argument and returns the changed string; \<open>s.replace\<close> throws when the
  position is past the end, which \<open>npos\<close> always is.\<close>

definition replace :: "string \<Rightarrow> string \<Rightarrow> string \<Rightarrow> string res" where
  "replace s pat repl =
     (case str_find s pat of
        None \<Rightarrow> Inl Exn_out_of_range
      | Some pos \<Rightarrow> Inr (take pos s @ repl @ drop (pos + length pat) s))"

definition endsWith :: "string \<Rightarrow> string \<Rightarrow> bool" where
  "endsWith str suf \<longleftrightarrow>
     length str \<ge> length suf \<and> take (length suf) (drop (length str - length suf) str) = suf"

section \<open>generateUUID\<close>

definition CHARS :: string where
  "CHARS = ''0123456789ABCDEFGHIJKLMNOPQRSTUVWXYZabcdefghijklmnopqrstuvwxyz''"

text \<open>\<open>0x2000000 + rand() * 0x1000000\<close> in 32-bit signed arithmetic.\<close>

definition next_rnd :: "int \<Rightarrow> int res" where
  "next_rnd r =
     (if r * 0x1000000 \<ge> 2 ^ 31 \<or> 0x2000000 + r * 0x1000000 \<ge> 2 ^ 31 then Inl UB_signed_overflow
      else Inr (0x2000000 + r * 0x1000000))"

definition uuid_index :: "nat \<Rightarrow> int \<Rightarrow> nat" where
  "uuid_index i rnd = (if i = 19 then nat (rnd mod 16) mod 4 + 8 else nat (rnd mod 16))"

text \<open>The state of the loop: how often \<open>rand\<close> was called, \<open>rnd\<close> and the string; \<open>rand k\<close> is what the
  \<open>k\<close>-th call returns.\<close>

definition uuid_step :: "(nat \<Rightarrow> int) \<Rightarrow> nat \<Rightarrow> nat \<times> int \<times> string \<Rightarrow> (nat \<times> int \<times> string) res" where
  "uuid_step rand i = (\<lambda>(k, rnd, uuid).
     (if i \<noteq> 8 \<and> i \<noteq> 13 \<and> i \<noteq> 18 \<and> i \<noteq> 14 \<and> i \<noteq> 23
      then bindR (if rnd \<le> 2 then map_sum id (\<lambda>r. (Suc k, r)) (next_rnd (rand k)) else Inr (k, rnd))
             (\<lambda>(k', r). let r' = r div 16 in Inr (k', r', uuid[i := CHARS ! uuid_index i r']))
      else Inr (k, rnd, uuid)))"

definition generateUUID :: "(nat \<Rightarrow> int) \<Rightarrow> string res" where
  "generateUUID rand =
     (let uuid = ((((replicate 36 CHR '' '')[8 := CHR ''-''])[13 := CHR ''-''])[18 := CHR ''-''])[23 := CHR ''-''];
          uuid = uuid[14 := CHR ''4'']
      in map_sum id (\<lambda>(k, rnd, u). u) (foldR (uuid_step rand) [0..<36] (0, 0, uuid)))"

section \<open>Lemmas\<close>

lemma endsWith_suffix: "endsWith str suf \<longleftrightarrow> suffix suf str"
proof -
  have "suffix suf str \<longleftrightarrow> length str \<ge> length suf \<and> drop (length str - length suf) str = suf"
    by (metis append_take_drop_id diff_le_self length_append le_add2 suffix_def suffix_drop suffix_length_le
        suffix_take append_eq_append_conv length_drop diff_diff_cancel)
  then show ?thesis by (auto simp: endsWith_def)
qed

lemma str_find_Some:
  "str_find s pat = Some p \<Longrightarrow>
   p + length pat \<le> length s \<and> take (length pat) (drop p s) = pat \<and> (\<forall>q < p. take (length pat) (drop q s) \<noteq> pat)"
proof (induction s pat arbitrary: p rule: str_find.induct)
  case (1 s pat)
  show ?case
  proof (cases "prefix pat s")
    case True
    with 1(2) show ?thesis by (subst (asm) str_find.simps) (auto simp: prefix_def)
  next
    case False
    then obtain c s' p' where s: "s = c # s'" and p: "str_find s' pat = Some p'" "p = Suc p'"
      using 1(2) by (subst (asm) str_find.simps) (auto split: list.splits)
    have "take (length pat) s \<noteq> pat" using False by (metis take_is_prefix)
    then show ?thesis
      using 1(1) [OF False s p(1)] s p(2) by (auto simp: less_Suc_eq_0_disj)
  qed
qed

lemma str_find_None: "str_find s pat = None \<longleftrightarrow> \<not> sublist pat s"
proof (induction s pat rule: str_find.induct)
  case (1 s pat)
  show ?case
  proof (cases s)
    case Nil
    then show ?thesis by (subst str_find.simps) auto
  next
    case (Cons c s')
    then show ?thesis using 1 by (subst str_find.simps) (auto simp: sublist_Cons_right)
  qed
qed

text \<open>\<open>replace\<close> substitutes the first occurrence and only it: it splits the string into a part before, the
  pattern and a part after, where the pattern occurs at no earlier position; it throws \<open>out_of_range\<close> exactly
  when the pattern does not occur.\<close>

theorem replace_first_occurrence:
  "case replace s pat repl of
     Inl e \<Rightarrow> e = Exn_out_of_range \<and> \<not> sublist pat s
   | Inr r \<Rightarrow> (\<exists>pre post. s = pre @ pat @ post \<and> r = pre @ repl @ post
                \<and> \<not> (\<exists>q < length pre. take (length pat) (drop q s) = pat))"
proof (cases "str_find s pat")
  case None
  moreover from this have "\<not> sublist pat s" by (simp add: str_find_None)
  ultimately show ?thesis by (simp add: replace_def)
next
  case (Some p)
  note * = str_find_Some [OF Some]
  have "s = take p s @ pat @ drop (p + length pat) s"
    using * by (metis append_take_drop_id drop_drop add.commute)
  moreover have "\<not> (\<exists>q < length (take p s). take (length pat) (drop q s) = pat)" using * by auto
  ultimately have "\<exists>pre post. s = pre @ pat @ post \<and> take p s @ repl @ drop (p + length pat) s = pre @ repl @ post
      \<and> \<not> (\<exists>q < length pre. take (length pat) (drop q s) = pat)" by blast
  then show ?thesis using Some by (simp add: replace_def)
qed

section \<open>mkpath creates every directory of the path\<close>

definition is_dir :: "'w stat_fun \<Rightarrow> 'w \<Rightarrow> string \<Rightarrow> bool" where
  "is_dir stat w p \<longleftrightarrow> (case stat w p of None \<Rightarrow> False | Some st \<Rightarrow> st_isdir st)"

text \<open>What \<open>mkdir(2)\<close> documents: on success the directory exists, directories stay directories, and
  \<open>EEXIST\<close> is only reported for a path that exists (when no other process interferes).\<close>

definition mkdir_creates :: "'w stat_fun \<Rightarrow> 'w mkdir_fun \<Rightarrow> bool" where
  "mkdir_creates stat mkdir \<longleftrightarrow> (\<forall>p m w w'. mkdir p m w = (None, w') \<longrightarrow> is_dir stat w' p)"

definition mkdir_keeps :: "'w stat_fun \<Rightarrow> 'w mkdir_fun \<Rightarrow> bool" where
  "mkdir_keeps stat mkdir \<longleftrightarrow> (\<forall>p m w q. is_dir stat w q \<longrightarrow> is_dir stat (snd (mkdir p m w)) q)"

definition mkdir_eexist :: "'w stat_fun \<Rightarrow> 'w mkdir_fun \<Rightarrow> bool" where
  "mkdir_eexist stat mkdir \<longleftrightarrow> (\<forall>p m w. fst (mkdir p m w) = Some EEXIST \<longrightarrow> stat w p \<noteq> None)"

lemma do_mkdir_keeps:
  "mkdir_keeps stat mkdir \<Longrightarrow> is_dir stat (snd s) q \<Longrightarrow> is_dir stat (snd (snd (do_mkdir stat mkdir p m s))) q"
  by (auto simp: do_mkdir_def mkdir_keeps_def split: prod.splits option.splits) (metis snd_conv)+

lemma do_mkdir_creates:
  "mkdir_creates stat mkdir \<Longrightarrow> mkdir_eexist stat mkdir \<Longrightarrow> fst (do_mkdir stat mkdir p m s) = 0 \<Longrightarrow>
   is_dir stat (snd (snd (do_mkdir stat mkdir p m s))) p"
proof -
  assume c: "mkdir_creates stat mkdir" and e: "mkdir_eexist stat mkdir" and z: "fst (do_mkdir stat mkdir p m s) = 0"
  show ?thesis
  proof (cases "stat (snd s) p")
    case None
    then have "fst (mkdir p m (snd s)) \<noteq> Some EEXIST" using e unfolding mkdir_eexist_def by metis
    then show ?thesis
      using None c z by (auto simp: do_mkdir_def mkdir_creates_def split: prod.splits option.splits if_splits)
  next
    case (Some st)
    then show ?thesis using z by (auto simp: do_mkdir_def is_dir_def split: prod.splits if_splits)
  qed
qed

text \<open>The positions of the slashes that end a component.\<close>

definition component_ends :: "string \<Rightarrow> nat \<Rightarrow> nat set" where
  "component_ends path pp =
     {i. pp < i \<and> i < length path \<and> path ! i = CHR ''/'' \<and> path ! (i - 1) \<noteq> CHR ''/''}"

lemma find_char_Some:
  "find_char c s = Some p \<longleftrightarrow> p < length s \<and> s ! p = c \<and> (\<forall>i < p. s ! i \<noteq> c)"
proof (induction s arbitrary: p)
  case (Cons x s)
  show ?case
  proof (cases p)
    case (Suc q)
    then show ?thesis using Cons [of q] by (auto simp: less_Suc_eq_0_disj)
  qed auto
qed simp

lemma find_char_None: "find_char c s = None \<longleftrightarrow> c \<notin> set s"
  by (induction s) auto

lemma str_find_from_Some:
  "str_find_from s c from = Some p \<Longrightarrow>
   from \<le> p \<and> p < length s \<and> s ! p = c \<and> (\<forall>i. from \<le> i \<longrightarrow> i < p \<longrightarrow> s ! i \<noteq> c)"
proof -
  assume "str_find_from s c from = Some p"
  then obtain q where q: "p = q + from" "find_char c (drop from s) = Some q"
    by (auto simp: str_find_from_def)
  then have "\<forall>j < q. s ! (from + j) \<noteq> c" "s ! (from + q) = c" "q + from < length s"
    by (auto simp: find_char_Some)
  then show ?thesis using q(1) by (auto simp: add.commute) (metis add.commute le_Suc_ex nat_add_left_cancel_less)
qed

lemma str_find_from_None:
  "str_find_from s c from = None \<Longrightarrow> from \<le> i \<Longrightarrow> i < length s \<Longrightarrow> s ! i \<noteq> c"
  by (auto simp: str_find_from_def find_char_None in_set_conv_nth dest!: spec [of _ "i - from"])

lemma component_ends_step:
  assumes "str_find_from path CHR ''/'' pp = Some sp"
  shows "component_ends path pp = (if sp \<noteq> pp then {sp} else {}) \<union> component_ends path (sp + 1)"
proof -
  note * = str_find_from_Some [OF assms]
  have "i = sp \<or> sp + 1 < i" if "i \<in> component_ends path pp" for i
    using that * by (cases "i < sp"; cases "i = sp + 1") (auto simp: component_ends_def)
  moreover have "sp \<in> component_ends path pp" if "sp \<noteq> pp"
    using * that by (auto simp: component_ends_def)
  moreover have "sp \<notin> component_ends path sp" by (simp add: component_ends_def)
  ultimately show ?thesis using * by (auto simp: component_ends_def)
qed

lemma mkpath_loop_keeps:
  "mkdir_keeps stat mkdir \<Longrightarrow> is_dir stat (snd s) q \<Longrightarrow> is_dir stat (snd (snd (mkpath_loop stat mkdir path m pp s))) q"
proof (induction stat mkdir path m pp s rule: mkpath_loop.induct)
  case (1 stat mkdir path m pp s)
  then show ?case
    by (subst mkpath_loop.simps) (auto simp: Let_def do_mkdir_keeps split: option.splits)
qed

lemma mkpath_loop_creates:
  assumes "mkdir_creates stat mkdir" "mkdir_keeps stat mkdir" "mkdir_eexist stat mkdir"
    and "fst (mkpath_loop stat mkdir path m pp s) = 0" and "i \<in> component_ends path pp"
  shows "is_dir stat (snd (snd (mkpath_loop stat mkdir path m pp s))) (take i path)"
  using assms
proof (induction stat mkdir path m pp s rule: mkpath_loop.induct)
  case (1 stat mkdir path m pp s)
  show ?case
  proof (cases "str_find_from path CHR ''/'' pp")
    case None
    then show ?thesis using 1(6) str_find_from_None [OF None, of i] by (simp add: component_ends_def)
  next
    case (Some sp)
    let ?r = "if sp \<noteq> pp then do_mkdir stat mkdir (take sp path) m s else (0, s)"
    have r: "fst ?r = 0" using 1(5) Some by (subst (asm) mkpath_loop.simps) (auto simp: Let_def split: if_splits)
    then have eq: "mkpath_loop stat mkdir path m pp s = mkpath_loop stat mkdir path m (sp + 1) (snd ?r)"
      using Some by (subst mkpath_loop.simps) (simp add: Let_def)
    show ?thesis
    proof (cases "i \<in> component_ends path (sp + 1)")
      case True
      then show ?thesis unfolding eq using 1(1) [OF Some refl r 1(2-4)] 1(5) eq by simp
    next
      case False
      then have "i = sp" "sp \<noteq> pp" using 1(6) component_ends_step [OF Some] by (auto split: if_splits)
      then have "is_dir stat (snd (snd ?r)) (take i path)" using r do_mkdir_creates [OF 1(2,4)] by simp
      then show ?thesis unfolding eq by (rule mkpath_loop_keeps [OF 1(3)])
    qed
  qed
qed


definition dirs_stat :: "string list stat_fun" where
  "dirs_stat w p = (if p \<in> set w then Some \<lparr>st_isdir = True, st_mtim_sec = 0, st_mtim_nsec = 0\<rparr> else None)"

definition dirs_mkdir :: "string list mkdir_fun" where
  "dirs_mkdir p m w = (if p \<in> set w then (Some EEXIST, w) else (None, p # w))"


section \<open>The shape of a UUID\<close>

definition uuid_fixed :: "nat \<Rightarrow> bool" where
  "uuid_fixed i \<longleftrightarrow> i = 8 \<or> i = 13 \<or> i = 18 \<or> i = 14 \<or> i = 23"

definition uuid_char_ok :: "nat \<Rightarrow> char \<Rightarrow> bool" where
  "uuid_char_ok i c \<longleftrightarrow>
     (if i = 8 \<or> i = 13 \<or> i = 18 \<or> i = 23 then c = CHR ''-''
      else if i = 14 then c = CHR ''4''
      else if i = 19 then c \<in> set ''89AB''
      else c \<in> set ''0123456789ABCDEF'')"

lemma CHARS_hex: "n < 16 \<Longrightarrow> CHARS ! n = ''0123456789ABCDEF'' ! n"
proof -
  have "take 16 CHARS = ''0123456789ABCDEF''" by (simp add: CHARS_def)
  then show "n < 16 \<Longrightarrow> CHARS ! n = ''0123456789ABCDEF'' ! n" by (metis nth_take)
qed

lemma uuid_char: "\<not> uuid_fixed i \<Longrightarrow> uuid_char_ok i (CHARS ! uuid_index i r)"
proof -
  assume f: "\<not> uuid_fixed i"
  let ?n = "nat (r mod 16)"
  have n: "?n < 16" by (simp add: nat_less_iff)
  show ?thesis
  proof (cases "i = 19")
    case True
    have "m mod 4 = 0 \<or> m mod 4 = 1 \<or> m mod 4 = 2 \<or> m mod 4 = 3" for m :: nat by presburger
    from this [of ?n] have "CHARS ! (?n mod 4 + 8) \<in> set ''89AB''"
      by (elim disjE) (simp_all add: CHARS_def)
    then show ?thesis using True by (simp add: uuid_char_ok_def uuid_index_def)
  next
    case False
    have "CHARS ! ?n \<in> set ''0123456789ABCDEF''"
      unfolding CHARS_hex [OF n] by (rule nth_mem) (use n in simp)
    then show ?thesis using False f by (simp add: uuid_char_ok_def uuid_index_def uuid_fixed_def)
  qed
qed

lemma next_rnd_small: "0 \<le> r \<Longrightarrow> r \<le> 125 \<Longrightarrow> next_rnd r = Inr (0x2000000 + r * 0x1000000)"
  by (simp add: next_rnd_def)

lemma uuid_step_ok:
  assumes "\<forall>k. 0 \<le> rand k \<and> rand k \<le> 125"
  obtains k' r' where "uuid_step rand i (k, rnd, u) =
      Inr (k', r', if uuid_fixed i then u else u[i := CHARS ! uuid_index i r'])"
proof (cases "uuid_fixed i")
  case True
  then show ?thesis using that [of k rnd] by (auto simp: uuid_step_def uuid_fixed_def)
next
  case False
  then show ?thesis
    using that assms by (cases "rnd \<le> 2") (auto simp: uuid_step_def uuid_fixed_def next_rnd_small Let_def)
qed

lemma uuid_loop_ok:
  assumes rand: "\<forall>k. 0 \<le> rand k \<and> rand k \<le> 125" and u: "length u = 36"
    and ok: "\<forall>i < 36. uuid_fixed i \<longrightarrow> uuid_char_ok i (u ! i)" and n: "n \<le> 36"
  shows "\<exists>k r v. foldR (uuid_step rand) [0..<n] (k0, r0, u) = Inr (k, r, v) \<and> length v = 36
    \<and> (\<forall>i < 36. uuid_fixed i \<or> i < n \<longrightarrow> uuid_char_ok i (v ! i))"
  using n
proof (induction n)
  case 0
  then show ?case using u ok by simp
next
  case (Suc n)
  then obtain k r v where v: "foldR (uuid_step rand) [0..<n] (k0, r0, u) = Inr (k, r, v)" "length v = 36"
      "\<forall>i < 36. uuid_fixed i \<or> i < n \<longrightarrow> uuid_char_ok i (v ! i)" by auto
  obtain k' r' where st: "uuid_step rand n (k, r, v) =
      Inr (k', r', if uuid_fixed n then v else v[n := CHARS ! uuid_index n r'])"
    by (rule uuid_step_ok [OF rand])
  have "uuid_char_ok i ((if uuid_fixed n then v else v[n := CHARS ! uuid_index n r']) ! i)"
    if "i < 36" "uuid_fixed i \<or> i < Suc n" for i
    using that v(2,3) uuid_char [of n r'] by (cases "i = n") auto
  then show ?case using v st by (simp add: foldR_append)
qed

text \<open>If \<open>rand\<close> returns values of at most 125, \<open>generateUUID\<close> returns a string of 36 characters with dashes at
  8, 13, 18 and 23, the version digit 4 at 14, one of 8, 9, A, B at 19 and upper-case hexadecimal digits elsewhere.\<close>

theorem generateUUID_shape:
  assumes "\<forall>k. 0 \<le> rand k \<and> rand k \<le> 125"
  shows "\<exists>u. generateUUID rand = Inr u \<and> length u = 36 \<and> (\<forall>i < 36. uuid_char_ok i (u ! i))"
proof -
  let ?u = "(((((replicate 36 CHR '' '')[8 := CHR ''-''])[13 := CHR ''-''])[18 := CHR ''-''])[23 := CHR ''-''])[14 := CHR ''4'']"
  have "\<forall>i < 36. uuid_fixed i \<longrightarrow> uuid_char_ok i (?u ! i)"
    by (auto simp: uuid_fixed_def uuid_char_ok_def nth_list_update)
  then show ?thesis
    using uuid_loop_ok [OF assms, of ?u 36 0 0] by (auto simp: generateUUID_def Let_def)
qed

theorem generateUUID_shape_witness:
  "generateUUID (\<lambda>k. 5) = Inr ''00000700-0000-4700-8000-700000070000''
   \<and> uuid_char_ok 19 (''00000700-0000-4700-8000-700000070000'' ! 19)
   \<and> uuid_char_ok 35 (''00000700-0000-4700-8000-700000070000'' ! 35)"
proof -
  let ?u = "''00000700-0000-4700-8000-700000070000''"
  have g: "generateUUID (\<lambda>k. 5) = Inr ?u" by code_simp
  then have ok: "\<forall>i < 36. uuid_char_ok i (?u ! i)" using generateUUID_shape [of "\<lambda>k. 5"] by simp
  have "uuid_char_ok 19 (?u ! 19)" by (rule ok [rule_format]) simp
  moreover have "uuid_char_ok 35 (?u ! 35)" by (rule ok [rule_format]) simp
  ultimately show ?thesis using g by blast
qed

lemma uuid_keeps:
  "foldR (uuid_step rand) is (k, r, u) = Inr (k', r', v) \<Longrightarrow> \<forall>i \<in> set is. 5 \<le> i \<Longrightarrow> take 5 v = take 5 u"
proof (induction "is" arbitrary: k r u)
  case (Cons i "is")
  then obtain k1 r1 u1 where st: "uuid_step rand i (k, r, u) = Inr (k1, r1, u1)"
      "foldR (uuid_step rand) is (k1, r1, u1) = Inr (k', r', v)"
    by (auto simp: bindR_Inr_iff)
  have "take 5 u1 = take 5 u"
    using st(1) Cons.prems(2) by (auto simp: uuid_step_def bindR_Inr_iff Let_def split: if_splits)
  then show ?case using Cons st(2) by simp
qed simp

text \<open>Whatever \<open>rand\<close> returns first, \<open>generateUUID\<close> either overflows a signed integer, which happens for every value
  above 125, or returns a string whose first five digits are zero: the 24 low bits of each
  pseudo-random number are always clear.\<close>

theorem generateUUID_first_digits:
  assumes "0 \<le> rand 0"
  shows "(125 < rand 0 \<longrightarrow> generateUUID rand = Inl UB_signed_overflow)
    \<and> (\<forall>u. generateUUID rand = Inr u \<longrightarrow> take 5 u = ''00000'')"
proof -
  let ?u = "(((((replicate 36 CHR '' '')[8 := CHR ''-''])[13 := CHR ''-''])[18 := CHR ''-''])[23 := CHR ''-''])[14 := CHR ''4'']"
  have split: "[0..<36] = 0 # [Suc 0..<36]" "[Suc 0..<36] = [1..<5] @ [5..<36]"
    by (simp_all add: upt_conv_Cons flip: upt_add_eq_append)
  show ?thesis
  proof (cases "125 < rand 0")
    case True
    then have "uuid_step rand 0 (0, 0, ?u) = Inl UB_signed_overflow"
      by (simp add: uuid_step_def next_rnd_def)
    with True show ?thesis by (simp add: generateUUID_def Let_def split)
  next
    case False
    let ?r = "(2 + rand 0) * 2 ^ 20"
    have zero: "CHARS ! 0 = CHR ''0''" by (simp add: CHARS_def)
    have "uuid_step rand 0 (0, 0, ?u) = Inr (1, ?r, ?u[0 := CHR ''0''])"
      using False assms zero by (simp add: uuid_step_def next_rnd_small Let_def uuid_index_def algebra_simps)
    moreover have "foldR (uuid_step rand) [1..<5] (1, ?r, ?u[0 := CHR ''0'']) =
        Inr (1, (2 + rand 0) * 2 ^ 4, ((((?u[0 := CHR ''0''])[1 := CHR ''0''])[2 := CHR ''0''])[3 := CHR ''0''])[4 := CHR ''0''])"
      using assms zero by (simp add: upt_rec uuid_step_def Let_def uuid_index_def numeral_eq_Suc)
    ultimately have "generateUUID rand =
        map_sum id (\<lambda>(k, rnd, u). u) (foldR (uuid_step rand) [5..<36]
          (1, (2 + rand 0) * 2 ^ 4, ((((?u[0 := CHR ''0''])[1 := CHR ''0''])[2 := CHR ''0''])[3 := CHR ''0''])[4 := CHR ''0'']))"
      by (simp add: generateUUID_def Let_def split foldR_append)
    moreover have "take 5 (((((?u[0 := CHR ''0''])[1 := CHR ''0''])[2 := CHR ''0''])[3 := CHR ''0''])[4 := CHR ''0'']) = ''00000''"
      by (simp add: numeral_eq_Suc)
    ultimately have "take 5 v = ''00000''" if "generateUUID rand = Inr v" for v
      using that uuid_keeps [of rand "[5..<36]"] by (auto simp del: upt_rec_numeral simp: map_sum_def split: sum.splits)
    with False show ?thesis by simp
  qed
qed

theorem generateUUID_first_digits_witness:
  "generateUUID (\<lambda>k. 126) = Inl UB_signed_overflow
   \<and> (\<forall>u. generateUUID (\<lambda>k. 9) = Inr u \<longrightarrow> take 5 u = ''00000'')"
  using generateUUID_first_digits [of "\<lambda>k. 126"] generateUUID_first_digits [of "\<lambda>k. 9"] by simp

section \<open>File age and daemonisation\<close>

lemma le_div_iff:
  fixes a b m :: int
  assumes "0 < b"
  shows "m \<le> a div b \<longleftrightarrow> m * b \<le> a"
proof
  assume "m \<le> a div b"
  then have "m * b \<le> a div b * b" using assms by (simp add: mult_right_mono)
  also have "\<dots> \<le> a" using pos_mod_sign [OF assms, of a] div_mult_mod_eq [of a b] by linarith
  finally show "m * b \<le> a" .
next
  assume "m * b \<le> a"
  then have "m * b div b \<le> a div b" using assms by (rule zdiv_mono1)
  then show "m \<le> a div b" using assms by simp
qed

lemma trunc_div_greater:
  assumes "0 < b" and "0 \<le> n"
  shows "n < trunc_div a b \<longleftrightarrow> (n + 1) * b \<le> a"
proof (cases "0 \<le> a")
  case True
  then have "trunc_div a b = a div b" by (auto simp: trunc_div_def sgn_if)
  then show ?thesis using le_div_iff [OF assms(1), of "n + 1" a] by linarith
next
  case False
  have "0 \<le> - a div b" using False assms(1) by (simp add: pos_imp_zdiv_nonneg_iff)
  then have "trunc_div a b \<le> 0" using False by (simp add: trunc_div_def sgn_if)
  moreover have "0 \<le> (n + 1) * b" using assms by simp
  ultimately show ?thesis using False assms(2) by linarith
qed

text \<open>\<open>fileExpired\<close> holds exactly for an existing file whose age is at least one second more than the given
  number of seconds; a missing file never counts as expired.\<close>

theorem fileExpired_iff:
  "fileExpired stat w now path secs \<longleftrightarrow>
     (case stat w (c_str path) of
        None \<Rightarrow> False
      | Some st \<Rightarrow> (uint secs + 1) * 1000000000 \<le> now - (st_mtim_sec st * 1000000000 + st_mtim_nsec st))"
  using trunc_div_greater [of 1000000000 "uint secs"]
  by (auto simp: fileExpired_def Let_def split: option.splits)

text \<open>\<open>daemonizeProcess\<close> makes its system calls in the fixed order, stops at the first that fails, returns 0
  exactly when all of them succeed in the child, and ends the parent process with exit code 0.\<close>

theorem daemonizeProcess_order:
  "prefix (snd (daemonizeProcess sys)) [Fork, Umask 0, Setsid, Chdir ''/'', Close 0, Close 1, Close 2]
   \<and> (fst (daemonizeProcess sys) = Inr 0 \<longleftrightarrow>
        sys Fork = 0 \<and> 0 \<le> sys Setsid \<and> sys (Chdir ''/'') = 0 \<and> sys (Close 0) = 0 \<and> sys (Close 1) = 0 \<and> sys (Close 2) = 0)
   \<and> (fst (daemonizeProcess sys) = Inl (Proc_exit 0) \<longleftrightarrow> 0 < sys Fork)"
  by (auto simp: daemonizeProcess_def)

end
