(* ===== verification/Config.thy ===== *)
theory Config
  imports Utils
begin

text \<open>
  \<open>src/config.cpp\<close>: class \<open>Config\<close>. The JSON library is a parameter: \<open>parse\<close> reads the text of a file, and the
  three accessors convert the value under a key, or throw.
\<close>

record 'j Config =
  etcConfigPath :: string
  localConfigPath :: string
  selectedConfigPath :: string
  mDaemon :: bool
  mLogToConsole :: bool
  mRunFor :: u32
  mRunForever :: bool
  mMaxRss :: u64
  mJson :: 'j

record 'j json_lib =
  parse :: "string \<Rightarrow> 'j res"
  get_bool :: "'j \<Rightarrow> string \<Rightarrow> bool res"
  get_u32 :: "'j \<Rightarrow> string \<Rightarrow> u32 res"
  get_u64 :: "'j \<Rightarrow> string \<Rightarrow> u64 res"

text \<open>The constructor leaves \<open>mMaxRss\<close> uninitialised.\<close>

definition Config_new :: "u64 \<Rightarrow> 'j \<Rightarrow> string \<Rightarrow> string \<Rightarrow> 'j Config" where
  "Config_new junk null etcConfig localConfig =
     \<lparr>etcConfigPath = etcConfig, localConfigPath = localConfig, selectedConfigPath = [], mDaemon = False,
      mLogToConsole = False, mRunFor = 30000, mRunForever = False, mMaxRss = junk, mJson = null\<rparr>"

definition selectConfigFile :: "'w stat_fun \<Rightarrow> 'w \<Rightarrow> 'j Config \<Rightarrow> bool \<times> 'j Config" where
  "selectConfigFile stat w c =
     (if \<not> fileExists stat w (etcConfigPath c) then
        (if \<not> fileExists stat w (localConfigPath c) then (False, c)
         else (True, c\<lparr>selectedConfigPath := localConfigPath c\<rparr>))
      else (True, c\<lparr>selectedConfigPath := etcConfigPath c\<rparr>))"

definition populateConfigValues :: "'j json_lib \<Rightarrow> 'j Config \<Rightarrow> (bool \<times> 'j Config) res" where
  "populateConfigValues J c =
     bindR (get_bool J (mJson c) ''daemon'') (\<lambda>d.
     bindR (get_bool J (mJson c) ''console'') (\<lambda>l.
     bindR (get_u32 J (mJson c) ''run-for'') (\<lambda>r.
     bindR (get_bool J (mJson c) ''run-forever'') (\<lambda>e.
     bindR (get_u64 J (mJson c) ''max-rss'') (\<lambda>m.
       Inr (True, c\<lparr>mDaemon := d, mLogToConsole := l, mRunFor := r, mRunForever := e, mMaxRss := m\<rparr>))))))"

definition Config_init ::
  "'w stat_fun \<Rightarrow> (string \<Rightarrow> string) \<Rightarrow> 'w \<Rightarrow> 'j json_lib \<Rightarrow> 'j Config \<Rightarrow> 'j Config res" where
  "Config_init stat contents w J c =
     (let (ok, c1) = selectConfigFile stat w c in
      if \<not> ok then Inl Proc_terminate
      else
        bindR (parse J (contents (selectedConfigPath c1))) (\<lambda>j.
        bindR (populateConfigValues J (c1\<lparr>mJson := j\<rparr>)) (\<lambda>(ok2, c2).
          if \<not> ok2 then Inl Proc_terminate else Inr c2)))"

definition isDaemon :: "'j Config \<Rightarrow> bool" where "isDaemon c = mDaemon c"
definition getRunFor :: "'j Config \<Rightarrow> u32" where "getRunFor c = mRunFor c"
definition shouldLogToConsole :: "'j Config \<Rightarrow> bool" where "shouldLogToConsole c = mLogToConsole c"
definition shouldRunForever :: "'j Config \<Rightarrow> bool" where "shouldRunForever c = mRunForever c"
definition getMaxRss :: "'j Config \<Rightarrow> u64" where "getMaxRss c = mMaxRss c"

text \<open>\<open>init\<close> reads the system-wide file if it exists, else the local one, and terminates the process exactly when
  neither exists or the JSON library itself terminates it; when it returns, every value is the one the selected file has
  under its key, and when the file lacks a value of the right type, the JSON library's exception is passed on.\<close>

theorem Config_init_spec:
  "Config_init stat contents w J c =
     (if fileExists stat w (etcConfigPath c) \<or> fileExists stat w (localConfigPath c) then
        (let p = (if fileExists stat w (etcConfigPath c) then etcConfigPath c else localConfigPath c) in
         case parse J (contents p) of
           Inl e \<Rightarrow> Inl e
         | Inr j \<Rightarrow>
             (case (get_bool J j ''daemon'', get_bool J j ''console'', get_u32 J j ''run-for'',
                    get_bool J j ''run-forever'', get_u64 J j ''max-rss'') of
                (Inr d, Inr l, Inr r, Inr e, Inr m) \<Rightarrow>
                  Inr \<lparr>etcConfigPath = etcConfigPath c, localConfigPath = localConfigPath c, selectedConfigPath = p,
                       mDaemon = d, mLogToConsole = l, mRunFor = r, mRunForever = e, mMaxRss = m, mJson = j\<rparr>
              | (Inl x, _) \<Rightarrow> Inl x
              | (_, Inl x, _) \<Rightarrow> Inl x
              | (_, _, Inl x, _) \<Rightarrow> Inl x
              | (_, _, _, Inl x, _) \<Rightarrow> Inl x
              | (_, _, _, _, Inl x) \<Rightarrow> Inl x))
      else Inl Proc_terminate)"
  by (auto simp: Config_init_def selectConfigFile_def populateConfigValues_def Let_def split: sum.splits)

end
