(* ===== verification/Semaphore.thy ===== *)
theory Semaphore
  imports CxxPrelude
begin

text \<open>
  \<open>src/semaphore.cpp\<close>: the counting semaphore on a mutex and a condition variable. Every
  operation holds the mutex for its whole body, except while \<open>wait\<close> sleeps on the
  condition, so an operation is one atomic step. A \<open>wait\<close> that finds the count at zero
  does not return: it sleeps and, woken by a \<open>notify_one\<close> or spuriously, looks again; the
  step is \<open>None\<close> until the count is positive. \<open>count_\<close> (here \<open>sem_count\<close>) is an \<open>unsigned long\<close>, so it wraps.
\<close>

section \<open>The code\<close>

record Semaphore =
  sem_count :: u64

definition Semaphore_new :: Semaphore where
  "Semaphore_new = \<lparr>sem_count = 0\<rparr>"

definition Semaphore_notify :: "Semaphore \<Rightarrow> Semaphore" where
  "Semaphore_notify s = s\<lparr>sem_count := sem_count s + 1\<rparr>"

definition Semaphore_wait :: "Semaphore \<Rightarrow> Semaphore option" where
  "Semaphore_wait s = (if sem_count s = 0 then None else Some (s\<lparr>sem_count := sem_count s - 1\<rparr>))"

definition Semaphore_try_wait :: "Semaphore \<Rightarrow> bool \<times> Semaphore" where
  "Semaphore_try_wait s =
     (if sem_count s \<noteq> 0 then (True, s\<lparr>sem_count := sem_count s - 1\<rparr>) else (False, s))"

section \<open>Histories\<close>

text \<open>What the threads using one semaphore did, in the order they held the mutex. A \<open>wait\<close> is
  recorded when it returns.\<close>

datatype sem_event = Notified | Waited | Tried bool

fun sem_run :: "sem_event list \<Rightarrow> Semaphore \<Rightarrow> Semaphore option" where
  "sem_run [] s = Some s"
| "sem_run (Notified # es) s = sem_run es (Semaphore_notify s)"
| "sem_run (Waited # es) s =
     (case Semaphore_wait s of None \<Rightarrow> None | Some s' \<Rightarrow> sem_run es s')"
| "sem_run (Tried r # es) s =
     (let (r', s') = Semaphore_try_wait s in if r' = r then sem_run es s' else None)"

definition sem_ups :: "sem_event list \<Rightarrow> nat" where
  "sem_ups es = length (filter (\<lambda>e. e = Notified) es)"

definition sem_downs :: "sem_event list \<Rightarrow> nat" where
  "sem_downs es = length (filter (\<lambda>e. e = Waited \<or> e = Tried True) es)"

lemma unat_notify:
  "unat (sem_count s) < 2 ^ 64 - 1 \<Longrightarrow> unat (sem_count (Semaphore_notify s)) = Suc (unat (sem_count s))"
  unfolding Semaphore_notify_def by (simp add: unat_word_ariths)

lemma unat_dec: "w \<noteq> 0 \<Longrightarrow> unat (w - 1 :: u64) = unat w - 1"
  by (simp add: unat_minus_one)

lemma unat_wait:
  "Semaphore_wait s = Some s' \<Longrightarrow> unat (sem_count s) = Suc (unat (sem_count s'))"
  by (auto simp: Semaphore_wait_def unat_dec unat_gt_0 split: if_splits)

lemma unat_try_wait:
  "Semaphore_try_wait s = (r, s') \<Longrightarrow> unat (sem_count s) = unat (sem_count s') + (if r then 1 else 0)"
  by (auto simp: Semaphore_try_wait_def unat_dec unat_gt_0 split: if_splits)

lemma sem_run_count:
  "sem_run es s = Some s' \<Longrightarrow> unat (sem_count s) + sem_ups es < 2 ^ 64 \<Longrightarrow>
   unat (sem_count s') + sem_downs es = unat (sem_count s) + sem_ups es"
proof (induction es s rule: sem_run.induct)
  case (2 es s)
  then have "unat (sem_count s) < 2 ^ 64 - 1" by (simp add: sem_ups_def)
  with 2 show ?case by (simp add: sem_ups_def sem_downs_def unat_notify)
next
  case (3 es s)
  then obtain s1 where w: "Semaphore_wait s = Some s1" and run: "sem_run es s1 = Some s'"
    by (auto split: option.splits)
  from "3.IH" [OF w run] "3.prems"(2) unat_wait [OF w] show ?case
    by (simp add: sem_ups_def sem_downs_def)
next
  case (4 r es s)
  obtain r1 s1 where t: "Semaphore_try_wait s = (r1, s1)" by (cases "Semaphore_try_wait s")
  with "4.prems" have r: "r1 = r" and run: "sem_run es s1 = Some s'" by (auto split: if_splits)
  from "4.IH" [OF t [symmetric] refl r run] "4.prems"(2) unat_try_wait [OF t] r show ?case
    by (cases r) (simp_all add: sem_ups_def sem_downs_def)
qed (auto simp: sem_ups_def sem_downs_def)

section \<open>Properties\<close>

text \<open>Conservation. From a fresh semaphore, after any history with fewer than 2 to the 64
  notifications, the count is the number of notifications minus the number of waits that
  got through; in particular no more waits get through than notifications were made.\<close>

theorem Semaphore_conservation:
  assumes "sem_run es Semaphore_new = Some s" and "sem_ups es < 2 ^ 64"
  shows "unat (sem_count s) = sem_ups es - sem_downs es \<and> sem_downs es \<le> sem_ups es"
  using sem_run_count [OF assms(1)] assms(2) by (simp add: Semaphore_new_def)

theorem Semaphore_conservation_witness:
  "\<exists>s. sem_run [Notified, Notified, Waited, Tried True, Tried False] Semaphore_new = Some s \<and> unat (sem_count s) = 0"
proof -
  have run: "sem_run [Notified, Notified, Waited, Tried True, Tried False] Semaphore_new = Some \<lparr>sem_count = 0\<rparr>"
    by (simp add: Semaphore_new_def Semaphore_notify_def Semaphore_wait_def Semaphore_try_wait_def)
  have "sem_ups [Notified, Notified, Waited, Tried True, Tried False] < 2 ^ 64" by (simp add: sem_ups_def)
  from Semaphore_conservation [OF run this] run show ?thesis by (simp add: sem_ups_def sem_downs_def)
qed

text \<open>A notification makes the next wait return and the next \<open>try_wait\<close> succeed, both back in the
  state before the notification, unless the count was at its maximum: there the count wraps
  to zero and the notifications so far are lost.\<close>

theorem Semaphore_notify_wait:
  "(sem_count s \<noteq> - 1 \<longrightarrow> Semaphore_wait (Semaphore_notify s) = Some s \<and>
      Semaphore_try_wait (Semaphore_notify s) = (True, s)) \<and>
   (sem_count s = - 1 \<longrightarrow> Semaphore_wait (Semaphore_notify s) = None)"
proof -
  have "sem_count s + 1 = 0 \<longleftrightarrow> sem_count s = - 1" by (simp add: eq_neg_iff_add_eq_0)
  then show ?thesis
    by (simp add: Semaphore_wait_def Semaphore_try_wait_def Semaphore_notify_def)
qed

theorem Semaphore_notify_wait_witness:
  "Semaphore_wait (Semaphore_notify \<lparr>sem_count = 5\<rparr>) = Some \<lparr>sem_count = 5\<rparr> \<and>
   Semaphore_wait (Semaphore_notify \<lparr>sem_count = - 1\<rparr>) = None"
  using Semaphore_notify_wait [of "\<lparr>sem_count = 5\<rparr>"] Semaphore_notify_wait [of "\<lparr>sem_count = - 1\<rparr>"] by simp

end
