(* ===== verification/JobQueue.thy ===== *)
theory JobQueue
  imports CxxPrelude
begin

text \<open>
  The interface of a queue that producers fill and worker threads empty under one mutex.
  \<open>ThreadPool\<close>, \<open>HttpServer\<close> and \<open>Logger\<close> each have their own copy of such a queue; each
  provides this interface and gets the order and conservation facts proved here once.
\<close>

datatype 'j queue_event = Put 'j | Get

locale job_queue =
  fixes put :: "'j \<Rightarrow> 's \<Rightarrow> 's"
    and get :: "'s \<Rightarrow> ('j \<times> 's) option"
    and contents :: "'s \<Rightarrow> 'j list"
  assumes contents_put: "contents (put j s) = contents s @ [j]"
    and get_None: "get s = None \<longleftrightarrow> contents s = []"
    and get_Some: "get s = Some (j, s') \<Longrightarrow> contents s = j # contents s'"
begin

text \<open>A history of the queue: \<open>Get\<close> on an empty queue blocks, so it hands out nothing.\<close>

fun history :: "'j queue_event list \<Rightarrow> 's \<Rightarrow> 'j list \<times> 's" where
  "history [] s = ([], s)"
| "history (Put j # es) s = history es (put j s)"
| "history (Get # es) s =
     (case get s of
        None \<Rightarrow> history es s
      | Some (j, s') \<Rightarrow> (let (out, s'') = history es s' in (j # out, s'')))"

fun puts :: "'j queue_event list \<Rightarrow> 'j list" where
  "puts [] = []"
| "puts (Put j # es) = j # puts es"
| "puts (Get # es) = puts es"

lemma fifo: "history es s = (out, s') \<Longrightarrow> out @ contents s' = contents s @ puts es"
proof (induction es s arbitrary: out s' rule: history.induct)
  case (2 j es s)
  then show ?case by (simp add: contents_put)
next
  case (3 es s)
  then show ?case
    by (fastforce simp: get_None dest: get_Some split: option.splits prod.splits)
qed simp

lemma history_total: "\<exists>out s'. history es s = (out, s')"
  by (cases "history es s") auto

lemma drained_in_order:
  assumes "contents s = []" and "history es s = (out, s')" and "contents s' = []"
  shows "out = puts es"
  using fifo [OF assms(2)] assms by simp

lemma never_invented:
  assumes "contents s = []" and "history es s = (out, s')"
  shows "\<exists>rest. puts es = out @ rest \<and> rest = contents s'"
  using fifo [OF assms(2)] assms(1) by simp

end

section \<open>Counting in lists of workers\<close>

lemma count_update:
  "i < length xs \<Longrightarrow>
   length (filter P (xs[i := x])) + (if P (xs ! i) then 1 else 0) =
   length (filter P xs) + (if P x then 1 else 0)"
proof (induction xs arbitrary: i)
  case (Cons y ys)
  then show ?case by (cases i) (auto simp: less_Suc_eq_0_disj)
qed simp

end
