(* ===== verification/StepSystem.thy ===== *)
theory StepSystem
  imports Main
begin

text \<open>
  The contracts of a step relation that the concurrent components share: the steps keep an invariant
  (\<open>guarded_steps\<close>), and the steps a component takes by itself also bring a weight down (\<open>winding_down\<close>), so that it
  comes to rest. \<open>ThreadPool\<close>, \<open>Logger\<close>, \<open>EventLoop\<close>, \<open>ServerRun\<close>, \<open>ClientRun\<close> and \<open>ClientEnd\<close> interpret them on their own step relations.
\<close>

locale guarded_steps =
  fixes step :: "'s \<Rightarrow> 's \<Rightarrow> bool"
    and inv :: "'s \<Rightarrow> bool"
  assumes keeps: "step s s' \<Longrightarrow> inv s \<Longrightarrow> inv s'"
begin

lemma run_keeps: "step\<^sup>*\<^sup>* s s' \<Longrightarrow> inv s \<Longrightarrow> inv s'"
  by (induction rule: rtranclp_induct) (auto intro: keeps)

lemma steps_keep: "(step ^^ n) s s' \<Longrightarrow> inv s \<Longrightarrow> inv s'"
  using run_keeps relpowp_imp_rtranclp by metis

end

locale winding_down = guarded_steps +
  fixes weight :: "'s \<Rightarrow> nat"
  assumes decreases: "step s s' \<Longrightarrow> inv s \<Longrightarrow> weight s' < weight s"
begin

lemma steps_bounded: "(step ^^ n) s s' \<Longrightarrow> inv s \<Longrightarrow> n + weight s' \<le> weight s"
proof (induction n arbitrary: s')
  case (Suc n)
  then obtain u where u: "(step ^^ n) s u" "step u s'" by auto
  then have "weight s' < weight u" using decreases steps_keep Suc.prems(2) by blast
  then show ?case using Suc.IH [OF u(1) Suc.prems(2)] by simp
qed simp

lemma comes_to_rest: "inv s \<Longrightarrow> \<exists>s'. step\<^sup>*\<^sup>* s s' \<and> inv s' \<and> (\<nexists>u. step s' u)"
proof (induction "weight s" arbitrary: s rule: less_induct)
  case less
  show ?case
  proof (cases "\<exists>u. step s u")
    case True
    then obtain u where u: "step s u" by blast
    then obtain s' where "step\<^sup>*\<^sup>* u s'" "inv s'" "\<nexists>u. step s' u"
      using less.hyps [of u] decreases keeps less.prems by blast
    then show ?thesis using u by (metis converse_rtranclp_into_rtranclp)
  qed (use less.prems in blast)
qed

end

end
