(* ===== verification/ThreadPool.thy ===== *)
theory ThreadPool
  imports Semaphore JobQueue "HOL-Library.Multiset" StepSystem
begin

text \<open>
  \<open>src/thread-job.cpp\<close>, \<open>src/thread.cpp\<close> and \<open>src/thread-pool.cpp\<close>: jobs, a worker thread and
  the pool. Each operation is a definition on the records of the classes; what the threads
  do concurrently is the step relation \<open>pool_step\<close>, whose rules are the stretches of code
  between two points where another thread can be observed (a mutex or a semaphore).

  A routine is a value of type \<open>'r\<close> (the function pointer), an argument a number (the
  pointer). Running a job is recorded in the ghost field \<open>hRan\<close>; \<open>hAdded\<close> and \<open>hTaken\<close>
  record the jobs in the order they entered and left the queue.
\<close>

section \<open>class ThreadJobBase and its subclasses\<close>

record 'r ThreadJobBase =
  routine :: "'r option"
  arg :: "nat option"
  exit :: bool

text \<open>The constructor also counts the jobs in the static atomic \<open>counter\<close>, which it passes on.\<close>

definition ThreadJobBase_new :: "'r option \<Rightarrow> nat option \<Rightarrow> bool \<Rightarrow> u64 \<Rightarrow> 'r ThreadJobBase \<times> u64" where
  "ThreadJobBase_new r a e counter = (\<lparr>routine = r, arg = a, exit = e\<rparr>, counter + 1)"

definition ThreadJobBase_delete :: "'r ThreadJobBase \<Rightarrow> 'r ThreadJobBase" where
  "ThreadJobBase_delete j = j\<lparr>routine := None, arg := None\<rparr>"

definition ThreadJob_new :: "'r option \<Rightarrow> nat option \<Rightarrow> u64 \<Rightarrow> 'r ThreadJobBase \<times> u64" where
  "ThreadJob_new r a counter = ThreadJobBase_new r a False counter"

definition ThreadExitJob_new :: "u64 \<Rightarrow> 'r ThreadJobBase \<times> u64" where
  "ThreadExitJob_new counter = ThreadJobBase_new None None True counter"

definition isExit :: "'r ThreadJobBase \<Rightarrow> bool" where
  "isExit j = exit j"

section \<open>class Thread\<close>

text \<open>Where a worker is: not started; between \<open>new std::thread\<close> and the notification of its
  start; about to ask for a job; asleep in \<open>mCondition.wait\<close>; inside the routine of a job;
  past the loop; past the last notification.\<close>

datatype 'j pc = Unstarted | Initialising | Fetching | Sleeping | Running 'j | Exiting | Exited

text \<open>The handle \<open>std::thread\<close>: it stands for a running thread with its identifier, or for none after \<open>detach\<close>.\<close>

datatype std_thread = Joinable nat | Detached

record ('r, 'c) Thread =
  mThread :: "std_thread option"
  mBase :: bool
  mEventBase :: bool
  mSemaphore :: Semaphore
  mInitCbk :: "('c \<Rightarrow> 'c) option"
  mDeInitCbk :: "('c \<Rightarrow> 'c) option"
  pc :: "'r ThreadJobBase pc"
  startReturned :: bool
  deleteReturned :: bool

definition Thread_new_cbk :: "bool \<Rightarrow> ('c \<Rightarrow> 'c) option \<Rightarrow> ('c \<Rightarrow> 'c) option \<Rightarrow> ('r, 'c) Thread" where
  "Thread_new_cbk base initCbk deinitCbk =
     \<lparr>mThread = None, mBase = base, mEventBase = False, mSemaphore = Semaphore_new, mInitCbk = initCbk,
      mDeInitCbk = deinitCbk, pc = Unstarted, startReturned = False, deleteReturned = False\<rparr>"

definition Thread_new_base :: "bool \<Rightarrow> ('r, 'c) Thread" where
  "Thread_new_base base = Thread_new_cbk base None None"

definition Thread_new :: "('r, 'c) Thread" where
  "Thread_new = Thread_new_base False"

text \<open>\<open>getId\<close>: a handle without a thread has the default identifier (\<open>None\<close>).\<close>

definition Thread_getId :: "('r, 'c) Thread \<Rightarrow> nat option res" where
  "Thread_getId t =
     (case mThread t of
        None \<Rightarrow> Inl UB_null_deref
      | Some (Joinable i) \<Rightarrow> Inr (Some i)
      | Some Detached \<Rightarrow> Inr None)"

text \<open>\<open>join\<close>: the call blocks (\<open>None\<close>) on a joinable handle, and returns at once on another.\<close>

definition Thread_join :: "('r, 'c) Thread \<Rightarrow> ('r, 'c) Thread option res" where
  "Thread_join t =
     (case mThread t of
        None \<Rightarrow> Inl UB_null_deref
      | Some (Joinable i) \<Rightarrow> Inr None
      | Some Detached \<Rightarrow> Inr (Some t))"

definition Thread_getEventBase :: "('r, 'c) Thread \<Rightarrow> bool" where
  "Thread_getEventBase t = mEventBase t"

text \<open>\<open>start\<close>: launch the thread, which the system gives the identifier \<open>i\<close>, and return when it has notified. A worker
  cannot have got an exit command before the member is assigned, as the object is not shared yet.\<close>

definition Thread_start :: "nat \<Rightarrow> ('r, 'c) Thread \<Rightarrow> ('r, 'c) Thread" where
  "Thread_start i t = t\<lparr>mThread := Some (Joinable i), pc := Initialising\<rparr>"

definition Thread_start_wait :: "('r, 'c) Thread \<Rightarrow> ('r, 'c) Thread option" where
  "Thread_start_wait t =
     map_option (\<lambda>sem. t\<lparr>mSemaphore := sem, startReturned := True\<rparr>) (Semaphore_wait (mSemaphore t))"

text \<open>\<open>run\<close> up to its first notification.\<close>

definition Thread_run_begin :: "('r, 'c) Thread \<Rightarrow> 'c \<Rightarrow> ('r, 'c) Thread \<times> 'c" where
  "Thread_run_begin t c =
     (let t1 = t\<lparr>mEventBase := (if True = mBase t then True else False)\<rparr>;
          c1 = (case mInitCbk t1 of None \<Rightarrow> c | Some f \<Rightarrow> f c)
      in (t1\<lparr>mSemaphore := Semaphore_notify (mSemaphore t1), pc := Fetching\<rparr>, c1))"

text \<open>One turn of the loop of \<open>run\<close>: the job is an exit command, or it is run.\<close>

definition Thread_run_got :: "'r ThreadJobBase \<Rightarrow> ('r, 'c) Thread \<Rightarrow> ('r, 'c) Thread" where
  "Thread_run_got job t = (if isExit job then t\<lparr>pc := Exiting\<rparr> else t\<lparr>pc := Running job\<rparr>)"

text \<open>\<open>runJob\<close>: what the routine is called with, if there is one.\<close>

definition Thread_runJob :: "'r ThreadJobBase \<Rightarrow> ('r, 'c) Thread \<Rightarrow> ('r \<times> nat option \<times> bool) list" where
  "Thread_runJob job t = (case routine job of None \<Rightarrow> [] | Some r \<Rightarrow> [(r, arg job, mEventBase t)])"

text \<open>\<open>run\<close> after its loop. \<open>detach\<close> throws on a handle that is not joinable, which nobody catches.\<close>

definition Thread_run_end :: "('r, 'c) Thread \<Rightarrow> 'c \<Rightarrow> (('r, 'c) Thread \<times> 'c) res" where
  "Thread_run_end t c =
     (let c1 = (case mDeInitCbk t of None \<Rightarrow> c | Some f \<Rightarrow> f c);
          t1 = (if mEventBase t then t\<lparr>mEventBase := False\<rparr> else t)
      in case mThread t1 of
           None \<Rightarrow> Inl UB_null_deref
         | Some Detached \<Rightarrow> Inl Proc_terminate
         | Some (Joinable i) \<Rightarrow>
             Inr (t1\<lparr>mThread := Some Detached, mSemaphore := Semaphore_notify (mSemaphore t1), pc := Exited\<rparr>, c1))"

text \<open>The destructor reads the identifier, waits for the exit notification (\<open>None\<close> while it does) and deletes the
  handle; deleting a joinable handle ends the program.\<close>

definition Thread_delete :: "('r, 'c) Thread \<Rightarrow> ('r, 'c) Thread option res" where
  "Thread_delete t =
     bindR (Thread_getId t) (\<lambda>i.
       case Semaphore_wait (mSemaphore t) of
         None \<Rightarrow> Inr None
       | Some sem \<Rightarrow>
           (case mThread t of
              Some (Joinable k) \<Rightarrow> Inl Proc_terminate
            | _ \<Rightarrow> Inr (Some (t\<lparr>mThread := None, mSemaphore := sem, deleteReturned := True\<rparr>))))"

section \<open>class ThreadPool\<close>

record ('r, 'c) ThreadPool =
  mJobQueue :: "'r ThreadJobBase list"
  mThreads :: "('r, 'c) Thread list"
  uiCount :: u32
  poolBase :: bool

text \<open>\<open>createThreads\<close> creates and starts the threads one after the other; that each is waited for
  is a step of its own below.\<close>

definition ThreadPool_createThreads :: "('r, 'c) ThreadPool \<Rightarrow> ('r, 'c) ThreadPool" where
  "ThreadPool_createThreads p =
     p\<lparr>mThreads := mThreads p @ map (\<lambda>_. Thread_new_base (poolBase p)) [0..<unat (uiCount p)]\<rparr>"

definition ThreadPool_new_base :: "u32 \<Rightarrow> bool \<Rightarrow> ('r, 'c) ThreadPool" where
  "ThreadPool_new_base n base =
     ThreadPool_createThreads \<lparr>mJobQueue = [], mThreads = [], uiCount = n, poolBase = base\<rparr>"

definition ThreadPool_new :: "u32 \<Rightarrow> ('r, 'c) ThreadPool" where
  "ThreadPool_new n = ThreadPool_new_base n False"

definition ThreadPool_addJob :: "'r ThreadJobBase \<Rightarrow> ('r, 'c, 'z) ThreadPool_scheme \<Rightarrow> ('r, 'c, 'z) ThreadPool_scheme" where
  "ThreadPool_addJob job p = p\<lparr>mJobQueue := mJobQueue p @ [job]\<rparr>"

text \<open>One pass of the loop of \<open>threadGetNextJob_\<close>: \<open>None\<close> means it waits on the condition.\<close>

definition ThreadPool_threadGetNextJob ::
  "('r, 'c, 'z) ThreadPool_scheme \<Rightarrow> ('r ThreadJobBase \<times> ('r, 'c, 'z) ThreadPool_scheme) option" where
  "ThreadPool_threadGetNextJob p =
     (case mJobQueue p of
        job # jobs \<Rightarrow> Some (job, p\<lparr>mJobQueue := jobs\<rparr>)
      | [] \<Rightarrow> None)"

definition ThreadPool_getThreads :: "('r, 'c) ThreadPool \<Rightarrow> ('r, 'c) Thread list" where
  "ThreadPool_getThreads p = mThreads p"

text \<open>The first loop of the destructor: one exit job per thread.\<close>

definition ThreadPool_delete_jobs :: "('r, 'c, 'z) ThreadPool_scheme \<Rightarrow> ('r, 'c, 'z) ThreadPool_scheme" where
  "ThreadPool_delete_jobs p =
     fold (\<lambda>_. ThreadPool_addJob (fst (ThreadExitJob_new 0))) [0..<unat (uiCount p)] p"

interpretation pool_queue: job_queue ThreadPool_addJob ThreadPool_threadGetNextJob mJobQueue
  by unfold_locales
     (auto simp: ThreadPool_addJob_def ThreadPool_threadGetNextJob_def split: list.splits)

section \<open>Concurrent runs\<close>

record ('r, 'c) pool_run = "('r, 'c) ThreadPool" +
  cstate :: 'c
  hAdded :: "'r ThreadJobBase list"
  hTaken :: "'r ThreadJobBase list"
  hRan :: "'r ThreadJobBase list"
  hCalls :: "('r \<times> nat option \<times> bool) list"

definition setThread :: "nat \<Rightarrow> ('r, 'c) Thread \<Rightarrow> ('r, 'c) pool_run \<Rightarrow> ('r, 'c) pool_run" where
  "setThread i t s = s\<lparr>mThreads := (mThreads s)[i := t]\<rparr>"

text \<open>\<open>notify_one\<close> wakes one sleeping thread, any of them, if there is one.\<close>

definition notify_one :: "('r, 'c) Thread list \<Rightarrow> ('r, 'c) Thread list \<Rightarrow> bool" where
  "notify_one ts ts' \<longleftrightarrow>
     (if \<exists>t \<in> set ts. pc t = Sleeping
      then \<exists>i < length ts. pc (ts ! i) = Sleeping \<and> ts' = ts[i := (ts ! i)\<lparr>pc := Fetching\<rparr>]
      else ts' = ts)"

text \<open>The steps a pool takes by itself (\<open>pool_work\<close>), and all its steps: a client adds a job, or a
  worker returns from the wait without having been notified.\<close>

inductive pool_work :: "('r, 'c) pool_run \<Rightarrow> ('r, 'c) pool_run \<Rightarrow> bool" where
  start: "i < length (mThreads s) \<Longrightarrow> pc (mThreads s ! i) = Unstarted \<Longrightarrow>
     \<forall>m < i. startReturned (mThreads s ! m) \<Longrightarrow>
     pool_work s (setThread i (Thread_start k (mThreads s ! i)) s)"
| run_begin: "i < length (mThreads s) \<Longrightarrow> pc (mThreads s ! i) = Initialising \<Longrightarrow>
     Thread_run_begin (mThreads s ! i) (cstate s) = (t, c) \<Longrightarrow>
     pool_work s (setThread i t s\<lparr>cstate := c\<rparr>)"
| started: "i < length (mThreads s) \<Longrightarrow> pc (mThreads s ! i) \<noteq> Unstarted \<Longrightarrow>
     \<not> startReturned (mThreads s ! i) \<Longrightarrow>
     Thread_start_wait (mThreads s ! i) = Some t \<Longrightarrow> pool_work s (setThread i t s)"
| fetch: "i < length (mThreads s) \<Longrightarrow> pc (mThreads s ! i) = Fetching \<Longrightarrow>
     ThreadPool_threadGetNextJob s = Some (j, s') \<Longrightarrow>
     pool_work s (setThread i (Thread_run_got j (mThreads s ! i)) s'\<lparr>hTaken := hTaken s @ [j]\<rparr>)"
| sleep: "i < length (mThreads s) \<Longrightarrow> pc (mThreads s ! i) = Fetching \<Longrightarrow>
     ThreadPool_threadGetNextJob s = None \<Longrightarrow>
     pool_work s (setThread i ((mThreads s ! i)\<lparr>pc := Sleeping\<rparr>) s)"
| run_job: "i < length (mThreads s) \<Longrightarrow> pc (mThreads s ! i) = Running j \<Longrightarrow>
     pool_work s (setThread i ((mThreads s ! i)\<lparr>pc := Fetching\<rparr>) s
       \<lparr>hRan := hRan s @ [j], hCalls := hCalls s @ Thread_runJob j (mThreads s ! i)\<rparr>)"
| run_end: "i < length (mThreads s) \<Longrightarrow> pc (mThreads s ! i) = Exiting \<Longrightarrow>
     Thread_run_end (mThreads s ! i) (cstate s) = Inr (t, c) \<Longrightarrow>
     pool_work s (setThread i t s\<lparr>cstate := c\<rparr>)"
| deleted: "i < length (mThreads s) \<Longrightarrow> startReturned (mThreads s ! i) \<Longrightarrow>
     \<not> deleteReturned (mThreads s ! i) \<Longrightarrow> \<forall>k < i. deleteReturned (mThreads s ! k) \<Longrightarrow>
     Thread_delete (mThreads s ! i) = Inr (Some t) \<Longrightarrow> pool_work s (setThread i t s)"

inductive pool_step :: "('r, 'c) pool_run \<Rightarrow> ('r, 'c) pool_run \<Rightarrow> bool" where
  add_job: "notify_one (mThreads s) ts \<Longrightarrow>
     pool_step s ((ThreadPool_addJob j s)\<lparr>mThreads := ts, hAdded := hAdded s @ [j]\<rparr>)"
| spurious: "i < length (mThreads s) \<Longrightarrow> pc (mThreads s ! i) = Sleeping \<Longrightarrow>
     pool_step s (setThread i ((mThreads s ! i)\<lparr>pc := Fetching\<rparr>) s)"
| work: "pool_work s s' \<Longrightarrow> pool_step s s'"

definition pool_init :: "u32 \<Rightarrow> bool \<Rightarrow> 'c \<Rightarrow> ('r, 'c) pool_run" where
  "pool_init n base c =
     (let p = ThreadPool_new_base n base in
      \<lparr>mJobQueue = mJobQueue p, mThreads = mThreads p, uiCount = uiCount p, poolBase = poolBase p,
       cstate = c, hAdded = [], hTaken = [], hRan = [], hCalls = []\<rparr>)"

inductive pool_reachable :: "('r, 'c) pool_run \<Rightarrow> bool" where
  init: "pool_reachable (pool_init n base c)"
| step: "pool_reachable s \<Longrightarrow> pool_step s s' \<Longrightarrow> pool_reachable s'"

section \<open>Invariants\<close>

lemmas handshake_defs = Thread_start_def Thread_start_wait_def Thread_run_begin_def Thread_run_got_def Let_def

lemmas thread_defs = handshake_defs Thread_run_end_def Thread_delete_def Thread_getId_def Let_def

lemmas pool_defs = ThreadPool_addJob_def ThreadPool_threadGetNextJob_def setThread_def

text \<open>A worker and its semaphore: a notification is pending exactly between the worker's start or
  exit and the return of \<open>start\<close> or of the destructor; the event base exists exactly while
  the worker is in its loop; and the handle is joinable from the launch to the exit.\<close>

definition begun :: "('r, 'c) Thread \<Rightarrow> bool" where
  "begun t \<longleftrightarrow> pc t \<noteq> Unstarted \<and> pc t \<noteq> Initialising"

fun handle_ok :: "std_thread option \<Rightarrow> 'j pc \<Rightarrow> bool \<Rightarrow> bool" where
  "handle_ok None q deleted \<longleftrightarrow> q = Unstarted \<or> deleted"
| "handle_ok (Some (Joinable i)) q deleted \<longleftrightarrow> q \<noteq> Unstarted \<and> q \<noteq> Exited"
| "handle_ok (Some Detached) q deleted \<longleftrightarrow> q = Exited \<and> \<not> deleted"

definition thread_ok :: "('r, 'c) Thread \<Rightarrow> bool" where
  "thread_ok t \<longleftrightarrow>
     sem_count (mSemaphore t) =
       (if begun t \<and> \<not> startReturned t then 1 else 0) + (if pc t = Exited \<and> \<not> deleteReturned t then 1 else 0) \<and>
     (startReturned t \<longrightarrow> begun t) \<and> (deleteReturned t \<longrightarrow> pc t = Exited) \<and>
     mEventBase t = (mBase t \<and> begun t \<and> pc t \<noteq> Exited) \<and>
     handle_ok (mThread t) (pc t) (deleteReturned t)"

definition held :: "('r, 'c) Thread \<Rightarrow> 'r ThreadJobBase list" where
  "held t = (case pc t of Running j \<Rightarrow> [j] | _ \<Rightarrow> [])"

definition gone :: "('r, 'c) Thread \<Rightarrow> bool" where
  "gone t \<longleftrightarrow> pc t = Exiting \<or> pc t = Exited"

definition asleep :: "('r, 'c) Thread \<Rightarrow> bool" where
  "asleep t \<longleftrightarrow> pc t = Sleeping"

definition fetching :: "('r, 'c) Thread \<Rightarrow> bool" where
  "fetching t \<longleftrightarrow> pc t = Fetching"

lemma handle_cases [simp]:
  "handle_ok h Unstarted False \<longleftrightarrow> h = None"
  "q \<noteq> Unstarted \<Longrightarrow> q \<noteq> Exited \<Longrightarrow> handle_ok h q False \<longleftrightarrow> (\<exists>i. h = Some (Joinable i))"
  "handle_ok h Exited d \<longleftrightarrow> h = (if d then None else Some Detached)"
  by (cases "(h, q, d)" rule: handle_ok.cases; simp)+

lemma thread_ok_new: "thread_ok (Thread_new_base b)"
  by (simp add: thread_ok_def Thread_new_base_def Thread_new_cbk_def Semaphore_new_def begun_def)

lemma thread_ok_start: "thread_ok t \<Longrightarrow> pc t = Unstarted \<Longrightarrow> thread_ok (Thread_start k t)"
  by (auto simp: thread_ok_def thread_defs begun_def)

lemma thread_ok_begin:
  "thread_ok t \<Longrightarrow> pc t = Initialising \<Longrightarrow> Thread_run_begin t c = (t', c') \<Longrightarrow> thread_ok t'"
  by (auto simp: thread_ok_def thread_defs begun_def Semaphore_notify_def split: if_splits)

lemma thread_ok_started:
  "thread_ok t \<Longrightarrow> \<not> startReturned t \<Longrightarrow> Thread_start_wait t = Some t' \<Longrightarrow> thread_ok t'"
  by (auto simp: thread_ok_def thread_defs begun_def Semaphore_wait_def split: if_splits)

lemma thread_ok_got: "thread_ok t \<Longrightarrow> pc t = Fetching \<Longrightarrow> thread_ok (Thread_run_got j t)"
  by (auto simp: thread_ok_def thread_defs begun_def)

lemma thread_ok_move:
  "thread_ok t \<Longrightarrow> begun t \<Longrightarrow> pc t \<noteq> Exited \<Longrightarrow> q = Sleeping \<or> q = Fetching \<Longrightarrow> thread_ok (t\<lparr>pc := q\<rparr>)"
  by (auto simp: thread_ok_def begun_def)

lemma thread_ok_end:
  "thread_ok t \<Longrightarrow> pc t = Exiting \<Longrightarrow> Thread_run_end t c = Inr (t', c') \<Longrightarrow> thread_ok t'"
  by (auto simp: thread_ok_def thread_defs begun_def Semaphore_notify_def split: option.splits std_thread.splits)

lemma thread_ok_deleted:
  "thread_ok t \<Longrightarrow> startReturned t \<Longrightarrow> \<not> deleteReturned t \<Longrightarrow> Thread_delete t = Inr (Some t') \<Longrightarrow> thread_ok t'"
  by (auto simp: thread_ok_def thread_defs begun_def Semaphore_wait_def split: if_splits option.splits std_thread.splits)

lemma thread_ok_delete_returns:
  assumes "thread_ok t" and "startReturned t" and "\<not> deleteReturned t"
  shows "\<exists>u. Thread_delete t = Inr u \<and> (u \<noteq> None \<longleftrightarrow> pc t = Exited)"
    and "Thread_join t = Inr (if pc t = Exited then Some t else None)"
  using assms by (auto simp: thread_ok_def begun_def thread_defs Thread_join_def Semaphore_wait_def)

lemma thread_ok_detaches: "thread_ok t \<Longrightarrow> pc t = Exiting \<Longrightarrow> \<exists>u d. Thread_run_end t c = Inr (u, d)"
  by (auto simp: thread_ok_def begun_def thread_defs)

lemma thread_ok_facts:
  assumes "thread_ok t"
  shows "(startReturned t \<longrightarrow> pc t \<noteq> Unstarted \<and> pc t \<noteq> Initialising)
    \<and> (startReturned t \<and> pc t \<noteq> Exited \<longrightarrow> mEventBase t = mBase t)
    \<and> (deleteReturned t \<longrightarrow> pc t = Exited \<and> \<not> mEventBase t)
    \<and> (startReturned t \<longrightarrow> sem_count (mSemaphore t) = (if pc t = Exited \<and> \<not> deleteReturned t then 1 else 0))"
  using assms by (auto simp: thread_ok_def begun_def)

lemmas thread_ok_intros = thread_ok_start thread_ok_begin thread_ok_started thread_ok_got thread_ok_end
  thread_ok_deleted

text \<open>The two operations that depend on the handle, when they succeed.\<close>

lemma delete_Some:
  "Thread_delete t = Inr (Some t') \<longleftrightarrow>
     mThread t = Some Detached \<and> (\<exists>sem. Semaphore_wait (mSemaphore t) = Some sem
       \<and> t' = t\<lparr>mThread := None, mSemaphore := sem, deleteReturned := True\<rparr>)"
  by (auto simp: Thread_delete_def Thread_getId_def split: option.splits std_thread.splits)

lemma run_end_Inr:
  assumes "Thread_run_end t c = Inr (t', c')"
  shows "t' = t\<lparr>mEventBase := False, mThread := Some Detached, mSemaphore := Semaphore_notify (mSemaphore t), pc := Exited\<rparr>"
  using assms by (cases "mEventBase t") (auto simp: Thread_run_end_def Let_def split: option.splits std_thread.splits)

text \<open>What every operation keeps of the position of a worker.\<close>

lemma pc_ops:
  "pc (Thread_start k t) = Initialising"
  "Thread_run_begin t c = (t', c') \<Longrightarrow> pc t' = Fetching"
  "Thread_start_wait t = Some t' \<Longrightarrow> pc t' = pc t"
  "pc (Thread_run_got j t) = (if isExit j then Exiting else Running j)"
  "Thread_run_end t c = Inr (t', c') \<Longrightarrow> pc t' = Exited"
  "Thread_delete t = Inr (Some t') \<Longrightarrow> pc t' = pc t"
  by (auto simp: handshake_defs delete_Some dest: run_end_Inr)

lemma mBase_ops:
  "mBase (Thread_start k t) = mBase t"
  "Thread_run_begin t c = (t', c') \<Longrightarrow> mBase t' = mBase t"
  "Thread_start_wait t = Some t' \<Longrightarrow> mBase t' = mBase t"
  "mBase (Thread_run_got j t) = mBase t"
  "Thread_run_end t c = Inr (t', c') \<Longrightarrow> mBase t' = mBase t"
  "Thread_delete t = Inr (Some t') \<Longrightarrow> mBase t' = mBase t"
  by (auto simp: handshake_defs delete_Some dest: run_end_Inr split: if_splits)

lemma mBase_new [simp]: "mBase (Thread_new_base b) = b"
  by (simp add: Thread_new_base_def Thread_new_cbk_def)

lemma update_all:
  "\<forall>u \<in> set xs. P u \<Longrightarrow> P x \<Longrightarrow> \<forall>u \<in> set (xs[i := x]). P u"
  using set_update_subset_insert [of xs i x] by auto

lemma notify_one_cases:
  assumes "notify_one ts ts'"
  obtains (none) "\<forall>t \<in> set ts. pc t \<noteq> Sleeping" "ts' = ts"
  | (one) i where "i < length ts" "pc (ts ! i) = Sleeping" "ts' = ts[i := (ts ! i)\<lparr>pc := Fetching\<rparr>]"
  using assms by (auto simp: notify_one_def split: if_splits)

lemma held_update:
  "i < length ts \<Longrightarrow>
   mset (concat (map held (ts[i := t]))) + mset (held (ts ! i)) = mset (concat (map held ts)) + mset (held t)"
proof (induction ts arbitrary: i)
  case (Cons u ts)
  then show ?case by (cases i) (auto simp: ac_simps)
qed simp

text \<open>The call a job makes in a pool with the given event-base setting.\<close>

definition call_of :: "bool \<Rightarrow> 'r ThreadJobBase \<Rightarrow> ('r \<times> nat option \<times> bool) list" where
  "call_of base j = (case routine j of None \<Rightarrow> [] | Some r \<Rightarrow> [(r, arg j, base)])"

lemma runJob_call: "thread_ok t \<Longrightarrow> pc t = Running j \<Longrightarrow> Thread_runJob j t = call_of (mBase t) j"
  by (simp add: Thread_runJob_def call_of_def thread_ok_def begun_def split: option.splits)

definition pool_inv :: "('r, 'c) pool_run \<Rightarrow> bool" where
  "pool_inv s \<longleftrightarrow>
     hAdded s = hTaken s @ mJobQueue s \<and>
     (\<forall>t \<in> set (mThreads s). thread_ok t) \<and>
     ((\<exists>t \<in> set (mThreads s). asleep t) \<longrightarrow> length (mJobQueue s) \<le> length (filter fetching (mThreads s))) \<and>
     mset (hRan s) + mset (concat (map held (mThreads s))) = mset (filter (\<lambda>j. \<not> isExit j) (hTaken s)) \<and>
     length (filter isExit (hTaken s)) = length (filter gone (mThreads s)) \<and>
     (\<forall>t \<in> set (mThreads s). mBase t = poolBase s) \<and>
     hCalls s = concat (map (call_of (poolBase s)) (hRan s))"

lemma pc_new [simp]: "pc (Thread_new_base b) = Unstarted"
  by (simp add: Thread_new_base_def Thread_new_cbk_def)

lemma pool_init_simps [simp]:
  "mJobQueue (pool_init n base c) = []" "hAdded (pool_init n base c) = []"
  "hTaken (pool_init n base c) = []" "hRan (pool_init n base c) = []"
  "hCalls (pool_init n base c) = []" "poolBase (pool_init n base c) = base"
  "mThreads (pool_init n base c) = map (\<lambda>_. Thread_new_base base) [0..<unat n]"
  by (simp_all add: pool_init_def ThreadPool_new_base_def ThreadPool_createThreads_def Let_def)

lemma pool_inv_init: "pool_inv (pool_init n base c)"
proof -
  have "concat (map held (map (\<lambda>_. Thread_new_base base) [0..<unat n])) = []"
    by (simp add: held_def)
  then show ?thesis
    by (simp add: pool_inv_def thread_ok_new asleep_def gone_def filter_empty_conv)
qed

text \<open>One worker moves and the queue stays: the invariant needs only the worker's own facts.\<close>

lemma pool_inv_move:
  assumes inv: "pool_inv s" and i: "i < length (mThreads s)" and ok: "thread_ok t"
    and base: "mBase t = mBase (mThreads s ! i)"
    and held: "held t = held (mThreads s ! i)" and gone: "gone t = gone (mThreads s ! i)"
    and sleep: "asleep t \<longrightarrow> asleep (mThreads s ! i) \<or> mJobQueue s = []"
    and fetch: "fetching (mThreads s ! i) \<longrightarrow> fetching t \<or> mJobQueue s = []"
  shows "pool_inv (setThread i t s\<lparr>cstate := c\<rparr>)"
proof -
  have "length (mJobQueue s) \<le> length (filter fetching ((mThreads s)[i := t]))"
    if "\<exists>u \<in> set ((mThreads s)[i := t]). asleep u"
  proof (cases "mJobQueue s = []")
    case False
    from that have "\<exists>u \<in> set (mThreads s). asleep u"
      using sleep False i set_update_subset_insert [of "mThreads s" i t] by (auto dest: nth_mem)
    with inv have "length (mJobQueue s) \<le> length (filter fetching (mThreads s))" by (simp add: pool_inv_def)
    also have "\<dots> \<le> length (filter fetching ((mThreads s)[i := t]))"
      using count_update [OF i, of fetching t] fetch False by (auto split: if_splits)
    finally show ?thesis .
  qed simp
  moreover have "\<forall>u \<in> set ((mThreads s)[i := t]). thread_ok u"
    using inv ok by (intro update_all) (auto simp: pool_inv_def)
  moreover have "\<forall>u \<in> set ((mThreads s)[i := t]). mBase u = poolBase s"
    using inv i base by (intro update_all) (auto simp: pool_inv_def)
  moreover have "length (filter gone ((mThreads s)[i := t])) = length (filter gone (mThreads s))"
    using count_update [OF i, of gone t] gone by (auto split: if_splits)
  moreover have "mset (concat (map held ((mThreads s)[i := t]))) = mset (concat (map held (mThreads s)))"
    using held_update [OF i, of t] held by simp
  ultimately show ?thesis
    using inv by (simp add: pool_inv_def setThread_def)
qed

lemma pool_inv_setThread:
  "pool_inv (setThread i t s\<lparr>cstate := cstate s\<rparr>) \<Longrightarrow> pool_inv (setThread i t s)"
  by (simp add: pool_inv_def setThread_def)

lemma pool_inv_add:
  assumes inv: "pool_inv s" and n: "notify_one (mThreads s) ts"
  shows "pool_inv ((ThreadPool_addJob j s)\<lparr>mThreads := ts, hAdded := hAdded s @ [j]\<rparr>)"
  using n
proof (cases rule: notify_one_cases)
  case none
  then show ?thesis using inv by (auto simp: pool_inv_def ThreadPool_addJob_def asleep_def)
next
  case (one i)
  have "thread_ok (mThreads s ! i)" using inv one(1) by (auto simp: pool_inv_def)
  then have ok: "\<forall>u \<in> set ts. thread_ok u"
    unfolding one(3) using inv one(2)
    by (intro update_all) (auto simp: pool_inv_def begun_def intro!: thread_ok_move)
  have base: "\<forall>u \<in> set ts. mBase u = poolBase s"
    unfolding one(3) using inv one(1) by (intro update_all) (auto simp: pool_inv_def)
  have "\<exists>t \<in> set (mThreads s). asleep t" using one(1,2) by (auto simp: asleep_def)
  with inv have "length (mJobQueue s) \<le> length (filter fetching (mThreads s))" by (simp add: pool_inv_def)
  moreover have "length (filter fetching ts) = Suc (length (filter fetching (mThreads s)))"
    using count_update [OF one(1), of fetching "(mThreads s ! i)\<lparr>pc := Fetching\<rparr>"] one by (simp add: fetching_def)
  moreover have "length (filter gone ts) = length (filter gone (mThreads s))"
    using count_update [OF one(1), of gone "(mThreads s ! i)\<lparr>pc := Fetching\<rparr>"] one by (simp add: gone_def)
  moreover have "mset (concat (map held ts)) = mset (concat (map held (mThreads s)))"
    using held_update [OF one(1), of "(mThreads s ! i)\<lparr>pc := Fetching\<rparr>"] one by (simp add: held_def)
  ultimately show ?thesis
    using inv ok base by (simp add: pool_inv_def ThreadPool_addJob_def)
qed

lemma pool_inv_fetch:
  assumes inv: "pool_inv s" and i: "i < length (mThreads s)" and f: "pc (mThreads s ! i) = Fetching"
    and q: "ThreadPool_threadGetNextJob s = Some (j, s')"
  shows "pool_inv (setThread i (Thread_run_got j (mThreads s ! i)) s'\<lparr>hTaken := hTaken s @ [j]\<rparr>)"
proof -
  define t where "t = Thread_run_got j (mThreads s ! i)"
  have queue: "mJobQueue s = j # mJobQueue s'" using q by (rule pool_queue.get_Some)
  have s': "s' = s\<lparr>mJobQueue := mJobQueue s'\<rparr>"
    using q by (auto simp: ThreadPool_threadGetNextJob_def split: list.splits)
  have same: "mThreads s' = mThreads s" "hAdded s' = hAdded s" "hRan s' = hRan s"
    "hCalls s' = hCalls s" "poolBase s' = poolBase s"
    by (subst s', simp)+
  have pct: "pc t = (if isExit j then Exiting else Running j)" by (simp add: t_def pc_ops)
  have "thread_ok (mThreads s ! i)" using inv i by (auto simp: pool_inv_def)
  then have "thread_ok t" using f by (simp add: t_def thread_ok_got)
  then have ok: "\<forall>u \<in> set ((mThreads s)[i := t]). thread_ok u"
    using inv by (intro update_all) (auto simp: pool_inv_def)
  have base: "\<forall>u \<in> set ((mThreads s)[i := t]). mBase u = poolBase s"
    using inv i by (intro update_all) (auto simp: pool_inv_def t_def mBase_ops)
  have "(\<exists>u \<in> set ((mThreads s)[i := t]). asleep u) \<longrightarrow> (\<exists>u \<in> set (mThreads s). asleep u)"
    using set_update_subset_insert [of "mThreads s" i t] pct by (auto simp: asleep_def split: if_splits)
  moreover have "length (filter fetching ((mThreads s)[i := t])) + 1 = length (filter fetching (mThreads s))"
    using count_update [OF i, of fetching t] f pct by (auto simp: fetching_def split: if_splits)
  ultimately have wake: "(\<exists>u \<in> set ((mThreads s)[i := t]). asleep u) \<longrightarrow>
      length (mJobQueue s') \<le> length (filter fetching ((mThreads s)[i := t]))"
    using inv queue by (auto simp: pool_inv_def)
  have "mset (concat (map held ((mThreads s)[i := t]))) =
      mset (concat (map held (mThreads s))) + mset (if isExit j then [] else [j])"
    using held_update [OF i, of t] f pct by (auto simp: held_def split: if_splits)
  moreover have "length (filter gone ((mThreads s)[i := t])) =
      length (filter gone (mThreads s)) + (if isExit j then 1 else 0)"
    using count_update [OF i, of gone t] f pct by (auto simp: gone_def split: if_splits)
  ultimately show ?thesis
    using inv ok base wake queue same unfolding t_def [symmetric]
    by (simp add: pool_inv_def setThread_def)
qed

lemma pool_inv_run:
  assumes inv: "pool_inv s" and i: "i < length (mThreads s)" and r: "pc (mThreads s ! i) = Running j"
  shows "pool_inv (setThread i ((mThreads s ! i)\<lparr>pc := Fetching\<rparr>) s
    \<lparr>hRan := hRan s @ [j], hCalls := hCalls s @ Thread_runJob j (mThreads s ! i)\<rparr>)"
proof -
  define t where "t = (mThreads s ! i)\<lparr>pc := Fetching\<rparr>"
  have ti: "thread_ok (mThreads s ! i)" "mBase (mThreads s ! i) = poolBase s"
    using inv i by (auto simp: pool_inv_def)
  then have "thread_ok t" using r by (auto simp: t_def begun_def intro!: thread_ok_move)
  then have ok: "\<forall>u \<in> set ((mThreads s)[i := t]). thread_ok u"
    using inv by (intro update_all) (auto simp: pool_inv_def)
  have base: "\<forall>u \<in> set ((mThreads s)[i := t]). mBase u = poolBase s"
    using inv ti by (intro update_all) (auto simp: pool_inv_def t_def)
  have call: "Thread_runJob j (mThreads s ! i) = call_of (poolBase s) j"
    using runJob_call [OF ti(1) r] ti(2) by simp
  have "(\<exists>u \<in> set ((mThreads s)[i := t]). asleep u) \<longrightarrow> (\<exists>u \<in> set (mThreads s). asleep u)"
    using set_update_subset_insert [of "mThreads s" i t] by (auto simp: asleep_def t_def)
  moreover have "length (filter fetching (mThreads s)) \<le> length (filter fetching ((mThreads s)[i := t]))"
    using count_update [OF i, of fetching t] r by (auto simp: fetching_def t_def)
  ultimately have wake: "(\<exists>u \<in> set ((mThreads s)[i := t]). asleep u) \<longrightarrow>
      length (mJobQueue s) \<le> length (filter fetching ((mThreads s)[i := t]))"
    using inv unfolding pool_inv_def by linarith
  have "mset (concat (map held ((mThreads s)[i := t]))) + {#j#} = mset (concat (map held (mThreads s)))"
    using held_update [OF i, of t] r by (simp add: held_def t_def)
  moreover have "length (filter gone ((mThreads s)[i := t])) = length (filter gone (mThreads s))"
    using count_update [OF i, of gone t] r by (simp add: gone_def t_def)
  moreover have "mset (hRan s) + mset (concat (map held (mThreads s))) = mset (filter (\<lambda>j. \<not> isExit j) (hTaken s))"
    using inv by (simp add: pool_inv_def)
  ultimately show ?thesis
    using inv ok base wake call unfolding t_def [symmetric]
    by (simp add: pool_inv_def setThread_def) (metis union_mset_add_mset_right)
qed

lemma pool_inv_work: "pool_work s s' \<Longrightarrow> pool_inv s \<Longrightarrow> pool_inv s'"
proof (induction rule: pool_work.induct)
  case (start i s k)
  then show ?case
    by (intro pool_inv_setThread pool_inv_move)
       (auto simp: pc_ops mBase_ops held_def gone_def asleep_def fetching_def pool_inv_def intro!: thread_ok_start)
next
  case (run_begin i s t c)
  then have "thread_ok t" by (auto simp: pool_inv_def intro: thread_ok_begin)
  with run_begin pc_ops(2) [OF run_begin(3)] mBase_ops(2) [OF run_begin(3)] show ?case
    by (intro pool_inv_move) (auto simp: held_def gone_def asleep_def fetching_def)
next
  case (started i s t)
  then have "thread_ok t" by (auto simp: pool_inv_def intro: thread_ok_started)
  with started pc_ops(3) [OF started(4)] mBase_ops(3) [OF started(4)] show ?case
    by (intro pool_inv_setThread pool_inv_move) (auto simp: held_def gone_def asleep_def fetching_def)
next
  case (fetch i s j s')
  then show ?case by (intro pool_inv_fetch)
next
  case (sleep i s)
  then have "thread_ok (mThreads s ! i)" "mJobQueue s = []" by (auto simp: pool_inv_def pool_queue.get_None)
  with sleep show ?case
    by (intro pool_inv_setThread pool_inv_move)
       (auto simp: held_def gone_def asleep_def fetching_def begun_def intro!: thread_ok_move)
next
  case (run_job i s j)
  then show ?case by (intro pool_inv_run)
next
  case (run_end i s t c)
  then have "thread_ok t" by (auto simp: pool_inv_def intro: thread_ok_end)
  with run_end pc_ops(5) [OF run_end(3)] mBase_ops(5) [OF run_end(3)] show ?case
    by (intro pool_inv_move) (auto simp: held_def gone_def asleep_def fetching_def)
next
  case (deleted i s t)
  then have "thread_ok t" by (auto simp: pool_inv_def intro: thread_ok_deleted)
  with deleted pc_ops(6) [OF deleted(5)] mBase_ops(6) [OF deleted(5)] show ?case
    by (intro pool_inv_setThread pool_inv_move) (auto simp: held_def gone_def asleep_def fetching_def)
qed

lemma pool_inv_step: "pool_step s s' \<Longrightarrow> pool_inv s \<Longrightarrow> pool_inv s'"
proof (induction rule: pool_step.induct)
  case (spurious i s)
  then have "thread_ok (mThreads s ! i)" by (auto simp: pool_inv_def)
  with spurious show ?case
    by (intro pool_inv_setThread pool_inv_move)
       (auto simp: held_def gone_def asleep_def fetching_def begun_def intro!: thread_ok_move)
qed (auto intro: pool_inv_add pool_inv_work)

interpretation pool_steps: guarded_steps pool_step pool_inv
  by unfold_locales (rule pool_inv_step)

lemma reachable_inv: "pool_reachable s \<Longrightarrow> pool_inv s"
  by (induction rule: pool_reachable.induct) (auto intro: pool_inv_init pool_steps.keeps)

section \<open>Progress\<close>

fun pc_weight :: "'j pc \<Rightarrow> nat" where
  "pc_weight Unstarted = 6"
| "pc_weight Initialising = 5"
| "pc_weight (Running j) = 3"
| "pc_weight Fetching = 2"
| "pc_weight Sleeping = 1"
| "pc_weight Exiting = 1"
| "pc_weight Exited = 0"

definition thread_weight :: "('r, 'c) Thread \<Rightarrow> nat" where
  "thread_weight t = pc_weight (pc t) + (if startReturned t then 0 else 1) + (if deleteReturned t then 0 else 1)"

definition pool_weight :: "('r, 'c) pool_run \<Rightarrow> nat" where
  "pool_weight s = 4 * length (mJobQueue s) + sum_list (map thread_weight (mThreads s))"

lemma weight_update:
  "i < length ts \<Longrightarrow>
   sum_list (map thread_weight (ts[i := t])) + thread_weight (ts ! i) = sum_list (map thread_weight ts) + thread_weight t"
proof (induction ts arbitrary: i)
  case (Cons u ts)
  then show ?case by (cases i) auto
qed simp

lemma weight_ops:
  "pc t = Unstarted \<Longrightarrow> thread_weight (Thread_start k t) < thread_weight t"
  "Thread_run_begin t c = (t', c') \<Longrightarrow> pc t = Initialising \<Longrightarrow> thread_weight t' < thread_weight t"
  "Thread_start_wait t = Some t' \<Longrightarrow> \<not> startReturned t \<Longrightarrow> thread_weight t' < thread_weight t"
  "Thread_run_end t c = Inr (t', c') \<Longrightarrow> pc t = Exiting \<Longrightarrow> thread_weight t' < thread_weight t"
  "Thread_delete t = Inr (Some t') \<Longrightarrow> \<not> deleteReturned t \<Longrightarrow> thread_weight t' < thread_weight t"
  "pc t = Fetching \<Longrightarrow> thread_weight (Thread_run_got j t) < thread_weight t + 4"
  by (auto simp: handshake_defs delete_Some thread_weight_def dest!: run_end_Inr split: if_splits)

lemma setThread_weight:
  "i < length (mThreads s) \<Longrightarrow> thread_weight t < thread_weight (mThreads s ! i) \<Longrightarrow>
   pool_weight (setThread i t s) < pool_weight s"
  using weight_update [of i "mThreads s" t] by (simp add: pool_weight_def setThread_def)

lemma pool_weight_ghost [simp]:
  "pool_weight (s\<lparr>cstate := c\<rparr>) = pool_weight s"
  "pool_weight (s\<lparr>hRan := r, hCalls := k\<rparr>) = pool_weight s"
  by (simp_all add: pool_weight_def)

lemma work_decreases: "pool_work s s' \<Longrightarrow> pool_weight s' < pool_weight s"
proof (induction rule: pool_work.induct)
  case (fetch i s j s')
  have s': "s' = s\<lparr>mJobQueue := mJobQueue s'\<rparr>" "mJobQueue s = j # mJobQueue s'"
    using fetch(3) by (auto simp: ThreadPool_threadGetNextJob_def split: list.splits)
  have "mThreads s' = mThreads s" by (subst s') simp
  then show ?case
    using fetch s'(2) weight_update [OF fetch(1), of "Thread_run_got j (mThreads s ! i)"]
      weight_ops(6) [OF fetch(2), of j]
    by (simp add: pool_weight_def setThread_def)
qed (auto intro!: setThread_weight simp: thread_weight_def handshake_defs delete_Some dest!: run_end_Inr)

interpretation pool_rest: winding_down pool_work pool_inv pool_weight
  by unfold_locales (auto intro: pool_inv_work work_decreases)

text \<open>A pool is quiet when the only steps it can take are returns of running routines. Then every worker is started, and
  each of them waits for a job, is inside a routine or is gone; with jobs whose routines block (event loops) this is
  all that can be said, with jobs that return a pool at rest is quiet and has no running worker.\<close>

definition quiet :: "('r, 'c) pool_run \<Rightarrow> bool" where
  "quiet s \<longleftrightarrow> (\<forall>s'. pool_work s s' \<longrightarrow> hRan s' \<noteq> hRan s)"

lemma quiet_rest: "\<nexists>s'. pool_work s s' \<Longrightarrow> quiet s"
  by (simp add: quiet_def)

lemma quietD: "quiet s \<Longrightarrow> pool_work s s' \<Longrightarrow> hRan s' = hRan s \<Longrightarrow> False"
  by (auto simp: quiet_def)

lemma hRan_setThread [simp]: "hRan (setThread i t s) = hRan s"
  by (simp add: setThread_def)

lemma next_job_hRan: "ThreadPool_threadGetNextJob s = Some (j, s') \<Longrightarrow> hRan s' = hRan s"
  by (auto simp: ThreadPool_threadGetNextJob_def split: list.splits)

lemma quiet_started:
  assumes inv: "pool_inv s" and quiet: "quiet s" and i: "i < length (mThreads s)"
  shows "startReturned (mThreads s ! i)"
  using i
proof (induction i rule: less_induct)
  case (less i)
  have ok: "thread_ok (mThreads s ! i)" using inv less.prems by (auto simp: pool_inv_def)
  have un: "pc (mThreads s ! i) \<noteq> Unstarted"
    using less quiet quietD [OF quiet pool_work.start [of i s 0]] by auto
  have "pc (mThreads s ! i) \<noteq> Initialising"
  proof
    assume "pc (mThreads s ! i) = Initialising"
    moreover obtain t c where "Thread_run_begin (mThreads s ! i) (cstate s) = (t, c)" by fastforce
    ultimately show False using quietD [OF quiet pool_work.run_begin [of i s t c]] less.prems by simp
  qed
  with un have "begun (mThreads s ! i)" by (simp add: begun_def)
  with ok show ?case
    using quietD [OF quiet pool_work.started [of i s]] less.prems un
    by (auto simp: thread_ok_def Thread_start_wait_def Semaphore_wait_def split: if_splits)
qed

lemma quiet_idle:
  assumes inv: "pool_inv s" and quiet: "quiet s" and i: "i < length (mThreads s)"
  shows "pc (mThreads s ! i) = Sleeping \<or> pc (mThreads s ! i) = Exited \<or> (\<exists>j. pc (mThreads s ! i) = Running j)"
proof -
  have "begun (mThreads s ! i)"
    using quiet_started [OF assms] inv i by (auto simp: pool_inv_def thread_ok_def)
  moreover have "pc (mThreads s ! i) \<noteq> Fetching"
  proof
    assume f: "pc (mThreads s ! i) = Fetching"
    show False
    proof (cases "ThreadPool_threadGetNextJob s")
      case None
      then show False using quietD [OF quiet pool_work.sleep [of i s]] f i by simp
    next
      case (Some q)
      then show False
        using quietD [OF quiet pool_work.fetch [of i s "fst q" "snd q"]] f i by (simp add: next_job_hRan [of s "fst q"])
    qed
  qed
  moreover have "pc (mThreads s ! i) \<noteq> Exiting"
    using quietD [OF quiet pool_work.run_end [of i s]] i thread_ok_detaches [of "mThreads s ! i" "cstate s"] inv
    by (auto simp: pool_inv_def)
  ultimately show ?thesis by (cases "pc (mThreads s ! i)") (auto simp: begun_def)
qed

lemma quiet_deleted:
  assumes inv: "pool_inv s" and quiet: "quiet s" and i: "i < length (mThreads s)"
    and ex: "\<forall>k \<le> i. pc (mThreads s ! k) = Exited"
  shows "deleteReturned (mThreads s ! i)"
  using i ex
proof (induction i rule: less_induct)
  case (less i)
  have "thread_ok (mThreads s ! i)" "pc (mThreads s ! i) = Exited" using inv less.prems by (auto simp: pool_inv_def)
  then show ?case
    using quietD [OF quiet pool_work.deleted [of i s]] less quiet_started [OF inv quiet less.prems(1)]
      thread_ok_delete_returns(1) [of "mThreads s ! i"]
    by auto
qed

lemma quiet_sleeper_empty:
  assumes inv: "pool_inv s" and quiet: "quiet s"
    and t: "t \<in> set (mThreads s)" "pc t = Sleeping"
  shows "mJobQueue s = []"
proof -
  have "filter fetching (mThreads s) = []"
    using quiet_idle [OF inv quiet] by (fastforce simp: fetching_def in_set_conv_nth filter_empty_conv)
  then show ?thesis using inv t by (auto simp: pool_inv_def asleep_def)
qed

lemma rest_idle:
  assumes inv: "pool_inv s" and rest: "\<nexists>s'. pool_work s s'" and i: "i < length (mThreads s)"
  shows "pc (mThreads s ! i) = Sleeping \<or> pc (mThreads s ! i) = Exited"
  using quiet_idle [OF inv quiet_rest [OF rest] i] rest i pool_work.run_job [of i s] by auto

section \<open>Properties\<close>

text \<open>C1: In every reachable state of the pool, whatever the interleaving of clients and workers: the jobs
  handed to workers followed by the queue are the jobs added, in the order they were added; every job
  handed out that is not an exit command was run exactly once or is the one a worker is running now;
  and the calls made are those of the jobs run, each with the job's argument and with an event
  base exactly if the pool was created with one.\<close>

theorem ThreadPool_fifo_once:
  assumes "pool_reachable s"
  shows "hAdded s = hTaken s @ mJobQueue s
    \<and> mset (hRan s) + mset (concat (map held (mThreads s))) = mset (filter (\<lambda>j. \<not> isExit j) (hTaken s))
    \<and> hCalls s = concat (map (call_of (poolBase s)) (hRan s))"
  using reachable_inv [OF assms] by (simp add: pool_inv_def)

definition sample_job :: "nat ThreadJobBase" where
  "sample_job = fst (ThreadJob_new (Some 7) (Some 42) 0)"

definition exit_job :: "'r ThreadJobBase" where
  "exit_job = fst (ThreadExitJob_new 0)"

definition sample_pool :: "(nat, unit) pool_run" where
  "sample_pool =
     (let s1 = (ThreadPool_addJob sample_job (pool_init 1 True ()))\<lparr>hAdded := [sample_job]\<rparr>
      in (ThreadPool_addJob exit_job s1)\<lparr>hAdded := [sample_job, exit_job]\<rparr>)"

lemma notify_none: "\<forall>t \<in> set ts. pc t \<noteq> Sleeping \<Longrightarrow> notify_one ts ts"
  by (auto simp: notify_one_def)

lemma sample_pool_reachable: "pool_reachable sample_pool"
proof -
  let ?s0 = "pool_init 1 True () :: (nat, unit) pool_run"
  let ?s1 = "(ThreadPool_addJob sample_job ?s0)\<lparr>hAdded := [sample_job]\<rparr>"
  have "pool_step ?s0 ?s1"
    using pool_step.add_job [of ?s0 "mThreads ?s0" sample_job] by (simp add: notify_none ThreadPool_addJob_def) (simp add: pool_init_def ThreadPool_new_base_def ThreadPool_createThreads_def Let_def)
  moreover have "pool_step ?s1 sample_pool"
    using pool_step.add_job [of ?s1 "mThreads ?s1" exit_job]
    by (simp add: notify_none ThreadPool_addJob_def sample_pool_def)
       (simp add: pool_init_def ThreadPool_new_base_def ThreadPool_createThreads_def Let_def)
  ultimately show ?thesis by (blast intro: pool_reachable.intros)
qed

theorem ThreadPool_fifo_once_witness:
  "hAdded sample_pool = hTaken sample_pool @ mJobQueue sample_pool \<and> length (mJobQueue sample_pool) = 2"
  using ThreadPool_fifo_once [OF sample_pool_reachable] by (simp add: sample_pool_def ThreadPool_addJob_def)

text \<open>C20: No wake-up is lost. In every reachable state in which a worker sleeps on the condition, at least
  as many workers as there are queued jobs are awake and about to look at the queue, so a job
  never waits while only sleeping workers could take it.\<close>

theorem ThreadPool_no_lost_wakeup:
  assumes "pool_reachable s" and "t \<in> set (mThreads s)" and "pc t = Sleeping"
  shows "length (mJobQueue s) \<le> length (filter (\<lambda>u. pc u = Fetching) (mThreads s))"
  using reachable_inv [OF assms(1)] assms(2,3)
  by (auto simp: pool_inv_def asleep_def fetching_def [abs_def])

definition sleeping_pool :: "(nat, unit) pool_run" where
  "sleeping_pool =
     (let s1 = setThread 0 (Thread_start 7 (Thread_new_base False)) (pool_init 1 False ());
          s2 = setThread 0 (fst (Thread_run_begin (mThreads s1 ! 0) ())) s1
      in setThread 0 ((mThreads s2 ! 0)\<lparr>pc := Sleeping\<rparr>) s2)"

lemma sleeping_pool_reachable: "pool_reachable sleeping_pool"
proof -
  let ?s0 = "pool_init 1 False () :: (nat, unit) pool_run"
  let ?s1 = "setThread 0 (Thread_start 7 (Thread_new_base False)) ?s0"
  let ?s2 = "setThread 0 (fst (Thread_run_begin (mThreads ?s1 ! 0) ())) ?s1"
  have "pool_work ?s0 ?s1" using pool_work.start [of 0 ?s0 7] by simp
  moreover have "pool_work ?s1 ?s2"
    using pool_work.run_begin [of 0 ?s1 "fst (Thread_run_begin (mThreads ?s1 ! 0) ())" "()"]
    by (simp add: setThread_def pc_ops prod_eq_iff)
       (simp add: pool_init_def ThreadPool_new_base_def ThreadPool_createThreads_def Let_def)
  moreover have "pool_work ?s2 sleeping_pool"
    using pool_work.sleep [of 0 ?s2]
    by (simp add: sleeping_pool_def Let_def setThread_def thread_defs ThreadPool_threadGetNextJob_def)
  ultimately show ?thesis by (blast intro: pool_reachable.intros pool_step.work)
qed

theorem ThreadPool_no_lost_wakeup_witness:
  "length (mJobQueue sleeping_pool) \<le> length (filter (\<lambda>u. pc u = Fetching) (mThreads sleeping_pool))"
  using ThreadPool_no_lost_wakeup [OF sleeping_pool_reachable, of "mThreads sleeping_pool ! 0"]
  by (simp add: sleeping_pool_def Let_def setThread_def)

text \<open>C32: The hand-shakes of \<open>start\<close> and of the destructor. When \<open>start\<close> has returned, the worker is past its
  initialisation, and its event base exists exactly if it was asked for (until the worker has left its
  loop); the destructor returns only when the worker has exited; and each semaphore holds at most
  the one notification that its worker has issued and nobody has consumed. Until the destructor returns, the handle
  of a started worker is there; \<open>join\<close> blocks as long as the worker has not exited; the destructor never
  deletes a joinable handle, and returns exactly if the worker has exited; and the worker can always detach.\<close>

theorem Thread_handshake:
  assumes "pool_reachable s" and "t \<in> set (mThreads s)"
  shows "(startReturned t \<longrightarrow> pc t \<noteq> Unstarted \<and> pc t \<noteq> Initialising)
    \<and> (startReturned t \<and> pc t \<noteq> Exited \<longrightarrow> mEventBase t = mBase t)
    \<and> (deleteReturned t \<longrightarrow> pc t = Exited \<and> \<not> mEventBase t)
    \<and> (startReturned t \<longrightarrow> sem_count (mSemaphore t) = (if pc t = Exited \<and> \<not> deleteReturned t then 1 else 0))
    \<and> (startReturned t \<and> \<not> deleteReturned t \<longrightarrow>
         Thread_join t = Inr (if pc t = Exited then Some t else None)
         \<and> (\<exists>u. Thread_delete t = Inr u \<and> (u \<noteq> None \<longleftrightarrow> pc t = Exited)))
    \<and> (pc t = Exiting \<longrightarrow> (\<exists>u d. Thread_run_end t c = Inr (u, d)))"
proof -
  have "thread_ok t" using reachable_inv [OF assms(1)] assms(2) by (simp add: pool_inv_def)
  then show ?thesis
    using thread_ok_facts [of t] thread_ok_delete_returns [of t] thread_ok_detaches [of t c] by blast
qed

definition started_pool :: "(nat, unit) pool_run" where
  "started_pool = setThread 0 ((mThreads sleeping_pool ! 0)\<lparr>mSemaphore := Semaphore_new, startReturned := True\<rparr>) sleeping_pool"

lemma sleeping_worker:
  "length (mThreads sleeping_pool) = 1" "pc (mThreads sleeping_pool ! 0) = Sleeping" "\<not> startReturned (mThreads sleeping_pool ! 0)"
  "Thread_start_wait (mThreads sleeping_pool ! 0) = Some ((mThreads sleeping_pool ! 0)\<lparr>mSemaphore := Semaphore_new, startReturned := True\<rparr>)"
  by (simp_all add: sleeping_pool_def Let_def setThread_def thread_defs Thread_new_base_def Thread_new_cbk_def
      Semaphore_wait_def Semaphore_notify_def Semaphore_new_def)

lemma started_pool_reachable: "pool_reachable started_pool"
proof -
  have "pool_work sleeping_pool started_pool"
    using pool_work.started [of 0 sleeping_pool] sleeping_worker by (simp add: started_pool_def)
  then show ?thesis by (blast intro: pool_reachable.step pool_step.work sleeping_pool_reachable)
qed

theorem Thread_handshake_witness:
  "startReturned (mThreads started_pool ! 0) \<and> pc (mThreads started_pool ! 0) \<noteq> Initialising
   \<and> sem_count (mSemaphore (mThreads started_pool ! 0)) = 0"
proof -
  have "mThreads started_pool ! 0 \<in> set (mThreads started_pool)" "startReturned (mThreads started_pool ! 0)"
    "pc (mThreads started_pool ! 0) = Sleeping"
    using sleeping_worker by (simp_all add: started_pool_def setThread_def set_update_memI)
  then show ?thesis using Thread_handshake [OF started_pool_reachable] by auto
qed

lemma delete_jobs_queue:
  "mJobQueue (ThreadPool_delete_jobs p) = mJobQueue p @ replicate (unat (uiCount p)) exit_job"
proof -
  have "mJobQueue (fold (\<lambda>_. ThreadPool_addJob exit_job) ks p) = mJobQueue p @ replicate (length ks) exit_job" for ks :: "nat list"
    by (induction ks arbitrary: p) (auto simp: ThreadPool_addJob_def)
  then show ?thesis by (simp add: ThreadPool_delete_jobs_def exit_job_def)
qed

text \<open>C33: Left to itself a pool comes to rest: there is no infinite sequence of steps of the workers, of \<open>start\<close>
  and of the destructor, without further jobs or spurious wake-ups.\<close>

theorem ThreadPool_work_terminates: "wfP (\<lambda>s' s. pool_work s s')"
  by (rule wfp_if_convertible_to_nat [of _ pool_weight]) (rule work_decreases)

lemma work_reachable: "pool_work\<^sup>*\<^sup>* s s' \<Longrightarrow> pool_reachable s \<Longrightarrow> pool_reachable s'"
  by (induction rule: rtranclp_induct) (auto intro: pool_reachable.intros pool_step.work)

lemma work_keeps: "pool_work s s' \<Longrightarrow> hAdded s' = hAdded s \<and> length (mThreads s') = length (mThreads s)"
  by (induction rule: pool_work.induct)
     (auto simp: setThread_def ThreadPool_threadGetNextJob_def split: list.splits)

lemma works_keep: "pool_work\<^sup>*\<^sup>* s s' \<Longrightarrow> hAdded s' = hAdded s \<and> length (mThreads s') = length (mThreads s)"
  by (induction rule: rtranclp_induct) (auto dest: work_keeps)

lemma exit_job_exit [simp]: "isExit exit_job"
  by (simp add: exit_job_def ThreadExitJob_new_def ThreadJobBase_new_def isExit_def)

lemma rest_after_exits:
  assumes reach: "pool_reachable s" and some: "mThreads s \<noteq> []" and jobs: "\<forall>j \<in> set js. \<not> isExit j"
    and added: "hAdded s = js @ replicate (length (mThreads s)) exit_job"
    and run: "pool_work\<^sup>*\<^sup>* s s'" and rest: "\<nexists>s''. pool_work s' s''"
  shows "(\<forall>t \<in> set (mThreads s'). pc t = Exited \<and> deleteReturned t) \<and> mset (hRan s') = mset js
    \<and> mJobQueue s' = []"
proof -
  let ?n = "length (mThreads s)"
  have inv: "pool_inv s'" using work_reachable [OF run reach] by (rule reachable_inv)
  have keep: "hAdded s' = js @ replicate ?n exit_job" "length (mThreads s') = ?n"
    using works_keep [OF run] added by simp_all
  have exits: "length (filter isExit (hTaken s')) = length (filter gone (mThreads s'))"
    using inv by (simp add: pool_inv_def)
  have split: "hTaken s' @ mJobQueue s' = js @ replicate ?n exit_job"
    using inv keep by (simp add: pool_inv_def)
  have "length (filter isExit (hTaken s' @ mJobQueue s')) = ?n"
    unfolding split using jobs by (simp add: filter_empty_conv)
  then have total: "length (filter isExit (hTaken s')) + length (filter isExit (mJobQueue s')) = ?n" by simp
  have awake: "pc t \<noteq> Sleeping" if t: "t \<in> set (mThreads s')" for t
  proof
    assume "pc t = Sleeping"
    with t have "mJobQueue s' = []" by (rule quiet_sleeper_empty [OF inv quiet_rest [OF rest]])
    with total exits keep have "length (filter gone (mThreads s')) = length (mThreads s')" by simp
    then have "gone t" using t by (metis filter_id_conv length_filter_less less_irrefl)
    with \<open>pc t = Sleeping\<close> show False by (simp add: gone_def)
  qed
  have ex: "\<forall>t \<in> set (mThreads s'). pc t = Exited"
    using rest_idle [OF inv rest] awake by (metis in_set_conv_nth)
  then have "filter gone (mThreads s') = mThreads s'" by (simp add: gone_def)
  with total exits keep have "filter isExit (mJobQueue s') = []" by simp
  then have "\<not> isExit j" if "j \<in> set (mJobQueue s')" for j using that by (simp add: filter_empty_conv)
  moreover have "last (hTaken s' @ mJobQueue s') = exit_job" using split some by simp
  ultimately have q: "mJobQueue s' = []" by (metis exit_job_exit last_appendR last_in_set)
  have "concat (map held (mThreads s')) = []" using ex by (auto simp: held_def)
  moreover have "filter (\<lambda>j. \<not> isExit j) (hTaken s') = js"
    using split q jobs by (simp add: filter_empty_conv filter_id_conv)
  ultimately have "mset (hRan s') = mset js" using inv by (simp only: pool_inv_def) simp
  moreover have "deleteReturned (mThreads s' ! k)" if "k < length (mThreads s')" for k
    using quiet_deleted [OF inv quiet_rest [OF rest] that] ex that by simp
  then have "\<forall>t \<in> set (mThreads s'). deleteReturned t" by (simp add: all_set_conv_all_nth)
  ultimately show ?thesis using ex q by blast
qed

text \<open>C12: The destructor drains a pool of at least one worker. Once it has queued one exit command per worker behind the jobs
  already added, the pool comes to rest, and every way it can come to rest has all workers exited and deleted, and has run
  every job exactly once.\<close>

theorem ThreadPool_shutdown:
  assumes reach: "pool_reachable s" and some: "mThreads s \<noteq> []" and jobs: "\<forall>j \<in> set js. \<not> isExit j"
    and added: "hAdded s = js @ replicate (length (mThreads s)) exit_job"
  shows "(\<exists>s'. pool_work\<^sup>*\<^sup>* s s' \<and> (\<nexists>s''. pool_work s' s''))
    \<and> (\<forall>s'. pool_work\<^sup>*\<^sup>* s s' \<longrightarrow> (\<nexists>s''. pool_work s' s'') \<longrightarrow>
         (\<forall>t \<in> set (mThreads s'). pc t = Exited \<and> deleteReturned t) \<and> mset (hRan s') = mset js \<and> mJobQueue s' = [])"
  using pool_rest.comes_to_rest [OF reachable_inv [OF reach]] rest_after_exits [OF assms] by blast

theorem ThreadPool_shutdown_witness:
  "\<exists>s'. pool_work\<^sup>*\<^sup>* sample_pool s' \<and> mset (hRan s') = {#sample_job#}
     \<and> (\<forall>t \<in> set (mThreads s'). pc t = Exited \<and> deleteReturned t)"
proof -
  have "hAdded sample_pool = [sample_job] @ replicate (length (mThreads sample_pool)) exit_job"
    by (simp add: sample_pool_def ThreadPool_addJob_def)
  moreover have "\<not> isExit sample_job"
    by (simp add: sample_job_def ThreadJob_new_def ThreadJobBase_new_def isExit_def)
  moreover have "mThreads sample_pool \<noteq> []" by (simp add: sample_pool_def ThreadPool_addJob_def)
  ultimately show ?thesis
    using ThreadPool_shutdown [OF sample_pool_reachable, of "[sample_job]"] by auto
qed

end
