(* ===== verification/Logger.thy ===== *)
theory Logger
  imports JobQueue Semaphore StepSystem
begin

text \<open>
  \<open>src/ch-cpp-utils/logger.hpp\<close>: class \<open>Logger\<close>. Every thread composes its line in a stream of its own; a manipulator
  such as \<open>std::endl\<close> moves the line to a queue that one thread prints. \<open>operator<<\<close> holds the mutex for its
  whole body, so it is one step; the printing thread and the destructor are modelled step by step.
\<close>

section \<open>std::ostringstream\<close>

text \<open>A stream is its text and its formatting state. What an inserted object of any type prints depends on the
  formatting state and may change it, so it is a function of it. A string is padded to the width, which is
  then reset.\<close>

record fmt =
  width :: nat
  fill :: char
  left :: bool
  base :: nat

type_synonym insertion = "fmt \<Rightarrow> string \<times> fmt"
type_synonym ostringstream = "string \<times> fmt"

definition fmt_default :: fmt where
  "fmt_default = \<lparr>width = 0, fill = CHR '' '', left = False, base = 10\<rparr>"

definition ins_str :: "string \<Rightarrow> insertion" where
  "ins_str s f =
     (let pad = replicate (width f - length s) (fill f)
      in (if left f then s @ pad else pad @ s, f\<lparr>width := 0\<rparr>))"

definition stream_ins :: "insertion \<Rightarrow> ostringstream \<Rightarrow> ostringstream" where
  "stream_ins i st = (let (s, f) = i (snd st) in (fst st @ s, f))"

section \<open>class Logger\<close>

record 't Logger =
  mLogQueue :: "string list"
  mLogMap :: "'t \<Rightarrow> ostringstream option"
  shutdown :: bool

definition Logger_new :: "'t Logger" where
  "Logger_new = \<lparr>mLogQueue = [], mLogMap = (\<lambda>_. None), shutdown = False\<rparr>"

text \<open>The arguments \<open>now\<close> are the results of \<open>std::ctime\<close>.\<close>

definition Logger_clear :: "'t \<Rightarrow> string \<Rightarrow> ('t, 'z) Logger_scheme \<Rightarrow> ('t, 'z) Logger_scheme res" where
  "Logger_clear t now L =
     (case mLogMap L t of
        None \<Rightarrow> Inl UB_end_iterator
      | Some (b, f) \<Rightarrow>
          (case find_char CHR 0x0A now of
             None \<Rightarrow> Inl Exn_out_of_range
           | Some p \<Rightarrow>
               Inr (L\<lparr>mLogMap := (mLogMap L)(t \<mapsto> stream_ins (ins_str '' | '') (stream_ins (ins_str (take p now)) ([], f)))\<rparr>)))"

definition Logger_getThreadEntry ::
  "'t \<Rightarrow> string \<Rightarrow> ('t, 'z) Logger_scheme \<Rightarrow> (ostringstream \<times> ('t, 'z) Logger_scheme) res" where
  "Logger_getThreadEntry t now L =
     bindR (if mLogMap L t = None then Logger_clear t now (L\<lparr>mLogMap := (mLogMap L)(t \<mapsto> ([], fmt_default))\<rparr>)
            else Inr L)
       (\<lambda>L'. case mLogMap L' t of None \<Rightarrow> Inl UB_end_iterator | Some e \<Rightarrow> Inr (e, L'))"

text \<open>\<open>operator<<\<close> of a value.\<close>

definition Logger_insert :: "'t \<Rightarrow> string \<Rightarrow> insertion \<Rightarrow> ('t, 'z) Logger_scheme \<Rightarrow> ('t, 'z) Logger_scheme res" where
  "Logger_insert t now a L =
     (if shutdown L then Inr L
      else bindR (Logger_getThreadEntry t now L) (\<lambda>(e, L'). Inr (L'\<lparr>mLogMap := (mLogMap L')(t \<mapsto> stream_ins a e)\<rparr>)))"

definition Logger_push :: "string \<Rightarrow> ('t, 'z) Logger_scheme \<Rightarrow> ('t, 'z) Logger_scheme" where
  "Logger_push l L = L\<lparr>mLogQueue := mLogQueue L @ [l]\<rparr>"

text \<open>\<open>operator<<\<close> of a manipulator.\<close>

definition Logger_manip ::
  "'t \<Rightarrow> string \<Rightarrow> string \<Rightarrow> insertion \<Rightarrow> ('t, 'z) Logger_scheme \<Rightarrow> ('t, 'z) Logger_scheme res" where
  "Logger_manip t now now' pf L =
     (if shutdown L then Inr L
      else bindR (Logger_getThreadEntry t now L) (\<lambda>(e, L1).
           let e' = stream_ins pf e in
           bindR (Logger_clear t now' (L1\<lparr>mLogMap := (mLogMap L1)(t \<mapsto> e')\<rparr>)) (\<lambda>L2.
           Inr (Logger_push (fst e') L2))))"

text \<open>What the printing thread and the destructor do with the queue: \<open>at(0)\<close> and \<open>pop_front\<close>.\<close>

definition Logger_pop :: "('t, 'z) Logger_scheme \<Rightarrow> (string \<times> ('t, 'z) Logger_scheme) option" where
  "Logger_pop L = (case mLogQueue L of [] \<Rightarrow> None | l # ls \<Rightarrow> Some (l, L\<lparr>mLogQueue := ls\<rparr>))"

interpretation log_queue: job_queue Logger_push Logger_pop mLogQueue
  by unfold_locales (auto simp: Logger_push_def Logger_pop_def split: list.splits)

section \<open>The lines of the threads\<close>

datatype 't call = Insert 't string insertion | Manip 't string string insertion

fun caller :: "'t call \<Rightarrow> 't" where
  "caller (Insert t now a) = t"
| "caller (Manip t now now' pf) = t"

fun log_call :: "'t call \<Rightarrow> ('t, 'z) Logger_scheme \<Rightarrow> ('t, 'z) Logger_scheme res" where
  "log_call (Insert t now a) L = Logger_insert t now a L"
| "log_call (Manip t now now' pf) L = Logger_manip t now now' pf L"

text \<open>A sequence of calls by several threads; the lines that reach the queue are recorded with their thread.\<close>

fun log_calls :: "'t call list \<Rightarrow> ('t \<times> string) list \<times> 't Logger \<Rightarrow> (('t \<times> string) list \<times> 't Logger) res" where
  "log_calls [] s = Inr s"
| "log_calls (c # cs) (ls, L) =
     bindR (log_call c L) (\<lambda>L'. log_calls cs (ls @ map (Pair (caller c)) (drop (length (mLogQueue L)) (mLogQueue L')), L'))"

text \<open>The reference: a thread alone with its stream.\<close>

definition stamp :: "string \<Rightarrow> fmt \<Rightarrow> ostringstream" where
  "stamp now f = stream_ins (ins_str '' | '') (stream_ins (ins_str (takeWhile (\<lambda>c. c \<noteq> CHR 0x0A) now)) ([], f))"

definition own_stream :: "string \<Rightarrow> ostringstream option \<Rightarrow> ostringstream" where
  "own_stream now st = (case st of None \<Rightarrow> stamp now fmt_default | Some e \<Rightarrow> e)"

fun thread_lines :: "ostringstream option \<Rightarrow> 't call list \<Rightarrow> string list" where
  "thread_lines st [] = []"
| "thread_lines st (Insert t now a # cs) = thread_lines (Some (stream_ins a (own_stream now st))) cs"
| "thread_lines st (Manip t now now' pf # cs) =
     (let (line, f) = stream_ins pf (own_stream now st) in line # thread_lines (Some (stamp now' f)) cs)"

text \<open>\<open>std::ctime\<close> ends its result with a newline.\<close>

fun clock_ok :: "'t call \<Rightarrow> bool" where
  "clock_ok (Insert t now a) \<longleftrightarrow> CHR 0x0A \<in> set now"
| "clock_ok (Manip t now now' pf) \<longleftrightarrow> CHR 0x0A \<in> set now \<and> CHR 0x0A \<in> set now'"

lemma find_char_in: "c \<in> set s \<Longrightarrow> \<exists>p. find_char c s = Some p \<and> take p s = takeWhile (\<lambda>x. x \<noteq> c) s"
  by (induction s) auto

lemma clear_stamp:
  assumes "mLogMap L t = Some e" and "CHR 0x0A \<in> set now"
  shows "Logger_clear t now L = Inr (L\<lparr>mLogMap := (mLogMap L)(t \<mapsto> stamp now (snd e))\<rparr>)"
  using find_char_in [OF assms(2)] assms(1) by (cases e) (auto simp: Logger_clear_def stamp_def)

lemma entry_own:
  assumes "CHR 0x0A \<in> set now"
  shows "Logger_getThreadEntry t now L
         = Inr (own_stream now (mLogMap L t), L\<lparr>mLogMap := (mLogMap L)(t \<mapsto> own_stream now (mLogMap L t))\<rparr>)"
  using assms
  by (cases "mLogMap L t") (simp_all add: Logger_getThreadEntry_def clear_stamp own_stream_def fun_upd_idem)

lemma log_call_run:
  assumes "clock_ok c" and "\<not> shutdown L"
  shows "\<exists>e ls. log_call c L = Inr (L\<lparr>mLogMap := (mLogMap L)(caller c \<mapsto> e), mLogQueue := mLogQueue L @ ls\<rparr>)
          \<and> (\<forall>cs. thread_lines (mLogMap L (caller c)) (c # cs) = ls @ thread_lines (Some e) cs)"
proof (cases c)
  case (Insert t now a)
  then show ?thesis
    using assms by (intro exI [of _ "stream_ins a (own_stream now (mLogMap L t))"] exI [of _ "[]"])
      (simp add: Logger_insert_def entry_own)
next
  case (Manip t now now' pf)
  obtain line f where l: "stream_ins pf (own_stream now (mLogMap L t)) = (line, f)" by fastforce
  show ?thesis
    using assms Manip l by (intro exI [of _ "stamp now' f"] exI [of _ "[line]"])
      (simp add: Logger_manip_def entry_own clear_stamp Logger_push_def)
qed

lemma log_calls_lines:
  assumes "\<forall>c \<in> set cs. clock_ok c" and "\<not> shutdown L"
  shows "\<exists>lines L'. log_calls cs (ls, L) = Inr (ls @ lines, L') \<and> \<not> shutdown L'
          \<and> mLogQueue L' = mLogQueue L @ map snd lines
          \<and> (\<forall>t. map snd (filter (\<lambda>p. fst p = t) lines) = thread_lines (mLogMap L t) (filter (\<lambda>c. caller c = t) cs))"
  using assms
proof (induction cs arbitrary: ls L)
  case Nil
  then show ?case by simp
next
  case (Cons c cs)
  obtain e new where r: "log_call c L = Inr (L\<lparr>mLogMap := (mLogMap L)(caller c \<mapsto> e), mLogQueue := mLogQueue L @ new\<rparr>)"
    and own: "\<And>cs. thread_lines (mLogMap L (caller c)) (c # cs) = new @ thread_lines (Some e) cs"
    using log_call_run [of c L] Cons.prems by auto
  let ?L = "L\<lparr>mLogMap := (mLogMap L)(caller c \<mapsto> e), mLogQueue := mLogQueue L @ new\<rparr>"
  obtain lines L' where IH: "log_calls cs (ls @ map (Pair (caller c)) new, ?L) = Inr (ls @ map (Pair (caller c)) new @ lines, L')"
      "\<not> shutdown L'" "mLogQueue L' = mLogQueue ?L @ map snd lines"
      "\<And>t. map snd (filter (\<lambda>p. fst p = t) lines) = thread_lines (mLogMap ?L t) (filter (\<lambda>c. caller c = t) cs)"
    using Cons.IH [of ?L "ls @ map (Pair (caller c)) new"] Cons.prems by auto
  have "map snd (filter (\<lambda>p. fst p = t) (map (Pair (caller c)) new @ lines))
        = thread_lines (mLogMap L t) (filter (\<lambda>c. caller c = t) (c # cs))" for t
  proof (cases "t = caller c")
    case True
    then show ?thesis using IH(4) [of t] own by (simp add: filter_map o_def)
  next
    case False
    then show ?thesis using IH(4) [of t] by (auto simp: filter_map o_def)
  qed
  then show ?case using r IH by (intro exI [of _ "map (Pair (caller c)) new @ lines"] exI [of _ L']) (simp add: o_def)
qed

text \<open>C23: Whatever the interleaving of the calls of several threads, the lines that a thread sends to the queue are those
  it would compose alone with its own stream, each line with its time stamp: lines of different threads never
  mix, and none is lost.\<close>

theorem Logger_lines_never_mix:
  assumes "\<forall>c \<in> set cs. clock_ok c"
  shows "\<exists>lines L'. log_calls cs ([], Logger_new) = Inr (lines, L')
          \<and> mLogQueue L' = map snd lines
          \<and> (\<forall>t. map snd (filter (\<lambda>p. fst p = t) lines) = thread_lines None (filter (\<lambda>c. caller c = t) cs))"
  using log_calls_lines [OF assms, of Logger_new "[]"] by (auto simp: Logger_new_def)

definition sample_calls :: "nat call list" where
  "sample_calls =
     [Insert 1 (''Mon'' @ [CHR 0x0A]) (ins_str ''a''), Insert 2 (''Tue'' @ [CHR 0x0A]) (ins_str ''b''),
      Manip 1 (''Tue'' @ [CHR 0x0A]) (''Wed'' @ [CHR 0x0A]) (ins_str [CHR 0x0A]), Manip 2 (''Wed'' @ [CHR 0x0A]) (''Wed'' @ [CHR 0x0A]) (ins_str [CHR 0x0A])]"

lemma Logger_lines_never_mix_witness:
  "\<exists>lines L'. log_calls sample_calls ([], Logger_new) = Inr (lines, L')
     \<and> map snd (filter (\<lambda>p. fst p = 1) lines) = [''Mon | a'' @ [CHR 0x0A]]
     \<and> map snd (filter (\<lambda>p. fst p = 2) lines) = [''Tue | b'' @ [CHR 0x0A]]"
proof -
  have ok: "\<forall>c \<in> set sample_calls. clock_ok c" by (simp add: sample_calls_def)
  have "thread_lines None (filter (\<lambda>c. caller c = 1) sample_calls) = [''Mon | a'' @ [CHR 0x0A]]"
    "thread_lines None (filter (\<lambda>c. caller c = 2) sample_calls) = [''Tue | b'' @ [CHR 0x0A]]"
    by (simp_all add: sample_calls_def own_stream_def stamp_def stream_ins_def ins_str_def fmt_default_def)
  then show ?thesis using Logger_lines_never_mix [OF ok] by auto
qed

section \<open>The printing thread and the destructor\<close>

text \<open>\<open>threadFunc_\<close> reads \<open>shutdown\<close> and \<open>mLogQueue.empty()\<close> without the mutex, one after the other; the queue is popped under
  it. The line is printed after the mutex was released. The wait on the condition ends by a notification or after
  a second. The constructor and the destructor wait on the same semaphore.\<close>

datatype log_pc = Starting | Checking | Testing | Popping | Printing string | Waiting | Detaching | Ended

datatype owner_pc = Constructing | Live | Joining | Draining | Gone

record 't log_run = "'t Logger" +
  thread_pc :: log_pc
  owner :: owner_pc
  mSemaphore :: Semaphore
  out :: "string list"
  submitted :: "string list"

definition log_init :: "'t log_run" where
  "log_init = \<lparr>mLogQueue = [], mLogMap = (\<lambda>_. None), shutdown = False, thread_pc = Starting, owner = Constructing,
               mSemaphore = Semaphore_new, out = [], submitted = []\<rparr>"

text \<open>The steps of the printing thread and of the owner, and the calls of the clients, which end with the life of the
  object.\<close>

inductive log_work :: "'t log_run \<Rightarrow> 't log_run \<Rightarrow> bool" where
  started: "thread_pc s = Starting \<Longrightarrow>
     log_work s (s\<lparr>mSemaphore := Semaphore_notify (mSemaphore s), thread_pc := Checking\<rparr>)"
| constructed: "owner s = Constructing \<Longrightarrow> Semaphore_wait (mSemaphore s) = Some m \<Longrightarrow>
     log_work s (s\<lparr>mSemaphore := m, owner := Live\<rparr>)"
| check: "thread_pc s = Checking \<Longrightarrow>
     log_work s (s\<lparr>thread_pc := if shutdown s then Detaching else Testing\<rparr>)"
| test: "thread_pc s = Testing \<Longrightarrow>
     log_work s (s\<lparr>thread_pc := if mLogQueue s = [] then Waiting else Popping\<rparr>)"
| pop: "thread_pc s = Popping \<Longrightarrow> Logger_pop s = Some (l, s') \<Longrightarrow> log_work s (s'\<lparr>thread_pc := Printing l\<rparr>)"
| print: "thread_pc s = Printing l \<Longrightarrow> log_work s (s\<lparr>out := out s @ [l], thread_pc := Checking\<rparr>)"
| wake: "thread_pc s = Waiting \<Longrightarrow> log_work s (s\<lparr>thread_pc := Checking\<rparr>)"
| detach: "thread_pc s = Detaching \<Longrightarrow>
     log_work s (s\<lparr>mSemaphore := Semaphore_notify (mSemaphore s), thread_pc := Ended\<rparr>)"
| joined: "owner s = Joining \<Longrightarrow> Semaphore_wait (mSemaphore s) = Some m \<Longrightarrow>
     log_work s (s\<lparr>mSemaphore := m, owner := Draining, mLogMap := (\<lambda>_. None)\<rparr>)"
| drain: "owner s = Draining \<Longrightarrow> Logger_pop s = Some (l, s') \<Longrightarrow> log_work s (s'\<lparr>out := out s @ [l]\<rparr>)"
| drained: "owner s = Draining \<Longrightarrow> Logger_pop s = None \<Longrightarrow> log_work s (s\<lparr>owner := Gone\<rparr>)"

inductive log_step :: "'t log_run \<Rightarrow> 't log_run \<Rightarrow> bool" where
  call: "owner s \<in> {Live, Joining, Draining} \<Longrightarrow> log_call c s = Inr s' \<Longrightarrow>
     log_step s (s'\<lparr>submitted := submitted s @ drop (length (mLogQueue s)) (mLogQueue s')\<rparr>)"
| destroy: "owner s = Live \<Longrightarrow> log_step s (s\<lparr>shutdown := True, owner := Joining\<rparr>)"
| work: "log_work s s' \<Longrightarrow> log_step s s'"

inductive log_reachable :: "'t log_run \<Rightarrow> bool" where
  init: "log_reachable log_init"
| step: "log_reachable s \<Longrightarrow> log_step s s' \<Longrightarrow> log_reachable s'"

definition in_hand :: "log_pc \<Rightarrow> string list" where
  "in_hand p = (case p of Printing l \<Rightarrow> [l] | _ \<Rightarrow> [])"

definition log_inv :: "'t log_run \<Rightarrow> bool" where
  "log_inv s \<longleftrightarrow>
     submitted s = out s @ in_hand (thread_pc s) @ mLogQueue s
     \<and> (thread_pc s = Popping \<longrightarrow> mLogQueue s \<noteq> [])
     \<and> (shutdown s \<longleftrightarrow> owner s \<in> {Joining, Draining, Gone})
     \<and> (thread_pc s \<in> {Detaching, Ended} \<longrightarrow> shutdown s)
     \<and> (owner s \<in> {Draining, Gone} \<longrightarrow> thread_pc s = Ended)
     \<and> (owner s \<noteq> Constructing \<longrightarrow> thread_pc s \<noteq> Starting)
     \<and> (owner s = Gone \<longrightarrow> mLogQueue s = [])
     \<and> sem_count (mSemaphore s) = (if thread_pc s \<noteq> Starting \<and> owner s = Constructing then 1 else 0)
                                + (if thread_pc s = Ended \<and> owner s = Joining then 1 else 0)"

lemma log_inv_init: "log_inv log_init"
  by (simp add: log_inv_def log_init_def in_hand_def Semaphore_new_def)

lemma clear_effect: "Logger_clear t now L = Inr L' \<Longrightarrow> \<exists>m. L' = L\<lparr>mLogMap := m\<rparr>"
  by (auto simp: Logger_clear_def split: option.splits prod.splits)

lemma entry_effect:
  assumes "Logger_getThreadEntry t now L = Inr (e, L')"
  shows "\<exists>m. L' = L\<lparr>mLogMap := m\<rparr>"
proof (cases "mLogMap L t")
  case None
  then show ?thesis
    using assms by (auto simp: Logger_getThreadEntry_def cxx_res dest!: clear_effect split: option.splits) blast
next
  case (Some a)
  then show ?thesis using assms by (auto simp: Logger_getThreadEntry_def intro: exI [of _ "mLogMap L"])
qed

lemma call_effect:
  assumes "log_call c s = Inr s'"
  shows "\<exists>m new. s' = s\<lparr>mLogMap := m, mLogQueue := mLogQueue s @ new\<rparr> \<and> (shutdown s \<longrightarrow> new = [])"
proof (cases "shutdown s")
  case True
  then have "s' = s" using assms by (cases c) (simp_all add: Logger_insert_def Logger_manip_def)
  then show ?thesis by (intro exI [of _ "mLogMap s"] exI [of _ "[]"]) simp
next
  case False
  show ?thesis
  proof (cases c)
    case (Insert t now a)
    then obtain m where "s' = s\<lparr>mLogMap := m\<rparr>"
      using assms False by (auto simp: Logger_insert_def cxx_res dest!: entry_effect)
    then show ?thesis by (intro exI [of _ m] exI [of _ "[]"]) simp
  next
    case (Manip t now now' pf)
    then obtain m l where "s' = s\<lparr>mLogMap := m, mLogQueue := mLogQueue s @ [l]\<rparr>"
      using assms False
      by (auto simp: Logger_manip_def cxx_res Let_def Logger_push_def dest!: entry_effect clear_effect)
    then show ?thesis using False by (intro exI [of _ m] exI [of _ "[l]"]) simp
  qed
qed

lemma log_inv_work:
  assumes "log_work s s'" and "log_inv s"
  shows "log_inv s'"
  using assms
  by cases
     (auto simp: log_inv_def in_hand_def Semaphore_wait_def Semaphore_notify_def Logger_pop_def
        split: if_splits list.splits)

lemma log_inv_step:
  assumes "log_step s s'" and "log_inv s"
  shows "log_inv s'"
  using assms
proof cases
  case (call c s1)
  obtain m new where "s1 = s\<lparr>mLogMap := m, mLogQueue := mLogQueue s @ new\<rparr>" "shutdown s \<longrightarrow> new = []"
    using call_effect [OF call(3)] by blast
  then show ?thesis using call(1,2) assms(2) by (auto simp: log_inv_def)
next
  case destroy
  then show ?thesis using assms(2) by (auto simp: log_inv_def)
next
  case work
  then show ?thesis using assms(2) by (rule log_inv_work)
qed

interpretation log_steps: guarded_steps log_step log_inv
  by unfold_locales (rule log_inv_step)

lemma log_reachable_inv: "log_reachable s \<Longrightarrow> log_inv s"
  by (induction rule: log_reachable.induct) (auto simp: log_inv_init intro: log_steps.keeps)

text \<open>C15: In every interleaving of the clients, the printing thread and the destructor, the lines printed are the lines
  submitted, in their order, up to the ones still in the queue; the thread never pops an empty queue, although it
  tests it without the mutex; and when the destructor has returned, every line was printed and the thread has ended.\<close>

theorem Logger_prints_in_order:
  assumes "log_reachable s"
  shows "(\<exists>rest. submitted s = out s @ rest)
         \<and> (thread_pc s = Popping \<longrightarrow> Logger_pop s \<noteq> None)
         \<and> (owner s = Gone \<longrightarrow> out s = submitted s \<and> thread_pc s = Ended)"
  using log_reachable_inv [OF assms] by (auto simp: log_inv_def Logger_pop_def in_hand_def split: list.splits)

section \<open>The destructor returns\<close>

fun log_pc_weight :: "log_pc \<Rightarrow> nat" where
  "log_pc_weight Ended = 0"
| "log_pc_weight Detaching = 1"
| "log_pc_weight Checking = 2"
| "log_pc_weight Waiting = 3"
| "log_pc_weight (Printing l) = 3"
| "log_pc_weight Popping = 4"
| "log_pc_weight Testing = 5"
| "log_pc_weight Starting = 3"

definition log_weight :: "'t log_run \<Rightarrow> nat" where
  "log_weight s = log_pc_weight (thread_pc s) + length (mLogQueue s)
     + (if owner s = Joining then 2 else if owner s = Draining then 1 else 0)"

definition closing :: "'t log_run \<Rightarrow> bool" where
  "closing s \<longleftrightarrow> log_inv s \<and> owner s \<in> {Joining, Draining, Gone}"

lemma closing_work:
  assumes "log_work s s'" and "closing s"
  shows "closing s' \<and> log_weight s' < log_weight s \<and> submitted s' = submitted s"
proof -
  have "log_inv s'" using log_inv_work assms by (auto simp: closing_def)
  moreover have "owner s' \<in> {Joining, Draining, Gone} \<and> log_weight s' < log_weight s \<and> submitted s' = submitted s"
    using assms
    by cases (auto simp: closing_def log_weight_def log_inv_def Logger_pop_def split: if_splits list.splits)
  ultimately show ?thesis by (simp add: closing_def)
qed

lemma closing_progress:
  assumes "closing s" and "owner s \<noteq> Gone"
  shows "\<exists>s'. log_work s s'"
proof (cases "thread_pc s = Ended")
  case True
  then show ?thesis
    using assms log_work.joined [of s] log_work.drain [of s] log_work.drained [of s]
    by (cases "Logger_pop s") (auto simp: closing_def log_inv_def Semaphore_wait_def)
next
  case False
  then show ?thesis
    using assms log_work.check [of s] log_work.test [of s] log_work.pop [of s] log_work.print [of s]
      log_work.wake [of s] log_work.detach [of s] log_work.started [of s]
    by (cases "thread_pc s"; cases "Logger_pop s") (auto simp: closing_def log_inv_def Logger_pop_def split: list.splits)
qed

interpretation log_close: winding_down log_work closing log_weight
  by unfold_locales (auto dest: closing_work)

lemma closing_ends:
  assumes "closing s"
  shows "\<exists>s'. log_work\<^sup>*\<^sup>* s s' \<and> owner s' = Gone \<and> out s' = submitted s"
proof -
  obtain s' where s': "log_work\<^sup>*\<^sup>* s s'" "closing s'" "\<nexists>u. log_work s' u"
    using log_close.comes_to_rest [OF assms] by blast
  have "submitted s' = submitted s \<and> closing s'"
    using s'(1) assms by (induction rule: rtranclp_induct) (auto dest: closing_work)
  then show ?thesis
    using s' closing_progress [of s'] by (auto simp: closing_def log_inv_def in_hand_def)
qed

text \<open>C26: Once the destructor was entered, the printing thread and the destructor take at most \<open>log_weight\<close> steps,
  some step is possible until the destructor returns, and it returns with every submitted line printed.\<close>

theorem Logger_destructor_returns:
  assumes "log_reachable s" and "owner s \<in> {Joining, Draining}"
  shows "(\<forall>n s'. (log_work ^^ n) s s' \<longrightarrow> n \<le> log_weight s \<and> (owner s' = Gone \<or> (\<exists>s''. log_work s' s'')))
         \<and> (\<exists>s'. log_work\<^sup>*\<^sup>* s s' \<and> owner s' = Gone \<and> out s' = submitted s)"
proof -
  have c: "closing s" using log_reachable_inv assms by (auto simp: closing_def)
  have "n \<le> log_weight s \<and> (owner s' = Gone \<or> (\<exists>s''. log_work s' s''))" if "(log_work ^^ n) s s'" for n s'
    using log_close.steps_bounded [OF that c] log_close.steps_keep [OF that c] closing_progress by fastforce
  then show ?thesis using closing_ends [OF c] by blast
qed

section \<open>A run\<close>

text \<open>The thread has started, a line was submitted, and the destructor has been entered.\<close>

definition sample_started :: "nat log_run" where
  "sample_started = log_init\<lparr>thread_pc := Checking, mSemaphore := Semaphore_new, owner := Live\<rparr>"

lemma sample_started_reachable: "log_reachable sample_started"
proof -
  let ?i = "log_init :: nat log_run"
  let ?a = "?i\<lparr>mSemaphore := Semaphore_notify (mSemaphore ?i), thread_pc := Checking\<rparr>"
  have a: "log_reachable ?a"
    by (rule log_reachable.step [OF log_reachable.init log_step.work [OF log_work.started]]) (simp add: log_init_def)
  have "log_work ?a (?a\<lparr>mSemaphore := Semaphore_new, owner := Live\<rparr>)"
    by (rule log_work.constructed) (simp_all add: log_init_def Semaphore_wait_def Semaphore_notify_def Semaphore_new_def)
  then have "log_reachable (?a\<lparr>mSemaphore := Semaphore_new, owner := Live\<rparr>)"
    by (rule log_reachable.step [OF a log_step.work])
  then show ?thesis by (simp add: sample_started_def)
qed

definition sample_closing :: "nat log_run" where
  "sample_closing = sample_started\<lparr>mLogMap := [1 \<mapsto> (''Mon | '', fmt_default)], mLogQueue := [''Mon | a'' @ [CHR 0x0A]],
     submitted := [''Mon | a'' @ [CHR 0x0A]], shutdown := True, owner := Joining\<rparr>"

lemma sample_closing_reachable: "log_reachable sample_closing"
proof -
  let ?c = "Manip 1 (''Mon'' @ [CHR 0x0A]) (''Mon'' @ [CHR 0x0A]) (ins_str (''a'' @ [CHR 0x0A]))"
  let ?b = "sample_started\<lparr>mLogMap := [1 \<mapsto> (''Mon | '', fmt_default)], mLogQueue := [''Mon | a'' @ [CHR 0x0A]]\<rparr>"
  have c: "log_call ?c sample_started = Inr ?b"
    by (simp add: sample_started_def log_init_def Logger_manip_def entry_own clear_stamp own_stream_def stamp_def
        stream_ins_def ins_str_def fmt_default_def Logger_push_def Let_def)
  have "owner sample_started \<in> {Live, Joining, Draining}" by (simp add: sample_started_def)
  then have "log_reachable (?b\<lparr>submitted := submitted sample_started @ drop (length (mLogQueue sample_started)) (mLogQueue ?b)\<rparr>)"
    by (rule log_reachable.step [OF sample_started_reachable log_step.call [OF _ c]])
  then have "log_reachable (?b\<lparr>submitted := [''Mon | a'' @ [CHR 0x0A]]\<rparr>)" by (simp add: sample_started_def log_init_def)
  then have "log_reachable (?b\<lparr>submitted := [''Mon | a'' @ [CHR 0x0A]], shutdown := True, owner := Joining\<rparr>)"
    by (rule log_reachable.step [OF _ log_step.destroy]) (simp add: sample_started_def)
  then show ?thesis by (simp add: sample_closing_def)
qed

lemma Logger_prints_in_order_witness: "\<exists>rest. submitted sample_closing = out sample_closing @ rest"
  using Logger_prints_in_order [OF sample_closing_reachable] by simp

lemma Logger_destructor_returns_witness:
  "\<exists>s'. log_work\<^sup>*\<^sup>* sample_closing s' \<and> owner s' = Gone \<and> out s' = [''Mon | a'' @ [CHR 0x0A]]"
  using Logger_destructor_returns [OF sample_closing_reachable] by (simp add: sample_closing_def)

end
