(* ===== verification/EventLoop.thy ===== *)
theory EventLoop
  imports ThreadPool
begin

text \<open>
  Pools whose jobs run a libevent loop, as \<open>Timer\<close> and \<open>HttpServer\<close> use them: the routine of such a job is
  \<open>event_base_dispatch\<close>, which returns only when libevent lets it. The steps of the pool are those of
  \<open>ThreadPool\<close>, except that a routine returns only in an environment that allows it (\<open>may_return\<close>); the return changes
  the environment (\<open>returned\<close>).
\<close>

definition finish_job :: "nat \<Rightarrow> 'r ThreadJobBase \<Rightarrow> ('r, 'c) pool_run \<Rightarrow> ('r, 'c) pool_run" where
  "finish_job i j s =
     setThread i ((mThreads s ! i)\<lparr>pc := Fetching\<rparr>) s
       \<lparr>hRan := hRan s @ [j], hCalls := hCalls s @ Thread_runJob j (mThreads s ! i)\<rparr>"

inductive loop_work ::
  "('e \<Rightarrow> nat \<Rightarrow> bool) \<Rightarrow> (nat \<Rightarrow> 'e \<Rightarrow> 'e) \<Rightarrow> ('r, 'c) pool_run \<times> 'e \<Rightarrow> ('r, 'c) pool_run \<times> 'e \<Rightarrow> bool"
  for may_return returned where
  routine_returns: "i < length (mThreads s) \<Longrightarrow> pc (mThreads s ! i) = Running j \<Longrightarrow> may_return e i \<Longrightarrow>
     loop_work may_return returned (s, e) (finish_job i j s, returned i e)"
| pool_moves: "pool_work s s' \<Longrightarrow> hRan s' = hRan s \<Longrightarrow> loop_work may_return returned (s, e) (s', e)"

lemma loop_work_pool: "loop_work m r x y \<Longrightarrow> pool_work (fst x) (fst y)"
  by (induction rule: loop_work.induct) (auto simp: finish_job_def intro: pool_work.run_job)

interpretation loop_rest: winding_down "loop_work m r" "\<lambda>x. pool_inv (fst x)" "\<lambda>x. pool_weight (fst x)" for m r
  by unfold_locales (auto dest: loop_work_pool intro: pool_inv_work work_decreases)

text \<open>At rest the pool is quiet, and the loops that are still running are those that may not return.\<close>

lemma loop_rest_quiet:
  assumes "\<nexists>y. loop_work m r (s, e) y"
  shows "quiet s" and "i < length (mThreads s) \<Longrightarrow> pc (mThreads s ! i) = Running j \<Longrightarrow> \<not> m e i"
proof -
  show "quiet s" using assms pool_moves [of s _ m r e] unfolding quiet_def by blast
  show "\<not> m e i" if "i < length (mThreads s)" "pc (mThreads s ! i) = Running j"
    using assms routine_returns [OF that, of m e r] by blast
qed

lemma loop_run_pool: "(loop_work m r)\<^sup>*\<^sup>* x y \<Longrightarrow> pool_work\<^sup>*\<^sup>* (fst x) (fst y)"
  by (induction rule: rtranclp_induct) (auto dest: loop_work_pool)

text \<open>The jobs that are not exit commands and have not been run are in the queue or held by a worker.\<close>

definition unfinished :: "('r, 'c) pool_run \<Rightarrow> nat" where
  "unfinished s = length (filter (\<lambda>j. \<not> isExit j) (hAdded s)) - length (hRan s)"

lemma unfinished_where:
  assumes "pool_inv s"
  shows "length (filter (\<lambda>j. \<not> isExit j) (hAdded s))
         = length (hRan s) + length (concat (map held (mThreads s))) + length (filter (\<lambda>j. \<not> isExit j) (mJobQueue s))"
proof -
  have "mset (hRan s) + mset (concat (map held (mThreads s))) = mset (filter (\<lambda>j. \<not> isExit j) (hTaken s))"
    using assms by (simp only: pool_inv_def)
  then have "length (hRan s) + length (concat (map held (mThreads s))) = length (filter (\<lambda>j. \<not> isExit j) (hTaken s))"
    by (metis size_mset size_union)
  moreover have "hAdded s = hTaken s @ mJobQueue s" using assms by (simp only: pool_inv_def)
  ultimately show ?thesis by simp
qed

text \<open>A pool of one worker without exit commands that is quiet and has an unfinished job is inside a routine.\<close>

lemma quiet_serves:
  assumes inv: "pool_inv s" and quiet: "quiet s" and one: "length (mThreads s) = 1"
    and no_exit: "filter isExit (hAdded s) = []" and todo: "0 < unfinished s"
  obtains j where "pc (mThreads s ! 0) = Running j"
proof -
  have t: "mThreads s = [mThreads s ! 0]" using one by (cases "mThreads s") auto
  have "filter isExit (hTaken s) = []" using no_exit inv by (simp add: pool_inv_def)
  then have "filter gone (mThreads s) = []" using inv by (simp add: pool_inv_def)
  then have "\<not> gone (mThreads s ! 0)" by (subst (asm) t) (auto split: if_splits)
  moreover have "pc (mThreads s ! 0) \<noteq> Sleeping"
  proof
    assume sl: "pc (mThreads s ! 0) = Sleeping"
    then have "mJobQueue s = []" using quiet_sleeper_empty [OF inv quiet, of "mThreads s ! 0"] one by simp
    moreover have "concat (map held (mThreads s)) = []" by (subst t) (simp add: held_def sl)
    ultimately show False using unfinished_where [OF inv] todo by (simp add: unfinished_def)
  qed
  ultimately show ?thesis using quiet_idle [OF inv quiet, of 0] one that by (auto simp: gone_def)
qed

text \<open>While no routine returns, running workers stay where they are, and a worker begins to run only what it takes from the
  queue.\<close>

lemma running_kept:
  assumes "pool_work s s'" and "hRan s' = hRan s" and "pool_inv s" and "pc (mThreads s ! i) = Running j" and "i < length (mThreads s)"
  shows "pc (mThreads s' ! i) = Running j"
  using assms
  by (cases rule: pool_work.cases)
     (auto simp: setThread_def nth_list_update Thread_start_wait_def delete_Some ThreadPool_threadGetNextJob_def split: list.splits)

lemma running_new:
  assumes "pool_work s s'" and "hRan s' = hRan s" and "pc (mThreads s' ! i) = Running j" and "i < length (mThreads s)"
  shows "pc (mThreads s ! i) = Running j \<or> j \<in> set (mJobQueue s) \<and> \<not> isExit j"
  using assms
  by (cases rule: pool_work.cases)
     (auto simp: setThread_def nth_list_update handshake_defs delete_Some ThreadPool_threadGetNextJob_def pc_ops
        split: list.splits if_splits)

text \<open>A job is added, and \<open>notify_one\<close> wakes one of the sleeping workers, if there is one.\<close>

definition job_added :: "'r ThreadJobBase \<Rightarrow> ('r, 'c) pool_run \<Rightarrow> ('r, 'c) pool_run \<Rightarrow> bool" where
  "job_added j s s' \<longleftrightarrow>
     (\<exists>ts. notify_one (mThreads s) ts \<and> s' = (ThreadPool_addJob j s)\<lparr>mThreads := ts, hAdded := hAdded s @ [j]\<rparr>)"

lemma job_added_step: "job_added j s s' \<Longrightarrow> pool_step s s'"
  by (auto simp: job_added_def intro: pool_step.add_job)

lemma job_added_simps:
  assumes "job_added j s s'"
  shows "hAdded s' = hAdded s @ [j]" "hRan s' = hRan s" "hTaken s' = hTaken s" "mJobQueue s' = mJobQueue s @ [j]"
    "length (mThreads s') = length (mThreads s)" "poolBase s' = poolBase s"
    "i < length (mThreads s) \<Longrightarrow> pc (mThreads s' ! i) = Running k \<longleftrightarrow> pc (mThreads s ! i) = Running k"
    "i < length (mThreads s) \<Longrightarrow> startReturned (mThreads s' ! i) = startReturned (mThreads s ! i)"
    "i < length (mThreads s) \<Longrightarrow> gone (mThreads s' ! i) = gone (mThreads s ! i)"
  using assms
  by (auto simp: job_added_def ThreadPool_addJob_def nth_list_update gone_def elim!: notify_one_cases split: if_splits)

lemma job_added_weight: "job_added j s s' \<Longrightarrow> pool_weight s' \<le> pool_weight s + 5"
proof -
  assume "job_added j s s'"
  then obtain ts where ts: "notify_one (mThreads s) ts"
      "s' = (ThreadPool_addJob j s)\<lparr>mThreads := ts, hAdded := hAdded s @ [j]\<rparr>"
    by (auto simp: job_added_def)
  from ts(1) have "sum_list (map thread_weight ts) \<le> sum_list (map thread_weight (mThreads s)) + 1"
  proof (cases rule: notify_one_cases)
    case (one i)
    then show ?thesis
      using weight_update [OF one(1), of "(mThreads s ! i)\<lparr>pc := Fetching\<rparr>"] by (simp add: thread_weight_def)
  qed simp
  then show ?thesis by (simp add: ts(2) pool_weight_def ThreadPool_addJob_def)
qed

text \<open>The choice of \<open>notify_one\<close> when it wakes the first sleeping worker.\<close>

fun wake_first :: "('r, 'c) Thread list \<Rightarrow> ('r, 'c) Thread list" where
  "wake_first [] = []"
| "wake_first (t # ts) = (if pc t = Sleeping then t\<lparr>pc := Fetching\<rparr> # ts else t # wake_first ts)"

lemma wake_first_length [simp]: "length (wake_first ts) = length ts"
  by (induction ts) auto

lemma notify_wake_first: "notify_one ts (wake_first ts)"
proof (induction ts)
  case (Cons t ts)
  show ?case
  proof (cases "pc t = Sleeping")
    case True
    then show ?thesis by (auto simp: notify_one_def intro!: exI [of _ 0])
  next
    case False
    from Cons show ?thesis
    proof (cases rule: notify_one_cases)
      case none
      then show ?thesis using False by (auto simp: notify_one_def)
    next
      case (one i)
      then show ?thesis using False by (auto simp: notify_one_def intro!: exI [of _ "Suc i"])
    qed
  qed
qed (simp add: notify_one_def)

lemma job_can_be_added: "\<exists>s'. job_added j s s'"
  unfolding job_added_def using notify_wake_first by blast

section \<open>Pools of one worker\<close>

text \<open>\<open>addJob\<close> by a client, where the first sleeping worker is the only one.\<close>

definition pool_add :: "'r ThreadJobBase \<Rightarrow> ('r, 'c) pool_run \<Rightarrow> ('r, 'c) pool_run" where
  "pool_add j p = (ThreadPool_addJob j p)\<lparr>mThreads := wake_first (mThreads p), hAdded := hAdded p @ [j]\<rparr>"

lemma pool_add_step: "pool_step p (pool_add j p)"
  unfolding pool_add_def by (rule pool_step.add_job [OF notify_wake_first])

lemma pool_add_simps [simp]:
  "hAdded (pool_add j p) = hAdded p @ [j]" "hRan (pool_add j p) = hRan p" "poolBase (pool_add j p) = poolBase p"
  "length (mThreads (pool_add j p)) = length (mThreads p)"
  by (simp_all add: pool_add_def ThreadPool_addJob_def)

lemma unfinished_add:
  assumes "pool_inv p"
  shows "unfinished (pool_add j p) = (if isExit j then unfinished p else Suc (unfinished p))"
  using unfinished_where [OF assms] by (simp add: unfinished_def)

lemma running_add [simp]:
  "length (mThreads p) = 1 \<Longrightarrow> pc (mThreads (pool_add j p) ! 0) = Running k \<longleftrightarrow> pc (mThreads p ! 0) = Running k"
  by (cases "mThreads p") (auto simp: pool_add_def)

lemma work_poolBase: "pool_work s s' \<Longrightarrow> poolBase s' = poolBase s"
  by (induction rule: pool_work.induct)
     (auto simp: setThread_def ThreadPool_threadGetNextJob_def split: list.splits)

text \<open>The worker is started and waits for its first job.\<close>

definition waiting_thread :: "bool \<Rightarrow> nat ThreadJobBase pc \<Rightarrow> (nat, unit) Thread" where
  "waiting_thread base q = \<lparr>mThread = Some (Joinable 7), mBase = base, mEventBase = base, mSemaphore = Semaphore_new, mInitCbk = None,
     mDeInitCbk = None, pc = q, startReturned = True, deleteReturned = False\<rparr>"

lemma cstate_unit [simp]: "(p :: (nat, unit) pool_run)\<lparr>cstate := u\<rparr> = p"
  by (cases p) simp

lemma one_worker_starts:
  "(\<lambda>u v. pool_work u v \<and> hRan v = hRan u)\<^sup>*\<^sup>* (pool_init 1 base ())
     ((pool_init 1 base ())\<lparr>mThreads := [waiting_thread base Fetching]\<rparr>)"
proof -
  let ?p = "pool_init 1 base () :: (nat, unit) pool_run"
  let ?t1 = "Thread_start 7 (Thread_new_base base) :: (nat, unit) Thread"
  let ?t2 = "fst (Thread_run_begin ?t1 ())"
  let ?R = "\<lambda>u v. pool_work u v \<and> hRan v = hRan u"
  have s1: "?R ?p (setThread 0 ?t1 ?p)" using pool_work.start [of 0 ?p 7] by simp
  have s2: "?R (setThread 0 ?t1 ?p) (setThread 0 ?t2 ?p)"
    using pool_work.run_begin [of 0 "setThread 0 ?t1 ?p" ?t2 "()"] by (simp add: setThread_def pc_ops prod_eq_iff)
  have t3: "Thread_start_wait ?t2 = Some (waiting_thread base Fetching)" "pc ?t2 = Fetching" "\<not> startReturned ?t2"
    by (simp_all add: handshake_defs waiting_thread_def Thread_new_base_def Thread_new_cbk_def Semaphore_wait_def
        Semaphore_notify_def Semaphore_new_def)
  have s3: "?R (setThread 0 ?t2 ?p) (?p\<lparr>mThreads := [waiting_thread base Fetching]\<rparr>)"
    using pool_work.started [of 0 "setThread 0 ?t2 ?p" "waiting_thread base Fetching"] t3
    by (simp add: setThread_def)
  show ?thesis
    using s1 converse_rtranclp_into_rtranclp [of ?R, OF s2 r_into_rtranclp [of ?R, OF s3]] by (rule converse_rtranclp_into_rtranclp [of ?R])
qed

end
