(* ===== verification/Timer.thy ===== *)
theory Timer
  imports EventLoop
begin

text \<open>
  \<open>src/timer.cpp\<close>: classes \<open>TimerEvent\<close> and \<open>Timer\<close>. The \<open>TimerEvent\<close> objects are shared between the client, libevent and
  the jobs, so they live in a store (\<open>tEvents\<close>) and a pointer is an index; a deleted object leaves \<open>None\<close>. libevent's timers are in
  \<open>evTimers\<close>, likewise. A method is the list of its atomic actions (\<open>Timer_create1\<close>, \<open>Timer_restart\<close>, \<open>Timer_destroy\<close>), since the
  worker and other threads can be observed between them; \<open>perform\<close> is one action. Timers run in the event loop of the
  worker of the pool, which \<open>timer_step\<close> describes.
\<close>

section \<open>class TimerEvent\<close>

record timeval =
  tv_sec :: int
  tv_usec :: int

record 'f TimerEvent =
  mTv :: timeval
  mOnTimerEvent :: "'f option"
  mThis :: "nat option"
  mEvent :: "nat option"

definition TimerEvent_new :: "timeval \<Rightarrow> 'f option \<Rightarrow> nat option \<Rightarrow> 'f TimerEvent" where
  "TimerEvent_new tv f this =
     \<lparr>mTv = \<lparr>tv_sec = tv_sec tv, tv_usec = tv_usec tv\<rparr>, mOnTimerEvent = f, mThis = this, mEvent = None\<rparr>"

definition setEvent :: "nat option \<Rightarrow> 'f TimerEvent \<Rightarrow> 'f TimerEvent" where
  "setEvent ev e = e\<lparr>mEvent := ev\<rparr>"

section \<open>class Timer\<close>

text \<open>A libevent timer: whether it has an event base, the argument of its callback, and when it is due (in microseconds) if it is
  armed.\<close>

record ev_timer =
  on_base :: bool
  target :: nat
  due :: "int option"

record 'f Timer =
  tPool :: "(nat, unit) pool_run"
  tEvents :: "'f TimerEvent option list"
  evTimers :: "ev_timer option list"

text \<open>The constructor: the pool has one thread, with an event base. \<open>p\<close> is the pool when \<open>new ThreadPool(1, true)\<close> has returned.\<close>

definition Timer_new :: "u32 \<Rightarrow> (nat, unit) pool_run \<Rightarrow> 'f Timer" where
  "Timer_new n p = \<lparr>tPool = p, tEvents = [], evTimers = []\<rparr>"

definition timer_pool :: "(nat, unit) pool_run" where
  "timer_pool = pool_init 1 True ()"

definition getThreadEventBase :: "'f Timer \<Rightarrow> bool res" where
  "getThreadEventBase t =
     (case mThreads (tPool t) of [] \<Rightarrow> Inl UB_out_of_bounds | th # ths \<Rightarrow> Inr (Thread_getEventBase th))"

text \<open>\<open>evtimer_new\<close>, \<open>evtimer_add\<close> (which fails without a base), \<open>evtimer_del\<close> with \<open>free\<close>.\<close>

definition evtimer_add :: "int \<Rightarrow> ev_timer \<Rightarrow> ev_timer" where
  "evtimer_add at x = (if on_base x then x\<lparr>due := Some at\<rparr> else x)"

definition usec :: "timeval \<Rightarrow> int" where
  "usec tv = tv_sec tv * 1000000 + tv_usec tv"

text \<open>The atomic actions: the libevent part of \<open>create_\<close>; the job that runs the event loop; the first part of \<open>restart\<close>;
  the whole of \<open>destroy\<close>.\<close>

datatype action = Arm nat | AddJob nat | Disarm nat | Free nat

definition timer_job :: "nat \<Rightarrow> nat ThreadJobBase" where
  "timer_job p = fst (ThreadJob_new (Some 0) (Some p) 0)"

fun perform :: "int \<Rightarrow> action \<Rightarrow> 'f Timer \<Rightarrow> 'f Timer res" where
  "perform now (Arm p) t =
     bindR (getThreadEventBase t) (\<lambda>base.
     bindR (deref (tEvents t) p) (\<lambda>e.
       let ev = length (evTimers t);
           e' = setEvent (Some ev) e;
           x = evtimer_add (now + usec (mTv e')) \<lparr>on_base = base, target = p, due = None\<rparr>
       in Inr (t\<lparr>tEvents := (tEvents t)[p := Some e'], evTimers := evTimers t @ [Some x]\<rparr>)))"
| "perform now (AddJob p) t = Inr (t\<lparr>tPool := pool_add (timer_job p) (tPool t)\<rparr>)"
| "perform now (Disarm p) t =
     bindR (deref (tEvents t) p) (\<lambda>e.
       case mEvent e of
         None \<Rightarrow> Inl UB_null_deref
       | Some ev \<Rightarrow>
           bindR (deref (evTimers t) ev) (\<lambda>x.
             Inr (t\<lparr>tEvents := (tEvents t)[p := Some (setEvent None e)], evTimers := (evTimers t)[ev := None]\<rparr>)))"
| "perform now (Free p) t =
     bindR (deref (tEvents t) p) (\<lambda>e.
       case mEvent e of
         None \<Rightarrow> Inl UB_null_deref
       | Some ev \<Rightarrow>
           bindR (deref (evTimers t) ev) (\<lambda>x.
             Inr (t\<lparr>tEvents := (tEvents t)[p := None], evTimers := (evTimers t)[ev := None]\<rparr>)))"

definition Timer_create1 :: "nat \<Rightarrow> action list" where
  "Timer_create1 p = [Arm p, AddJob p]"

text \<open>\<open>create\<close>: the new object and its address, and what is left to do.\<close>

definition Timer_create :: "timeval \<Rightarrow> 'f option \<Rightarrow> nat option \<Rightarrow> 'f Timer \<Rightarrow> nat \<times> action list \<times> 'f Timer" where
  "Timer_create tv f this t =
     (let p = length (tEvents t)
      in (p, Timer_create1 p, t\<lparr>tEvents := tEvents t @ [Some (TimerEvent_new tv f this)]\<rparr>))"

definition Timer_restart :: "nat \<Rightarrow> action list" where
  "Timer_restart p = [Disarm p, AddJob p] @ Timer_create1 p"

definition Timer_destroy :: "nat \<Rightarrow> action list" where
  "Timer_destroy p = [Free p]"

text \<open>The destructor of the class \<open>TimerEvent\<close>, called by a client that deletes the object itself.\<close>

definition TimerEvent_delete :: "nat \<Rightarrow> 'f Timer \<Rightarrow> 'f Timer" where
  "TimerEvent_delete p t = t\<lparr>tEvents := (tEvents t)[p := None]\<rparr>"

text \<open>A whole method without interference.\<close>

definition perform_all :: "int \<Rightarrow> action list \<Rightarrow> 'f Timer \<Rightarrow> 'f Timer res" where
  "perform_all now as t = foldR (perform now) as t"

text \<open>\<open>_onEvTimer\<close>: what libevent calls for a timer that is due, which is not armed any more. The result is the call of the
  client's callback, with the event and the client's pointer.\<close>

definition onEvTimer :: "nat \<Rightarrow> 'f Timer \<Rightarrow> ('f \<times> nat \<times> nat option) list res" where
  "onEvTimer p t =
     bindR (deref (tEvents t) p) (\<lambda>e. Inr (case mOnTimerEvent e of None \<Rightarrow> [] | Some f \<Rightarrow> [(f, p, mThis e)]))"

definition expire :: "int \<Rightarrow> nat \<Rightarrow> 'f Timer \<Rightarrow> (('f \<times> nat \<times> nat option) list \<times> 'f Timer) res" where
  "expire now ev t =
     bindR (deref (evTimers t) ev) (\<lambda>x.
       let t' = t\<lparr>evTimers := (evTimers t)[ev := Some (x\<lparr>due := None\<rparr>)]\<rparr>
       in bindR (onEvTimer (target x) t') (\<lambda>cs. Inr (cs, t')))"

definition is_due :: "int \<Rightarrow> nat \<Rightarrow> 'f Timer \<Rightarrow> bool" where
  "is_due now ev t \<longleftrightarrow>
     ev < length (evTimers t) \<and> (case evTimers t ! ev of None \<Rightarrow> False | Some x \<Rightarrow> (case due x of None \<Rightarrow> False | Some d \<Rightarrow> d \<le> now))"

definition is_armed :: "ev_timer option \<Rightarrow> bool" where
  "is_armed x \<longleftrightarrow> (case x of None \<Rightarrow> False | Some y \<Rightarrow> due y \<noteq> None)"

definition armed :: "'f Timer \<Rightarrow> bool" where
  "armed t \<longleftrightarrow> (\<exists>x \<in> set (evTimers t). is_armed x)"

section \<open>The timer and its worker\<close>

text \<open>What the client's callback does with the event it gets: nothing, restart it (as \<open>ProcStat\<close> does), or destroy it.\<close>

datatype reaction = Ignore | Restart | Destroy

fun react :: "reaction \<Rightarrow> nat \<Rightarrow> action list" where
  "react Ignore p = []"
| "react Restart p = Timer_restart p"
| "react Destroy p = Timer_destroy p"

text \<open>\<open>clock\<close> is the time, \<open>calls\<close> what the client threads have left of the methods they are in, \<open>cbk\<close> what the callback
  that the event loop is in has left, \<open>fired\<close> the callbacks called so far.\<close>

record 'f timer_run =
  tmr :: "'f Timer"
  clock :: int
  calls :: "action list list"
  cbk :: "action list"
  fired :: "('f \<times> nat \<times> nat option) list"

text \<open>\<open>event_base_dispatch\<close> returns when no timer is armed, and not from within a callback.\<close>

definition dispatch_returns :: "'f timer_run \<Rightarrow> nat \<Rightarrow> bool" where
  "dispatch_returns s i \<longleftrightarrow> \<not> armed (tmr s) \<and> cbk s = []"

definition set_pool :: "(nat, unit) pool_run \<Rightarrow> 'f timer_run \<Rightarrow> 'f timer_run" where
  "set_pool p s = s\<lparr>tmr := (tmr s)\<lparr>tPool := p\<rparr>\<rparr>"

text \<open>The constructor of the timer has returned when its thread has started.\<close>

definition constructed :: "'f timer_run \<Rightarrow> bool" where
  "constructed s \<longleftrightarrow> startReturned (mThreads (tPool (tmr s)) ! 0)"

text \<open>The steps of the worker, and of everybody: a client enters a method or takes its next action, time passes, the
  destructor queues its exit command, the worker wakes without reason.\<close>

inductive worker_step :: "('f \<Rightarrow> reaction) \<Rightarrow> 'f timer_run \<Rightarrow> 'f timer_run \<Rightarrow> bool" for beh where
  pool: "loop_work dispatch_returns (\<lambda>i e. e) (tPool (tmr s), s) (p, s) \<Longrightarrow> worker_step beh s (set_pool p s)"
| expires: "pc (mThreads (tPool (tmr s)) ! 0) = Running j \<Longrightarrow> cbk s = [] \<Longrightarrow> is_due (clock s) ev (tmr s) \<Longrightarrow>
     expire (clock s) ev (tmr s) = Inr (cs, t) \<Longrightarrow>
     worker_step beh s (s\<lparr>tmr := t, cbk := concat (map (\<lambda>(f, p, this). react (beh f) p) cs), fired := fired s @ cs\<rparr>)"
| callback: "cbk s = a # as \<Longrightarrow> perform (clock s) a (tmr s) = Inr t \<Longrightarrow> worker_step beh s (s\<lparr>tmr := t, cbk := as\<rparr>)"

inductive client_step :: "'f timer_run \<Rightarrow> 'f timer_run \<Rightarrow> bool" where
  create: "constructed s \<Longrightarrow> Timer_create tv f this (tmr s) = (p, as, t) \<Longrightarrow> client_step s (s\<lparr>tmr := t, calls := calls s @ [as]\<rparr>)"
| restart: "constructed s \<Longrightarrow> client_step s (s\<lparr>calls := calls s @ [Timer_restart p]\<rparr>)"
| destroy: "constructed s \<Longrightarrow> client_step s (s\<lparr>calls := calls s @ [Timer_destroy p]\<rparr>)"
| action: "i < length (calls s) \<Longrightarrow> calls s ! i = a # as \<Longrightarrow> perform (clock s) a (tmr s) = Inr t \<Longrightarrow>
     client_step s (s\<lparr>tmr := t, calls := (calls s)[i := as]\<rparr>)"

inductive outer_step :: "'f timer_run \<Rightarrow> 'f timer_run \<Rightarrow> bool" where
  tick: "clock s \<le> n \<Longrightarrow> outer_step s (s\<lparr>clock := n\<rparr>)"
| delete: "outer_step s (set_pool (pool_add exit_job (tPool (tmr s))) s)"
| spurious: "pc (mThreads (tPool (tmr s)) ! 0) = Sleeping \<Longrightarrow>
     outer_step s (set_pool (setThread 0 ((mThreads (tPool (tmr s)) ! 0)\<lparr>pc := Fetching\<rparr>) (tPool (tmr s))) s)"

definition timer_init :: "'f timer_run" where
  "timer_init = \<lparr>tmr = Timer_new 1 timer_pool, clock = 0, calls = [], cbk = [], fired = []\<rparr>"

inductive timer_reachable :: "('f \<Rightarrow> reaction) \<Rightarrow> 'f timer_run \<Rightarrow> bool" for beh where
  init: "timer_reachable beh timer_init"
| worker: "timer_reachable beh s \<Longrightarrow> worker_step beh s s' \<Longrightarrow> timer_reachable beh s'"
| client: "timer_reachable beh s \<Longrightarrow> client_step s s' \<Longrightarrow> timer_reachable beh s'"
| outer: "timer_reachable beh s \<Longrightarrow> outer_step s s' \<Longrightarrow> timer_reachable beh s'"

section \<open>No timer is forgotten\<close>

fun paired :: "action list \<Rightarrow> bool" where
  "paired [] = True"
| "paired (Arm p # as) = ((\<exists>q bs. as = AddJob q # bs) \<and> paired as)"
| "paired (a # as) = paired as"

definition owes_job :: "action list \<Rightarrow> bool" where
  "owes_job as \<longleftrightarrow> (\<exists>p bs. as = AddJob p # bs)"

lemma owes_job_Nil [simp]: "\<not> owes_job []"
  by (simp add: owes_job_def)

lemma paired_methods [simp]: "paired (Timer_create1 p)" "paired (Timer_restart p)" "paired (Timer_destroy p)" "paired (react r p)"
  by (cases r; simp add: Timer_create1_def Timer_restart_def Timer_destroy_def)+

lemma paired_append: "paired as \<Longrightarrow> paired bs \<Longrightarrow> paired (as @ bs)"
  by (induction as rule: paired.induct) auto

definition timer_inv :: "'f timer_run \<Rightarrow> bool" where
  "timer_inv s \<longleftrightarrow>
     pool_inv (tPool (tmr s)) \<and> length (mThreads (tPool (tmr s))) = 1 \<and> poolBase (tPool (tmr s)) \<and>
     (\<forall>as \<in> set (cbk s # calls s). paired as) \<and>
     (armed (tmr s) \<longrightarrow> 0 < unfinished (tPool (tmr s)) \<or> (\<exists>as \<in> set (cbk s # calls s). owes_job as)) \<and>
     (cbk s \<noteq> [] \<longrightarrow> (\<exists>j. pc (mThreads (tPool (tmr s)) ! 0) = Running j))"

text \<open>What an action does to the pool and to the armed timers.\<close>

lemma perform_pool:
  assumes "perform n a t = Inr t'"
  shows "tPool t' = (case a of AddJob p \<Rightarrow> pool_add (timer_job p) (tPool t) | _ \<Rightarrow> tPool t)"
  using assms by (cases a) (auto simp: bindR_Inr_iff Let_def split: option.splits)

lemma armed_update_None: "armed (t\<lparr>evTimers := (evTimers t)[i := None]\<rparr>) \<Longrightarrow> armed t"
  using set_update_subset_insert [of "evTimers t" i None] by (auto simp: armed_def is_armed_def split: option.splits)

lemma perform_armed:
  assumes "perform n a t = Inr t'" and "armed t'" and "\<nexists>p. a = Arm p"
  shows "armed t"
proof -
  have "\<And>i. set ((evTimers t)[i := None]) \<subseteq> insert None (set (evTimers t))" by (rule set_update_subset_insert)
  then show ?thesis
    using assms by (cases a) (fastforce simp: bindR_Inr_iff armed_def is_armed_def split: option.splits)+
qed

lemma timer_job_not_exit [simp]: "\<not> isExit (timer_job p)"
  by (simp add: timer_job_def ThreadJob_new_def ThreadJobBase_new_def isExit_def)

text \<open>The parts of the invariant that an action of a method keeps: \<open>a\<close> was the head of some thread's list, which is
  \<open>as\<close> now.\<close>

lemma perform_keeps:
  assumes inv: "timer_inv s" and p: "perform n a (tmr s) = Inr t" and arm: "paired (a # as)"
  shows "pool_inv (tPool t) \<and> length (mThreads (tPool t)) = 1 \<and> poolBase (tPool t)"
    and "pc (mThreads (tPool t) ! 0) = Running j \<longleftrightarrow> pc (mThreads (tPool (tmr s)) ! 0) = Running j"
    and "armed t \<Longrightarrow> 0 < unfinished (tPool t) \<or> owes_job as \<or> (\<exists>bs \<in> set (cbk s # calls s). bs \<noteq> a # as \<and> owes_job bs)"
proof -
  have pool: "pool_inv (tPool (tmr s))" "length (mThreads (tPool (tmr s))) = 1" "poolBase (tPool (tmr s))"
    using inv by (simp_all add: timer_inv_def)
  note t = perform_pool [OF p]
  show "pool_inv (tPool t) \<and> length (mThreads (tPool t)) = 1 \<and> poolBase (tPool t)"
    using pool t pool_inv_step [OF pool_add_step] by (cases a) auto
  show "pc (mThreads (tPool t) ! 0) = Running j \<longleftrightarrow> pc (mThreads (tPool (tmr s)) ! 0) = Running j"
    using pool t by (cases a) auto
  show "0 < unfinished (tPool t) \<or> owes_job as \<or> (\<exists>bs \<in> set (cbk s # calls s). bs \<noteq> a # as \<and> owes_job bs)" if "armed t"
  proof (cases a)
    case (Arm q)
    then show ?thesis using arm by (auto simp: owes_job_def)
  next
    case (AddJob q)
    then show ?thesis using t unfinished_add [OF pool(1), of "timer_job q"] by simp
  next
    case (Disarm q)
    then show ?thesis
      using inv t perform_armed [OF p that] by (auto simp: timer_inv_def owes_job_def)
  next
    case (Free q)
    then show ?thesis
      using inv t perform_armed [OF p that] by (auto simp: timer_inv_def owes_job_def)
  qed
qed

lemma paired_tail: "paired (a # as) \<Longrightarrow> paired as"
  by (cases a) auto

lemma expire_Inr:
  assumes "expire n ev t = Inr (cs, t')"
  shows "tPool t' = tPool t" and "armed t' \<Longrightarrow> armed t" and "cs = [] \<or> (\<exists>f p this. cs = [(f, p, this)])"
proof -
  obtain x where x: "deref (evTimers t) ev = Inr x" "t' = t\<lparr>evTimers := (evTimers t)[ev := Some (x\<lparr>due := None\<rparr>)]\<rparr>"
      "onEvTimer (target x) t' = Inr cs"
    using assms by (auto simp: expire_def bindR_Inr_iff Let_def)
  show "tPool t' = tPool t" by (simp add: x(2))
  show "armed t" if "armed t'"
    using that set_update_subset_insert [of "evTimers t" ev "Some (x\<lparr>due := None\<rparr>)"]
    by (auto simp: x(2) armed_def is_armed_def)
  show "cs = [] \<or> (\<exists>f p this. cs = [(f, p, this)])"
    using x(3) by (auto simp: onEvTimer_def bindR_Inr_iff split: option.splits)
qed

lemma timer_inv_worker: "worker_step beh s s' \<Longrightarrow> timer_inv s \<Longrightarrow> timer_inv s'"
proof (induction rule: worker_step.induct)
  case (pool s p)
  have w: "pool_work (tPool (tmr s)) p" using loop_work_pool [OF pool(1)] by simp
  then have pinv: "pool_inv p" "length (mThreads p) = 1" "poolBase p" "hAdded p = hAdded (tPool (tmr s))"
    using pool(2) pool_inv_work work_keeps [OF w] work_poolBase [OF w] by (auto simp: timer_inv_def)
  from pool(1) show ?case
  proof (cases rule: loop_work.cases)
    case routine_returns
    then have "\<not> armed (tmr s)" "cbk s = []" by (simp_all add: dispatch_returns_def)
    then show ?thesis using pinv pool(2) by (auto simp: timer_inv_def set_pool_def armed_def)
  next
    case pool_moves
    note 2 = this
    have "pc (mThreads p ! 0) = Running j" if "pc (mThreads (tPool (tmr s)) ! 0) = Running j" for j
      using w 2 that pool(2)
      by (cases rule: pool_work.cases)
         (auto simp: timer_inv_def setThread_def nth_list_update less_Suc_eq Thread_start_wait_def thread_ok_def pool_inv_def
            delete_Some)
    then show ?thesis using pinv pool(2) 2 by (auto simp: timer_inv_def set_pool_def armed_def unfinished_def)
  qed
next
  case (expires s j ev cs t)
  then show ?case using expire_Inr [OF expires(4)] by (auto simp: timer_inv_def)
next
  case (callback s a as t)
  then have as: "paired (a # as)" by (auto simp: timer_inv_def)
  note k = perform_keeps [OF callback(3,2) as]
  show ?case
    using callback k paired_tail [OF as] by (auto simp: timer_inv_def)
qed

lemma timer_inv_client: "client_step s s' \<Longrightarrow> timer_inv s \<Longrightarrow> timer_inv s'"
proof (induction rule: client_step.induct)
  case (create s tv f this p as t)
  then show ?case by (auto simp: timer_inv_def Timer_create_def Let_def armed_def)
next
  case (action i s a as t)
  have mem: "a # as \<in> set (calls s)" using action(1,2) by (metis nth_mem)
  then have as: "paired (a # as)" using action(4) by (auto simp: timer_inv_def)
  note k = perform_keeps [OF action(4,3) as]
  have "as \<in> set ((calls s)[i := as])" using action(1) by (rule set_update_memI)
  moreover have "bs \<in> set ((calls s)[i := as])" if "bs \<in> set (calls s)" "bs \<noteq> a # as" for bs
    using that action(1,2) by (metis in_set_conv_nth length_list_update nth_list_update_neq)
  moreover have sub: "set ((calls s)[i := as]) \<subseteq> insert as (set (calls s))" by (rule set_update_subset_insert)
  ultimately have "0 < unfinished (tPool t) \<or> (\<exists>bs \<in> set (cbk s # (calls s)[i := as]). owes_job bs)" if "armed t"
    using k(3) [OF that] by (metis list.set_intros(1) list.set_intros(2) set_ConsD)
  moreover have "\<forall>bs \<in> set (cbk s # (calls s)[i := as]). paired bs"
    using action(4) sub paired_tail [OF as] by (auto simp: timer_inv_def)
  ultimately show ?case using action(4) k(1,2) by (simp add: timer_inv_def)
qed (auto simp: timer_inv_def)

lemma timer_inv_outer: "outer_step s s' \<Longrightarrow> timer_inv s \<Longrightarrow> timer_inv s'"
proof (induction rule: outer_step.induct)
  case (delete s)
  then show ?case
    using pool_inv_step [OF pool_add_step] unfinished_add [of "tPool (tmr s)" exit_job]
    by (auto simp: timer_inv_def set_pool_def armed_def)
next
  case (spurious s)
  let ?p = "tPool (tmr s)"
  have "length (mThreads ?p) = 1" using spurious(2) by (simp add: timer_inv_def)
  then have "pool_step ?p (setThread 0 ((mThreads ?p ! 0)\<lparr>pc := Fetching\<rparr>) ?p)"
    using spurious(1) by (intro pool_step.spurious) auto
  then have "pool_inv (setThread 0 ((mThreads ?p ! 0)\<lparr>pc := Fetching\<rparr>) ?p)"
    using spurious(2) by (auto simp: timer_inv_def intro: pool_inv_step)
  then show ?case using spurious by (auto simp: timer_inv_def set_pool_def armed_def unfinished_def setThread_def)
qed (auto simp: timer_inv_def)

lemma timer_inv_init: "timer_inv timer_init"
  by (simp add: timer_inv_def timer_init_def Timer_new_def timer_pool_def pool_inv_init armed_def)

lemma timer_reachable_inv: "timer_reachable beh s \<Longrightarrow> timer_inv s"
  by (induction rule: timer_reachable.induct)
     (auto intro: timer_inv_init timer_inv_worker timer_inv_client timer_inv_outer)

section \<open>Properties\<close>

text \<open>C4: No timer is forgotten. In every reachable state, whatever clients, callbacks and the worker do in which order: while a
  timer is armed and no thread is just about to queue the job of a method, there is a job that runs the event loop, in the
  hands of the worker or in the queue.\<close>

theorem Timer_not_forgotten:
  assumes "timer_reachable beh s" and "armed (tmr s)" and "\<forall>as \<in> set (cbk s # calls s). \<not> owes_job as"
  shows "\<exists>j \<in> set (concat (map held (mThreads (tPool (tmr s)))) @ mJobQueue (tPool (tmr s))). \<not> isExit j"
proof -
  have inv: "timer_inv s" using assms(1) by (rule timer_reachable_inv)
  then have "0 < unfinished (tPool (tmr s))" using assms(2,3) by (auto simp: timer_inv_def)
  moreover have pinv: "pool_inv (tPool (tmr s))" using inv by (simp add: timer_inv_def)
  ultimately have n: "concat (map held (mThreads (tPool (tmr s)))) \<noteq> [] \<or> filter (\<lambda>j. \<not> isExit j) (mJobQueue (tPool (tmr s))) \<noteq> []"
    using unfinished_where [OF pinv] by (auto simp: unfinished_def)
  have "\<not> isExit j" if "j \<in> set (concat (map held (mThreads (tPool (tmr s)))))" for j
  proof -
    have "j \<in># mset (hRan (tPool (tmr s))) + mset (concat (map held (mThreads (tPool (tmr s)))))" using that by simp
    then have "j \<in># mset (filter (\<lambda>j. \<not> isExit j) (hTaken (tPool (tmr s))))" using pinv by (simp only: pool_inv_def)
    then show ?thesis by simp
  qed
  then show ?thesis using n by (fastforce simp: filter_empty_conv neq_Nil_conv)
qed

definition call_of_event :: "nat \<Rightarrow> 'f TimerEvent \<Rightarrow> ('f \<times> nat \<times> nat option) list" where
  "call_of_event p e = (case mOnTimerEvent e of None \<Rightarrow> [] | Some f \<Rightarrow> [(f, p, mThis e)])"

abbreviation loop_steps :: "'f timer_run \<Rightarrow> (nat, unit) pool_run \<Rightarrow> bool" where
  "loop_steps s p \<equiv> (loop_work dispatch_returns (\<lambda>i e. e))\<^sup>*\<^sup>* (tPool (tmr s), s) (p, s)
     \<and> (\<nexists>y. loop_work dispatch_returns (\<lambda>i e. e) (p, s) y)"

lemma loop_env: "(loop_work m (\<lambda>i e. e))\<^sup>*\<^sup>* x y \<Longrightarrow> snd y = snd x"
  by (induction rule: rtranclp_induct) (auto elim: loop_work.cases)

lemma served:
  assumes inv: "timer_inv s" and no_exit: "filter isExit (hAdded (tPool (tmr s))) = []"
    and idle: "cbk s = []" "\<forall>as \<in> set (calls s). as = []"
    and due: "is_due (clock s) ev (tmr s)" and x: "evTimers (tmr s) ! ev = Some x"
    and e: "deref (tEvents (tmr s)) (target x) = Inr e"
    and run: "loop_steps s p"
  shows "\<exists>s'. worker_step beh (set_pool p s) s' \<and> fired s' = fired s @ call_of_event (target x) e"
proof -
  have w: "pool_work\<^sup>*\<^sup>* (tPool (tmr s)) p" using run loop_run_pool by fastforce
  have pinv: "pool_inv p" "length (mThreads p) = 1" "filter isExit (hAdded p) = []"
    using inv no_exit loop_rest.run_keeps [of _ _ "(tPool (tmr s), s)" "(p, s)"] run works_keep [OF w]
    by (auto simp: timer_inv_def)
  have ev: "ev < length (evTimers (tmr s))" "due x \<noteq> None" using due x by (auto simp: is_due_def split: option.splits)
  then have "is_armed (evTimers (tmr s) ! ev)" using x by (simp add: is_armed_def)
  then have arm: "armed (tmr s)" unfolding armed_def using ev(1) nth_mem by blast
  then have "0 < unfinished (tPool (tmr s))" using inv idle by (auto simp: timer_inv_def)
  moreover have "hRan p = hRan (tPool (tmr s))"
  proof -
    have "hRan q = hRan (tPool (tmr s)) \<and> f = s" if "(loop_work dispatch_returns (\<lambda>i e. e))\<^sup>*\<^sup>* (tPool (tmr s), s) (q, f)" for q f
      using that arm by (induction rule: rtranclp_induct2) (auto simp: dispatch_returns_def elim: loop_work.cases)
    then show ?thesis using run by blast
  qed
  ultimately have "0 < unfinished p" using works_keep [OF w] by (simp add: unfinished_def)
  then obtain j where j: "pc (mThreads p ! 0) = Running j"
    using quiet_serves [OF pinv(1) loop_rest_quiet(1) [OF conjunct2 [OF run]] pinv(2,3)] by blast
  let ?t = "tmr (set_pool p s)"
  let ?t' = "?t\<lparr>evTimers := (evTimers ?t)[ev := Some (x\<lparr>due := None\<rparr>)]\<rparr>"
  have "deref (evTimers ?t) ev = Inr x" using ev(1) x by (simp add: deref_def set_pool_def)
  then have "expire (clock s) ev ?t = Inr (call_of_event (target x) e, ?t')"
    using e by (simp add: expire_def onEvTimer_def call_of_event_def set_pool_def)
  then show ?thesis
    using worker_step.expires [of "set_pool p s" j ev "call_of_event (target x) e" ?t' beh] j idle due
    by (auto simp: set_pool_def is_due_def)
qed

text \<open>C16: A timer that is due is served. From every reachable state in which no method is in progress and the destructor has not begun, the
  worker comes to a point where it can do nothing but call back, whatever it does until then; there the callback of the
  due timer is called, with its event and the client's pointer.\<close>

theorem Timer_expiry_served:
  assumes "timer_reachable beh s" and "filter isExit (hAdded (tPool (tmr s))) = []"
    and "cbk s = []" and "\<forall>as \<in> set (calls s). as = []"
    and "is_due (clock s) ev (tmr s)" and "evTimers (tmr s) ! ev = Some x"
    and "deref (tEvents (tmr s)) (target x) = Inr e"
  shows "(\<exists>p. loop_steps s p)
    \<and> (\<forall>p. loop_steps s p \<longrightarrow> (\<exists>s'. worker_step beh (set_pool p s) s' \<and> fired s' = fired s @ call_of_event (target x) e))"
proof -
  have inv: "timer_inv s" using assms(1) by (rule timer_reachable_inv)
  then have "pool_inv (tPool (tmr s))" by (simp add: timer_inv_def)
  then obtain y where y: "(loop_work dispatch_returns (\<lambda>i e. e))\<^sup>*\<^sup>* (tPool (tmr s), s) y"
      "\<nexists>u. loop_work dispatch_returns (\<lambda>i e. e) y u"
    using loop_rest.comes_to_rest [of "(tPool (tmr s), s)"] by fastforce
  then have "y = (fst y, s)" using loop_env by (metis prod.collapse snd_conv)
  then have "\<exists>p. loop_steps s p" using y by metis
  then show ?thesis using served [OF inv assms(2-7)] by blast
qed

text \<open>A timer whose callback restarts it: the event loop of the worker never ends.\<close>

definition always_calls :: "'f Timer \<Rightarrow> bool" where
  "always_calls t \<longleftrightarrow> (\<forall>e. Some e \<in> set (tEvents t) \<longrightarrow> mOnTimerEvent e \<noteq> None)"

definition looping :: "'f timer_run \<Rightarrow> bool" where
  "looping s \<longleftrightarrow> timer_inv s \<and> (\<exists>j. pc (mThreads (tPool (tmr s)) ! 0) = Running j) \<and> always_calls (tmr s)
     \<and> (\<exists>p k. cbk s = drop k (Timer_restart p) \<and> (3 \<le> k \<longrightarrow> armed (tmr s)))"

lemma always_calls_deref: "always_calls t \<Longrightarrow> deref (tEvents t) p = Inr e \<Longrightarrow> mOnTimerEvent e \<noteq> None"
  by (auto simp: always_calls_def deref_def split: if_splits option.splits dest!: nth_mem)

lemma perform_calls: "perform n a t = Inr t' \<Longrightarrow> always_calls t \<Longrightarrow> always_calls t'"
proof -
  assume p: "perform n a t = Inr t'" and t: "always_calls t"
  have upd: "mOnTimerEvent e \<noteq> None"
    if "Some e \<in> set ((tEvents t)[i := x])" "\<And>d. x = Some d \<Longrightarrow> mOnTimerEvent d \<noteq> None" for e i x
  proof -
    have "x = Some e \<or> Some e \<in> set (tEvents t)"
      using that(1) set_update_subset_insert [of "tEvents t" i x] by blast
    then show ?thesis using that(2) [of e] t by (auto simp: always_calls_def)
  qed
  show ?thesis unfolding always_calls_def
  proof (intro allI impI)
    fix e
    assume e: "Some e \<in> set (tEvents t')"
    show "mOnTimerEvent e \<noteq> None"
    proof (cases a)
      case (AddJob q)
      then show ?thesis using p e t by (auto simp: always_calls_def)
    next
      case (Arm q)
      then obtain d ev where "tEvents t' = (tEvents t)[q := Some (setEvent (Some ev) d)]" "deref (tEvents t) q = Inr d"
        using p by (auto simp: bindR_Inr_iff Let_def)
      then show ?thesis
        using upd [of e q "Some (setEvent (Some ev) d)"] e always_calls_deref [OF t, of q d] by (simp add: setEvent_def)
    next
      case (Disarm q)
      then obtain d where "tEvents t' = (tEvents t)[q := Some (setEvent None d)]" "deref (tEvents t) q = Inr d"
        using p by (auto simp: bindR_Inr_iff Let_def split: option.splits)
      then show ?thesis
        using upd [of e q "Some (setEvent None d)"] e always_calls_deref [OF t, of q d] by (simp add: setEvent_def)
    next
      case (Free q)
      then have "tEvents t' = (tEvents t)[q := None]" using p by (auto simp: bindR_Inr_iff split: option.splits)
      then show ?thesis using upd [of e q None] e by simp
    qed
  qed
qed

lemma armed_appended: "armed (t\<lparr>evTimers := evTimers t @ [x]\<rparr>) \<longleftrightarrow> armed t \<or> is_armed x"
  by (auto simp: armed_def)

lemma arm_arms:
  assumes "timer_inv s" and "pc (mThreads (tPool (tmr s)) ! 0) = Running j" and "perform n (Arm p) (tmr s) = Inr t"
  shows "armed t"
proof -
  let ?th = "mThreads (tPool (tmr s)) ! 0"
  have one: "mThreads (tPool (tmr s)) = [?th]" using assms(1) by (cases "mThreads (tPool (tmr s))") (auto simp: timer_inv_def)
  then have "thread_ok ?th" "mBase ?th" using assms(1) by (auto simp: timer_inv_def pool_inv_def)
  then have "getThreadEventBase (tmr s) = Inr True"
    using assms(2) by (subst getThreadEventBase_def, subst one) (simp add: Thread_getEventBase_def thread_ok_def begun_def)
  then show ?thesis
    using assms(3) by (auto simp: bindR_Inr_iff Let_def evtimer_add_def armed_def is_armed_def)
qed

lemma looping_step:
  assumes beh: "\<forall>f. beh f = Restart" and s: "looping s" and step: "worker_step beh s s' \<or> outer_step s s'"
  shows "looping s'"
proof -
  have inv: "timer_inv s" using s by (simp add: looping_def)
  have inv': "timer_inv s'" using step timer_inv_worker timer_inv_outer inv by blast
  obtain j where j: "pc (mThreads (tPool (tmr s)) ! 0) = Running j" using s by (auto simp: looping_def)
  show ?thesis
  proof (cases "worker_step beh s s'")
    case True
    then show ?thesis
    proof (cases rule: worker_step.cases)
      case (pool p)
      have "\<not> dispatch_returns s i" for i
        using s by (auto simp: looping_def dispatch_returns_def Timer_restart_def Timer_create1_def)
      then have w: "pool_work (tPool (tmr s)) p" "hRan p = hRan (tPool (tmr s))"
        using pool(2) by (auto elim: loop_work.cases)
      have "pc (mThreads p ! 0) = Running j"
        using w j inv
        by (cases rule: pool_work.cases)
           (auto simp: timer_inv_def setThread_def less_Suc_eq Thread_start_wait_def thread_ok_def pool_inv_def delete_Some)
      then show ?thesis using s inv' pool(1) by (auto simp: looping_def set_pool_def armed_def always_calls_def)
    next
      case (expires k ev cs t)
      have t: "tPool t = tPool (tmr s)" "tEvents t = tEvents (tmr s)"
        using expires(5) by (auto simp: expire_def bindR_Inr_iff Let_def)
      obtain x where x: "deref (evTimers (tmr s)) ev = Inr x" "onEvTimer (target x) t = Inr cs"
        using expires(5) by (auto simp: expire_def bindR_Inr_iff Let_def)
      obtain e where e: "deref (tEvents (tmr s)) (target x) = Inr e"
          "cs = (case mOnTimerEvent e of None \<Rightarrow> [] | Some f \<Rightarrow> [(f, target x, mThis e)])"
        using x(2) t(2) by (auto simp: onEvTimer_def bindR_Inr_iff)
      have "mOnTimerEvent e \<noteq> None" using s always_calls_deref [OF _ e(1)] by (simp add: looping_def)
      then have "cbk s' = drop 0 (Timer_restart (target x))" using e(2) beh expires(1) by auto
      then have "\<exists>p k. cbk s' = drop k (Timer_restart p) \<and> (3 \<le> k \<longrightarrow> armed (tmr s'))" by (metis not_numeral_le_zero)
      then show ?thesis using s inv' j t expires(1) by (auto simp: looping_def always_calls_def)
    next
      case (callback a as t)
      have pcs: "pc (mThreads (tPool t) ! 0) = Running j"
        using perform_keeps(2) [OF inv callback(3)] callback(2) inv j by (auto simp: timer_inv_def)
      obtain p k where k: "a # as = drop k (Timer_restart p)" "3 \<le> k \<longrightarrow> armed (tmr s)"
        using s callback(2) by (auto simp: looping_def)
      then have "k < length (Timer_restart p)" by (metis drop_all linorder_not_less list.distinct(1))
      then have ak: "a = Timer_restart p ! k" "as = drop (Suc k) (Timer_restart p)" "k < 4"
        using k(1) by (auto simp: Cons_nth_drop_Suc [symmetric] Timer_restart_def Timer_create1_def)
      have "armed t" if "2 \<le> k"
      proof (cases "k = 2")
        case True
        then have "a = Arm p" using ak(1) by (simp add: Timer_restart_def Timer_create1_def)
        then show ?thesis using arm_arms [OF inv j] callback(3) by blast
      next
        case False
        then have "k = 3" using that ak(3) by simp
        then show ?thesis
          using ak(1) k(2) callback(3) by (auto simp: Timer_restart_def Timer_create1_def armed_def)
      qed
      then have "\<exists>p k. as = drop k (Timer_restart p) \<and> (3 \<le> k \<longrightarrow> armed t)" using ak(2) by fastforce
      then show ?thesis
        using inv' pcs callback(1) perform_calls [OF callback(3)] s by (auto simp: looping_def)
    qed
  next
    case False
    then have "outer_step s s'" using step by blast
    then show ?thesis
      using s inv'
      by (cases rule: outer_step.cases) (auto simp: looping_def set_pool_def armed_def always_calls_def timer_inv_def)
  qed
qed

text \<open>A periodic timer blocks the destructor for ever. Once the worker is in the event loop with an armed timer whose callback
  restarts it, and no other thread uses the timer, the loop never returns, whatever happens and however often the destructor has
  queued its exit command: the worker keeps running the same job and the destructor does not return.\<close>

theorem Timer_periodic_never_deleted:
  assumes "timer_reachable beh s" and "\<forall>f. beh f = Restart" and "always_calls (tmr s)" and "armed (tmr s)" and "cbk s = []"
    and "pc (mThreads (tPool (tmr s)) ! 0) = Running j"
    and "(\<lambda>u v. worker_step beh u v \<or> outer_step u v)\<^sup>*\<^sup>* s s'"
  shows "(\<exists>j. pc (mThreads (tPool (tmr s')) ! 0) = Running j) \<and> \<not> deleteReturned (mThreads (tPool (tmr s')) ! 0)"
proof -
  have "cbk s = drop 4 (Timer_restart 0)" using assms(5) by (simp add: Timer_restart_def Timer_create1_def)
  then have "looping s"
    unfolding looping_def using timer_reachable_inv [OF assms(1)] assms(3,4,6) by blast
  with assms(7) have "looping s'"
    by (induction rule: rtranclp_induct) (auto intro: looping_step [OF assms(2)])
  then show ?thesis
    by (cases "mThreads (tPool (tmr s'))") (auto simp: looping_def timer_inv_def pool_inv_def thread_ok_def)
qed

lemma base_pool_add [simp]:
  "getThreadEventBase (t\<lparr>tPool := pool_add j p\<rparr>) = getThreadEventBase (t\<lparr>tPool := p\<rparr>)"
  by (simp add: getThreadEventBase_def Thread_getEventBase_def pool_add_def split: list.split)

lemma base_other [simp]:
  "getThreadEventBase (t\<lparr>tEvents := es\<rparr>) = getThreadEventBase t" "getThreadEventBase (t\<lparr>evTimers := evs\<rparr>) = getThreadEventBase t"
  "getThreadEventBase (t\<lparr>tPool := tPool t\<rparr>) = getThreadEventBase t"
  by (simp_all add: getThreadEventBase_def)

lemma restart_result:
  assumes "deref (tEvents t) p = Inr e" and "mEvent e = Some ev" and "deref (evTimers t) ev = Inr x"
    and "getThreadEventBase t = Inr True"
  shows "perform_all now (Timer_restart p) t
    = Inr (t\<lparr>tPool := pool_add (timer_job p) (pool_add (timer_job p) (tPool t)),
             tEvents := (tEvents t)[p := Some (e\<lparr>mEvent := Some (length (evTimers t))\<rparr>)],
             evTimers := (evTimers t)[ev := None] @ [Some \<lparr>on_base = True, target = p, due = Some (now + usec (mTv e))\<rparr>]\<rparr>)"
proof -
  have "p < length (tEvents t)" "tEvents t ! p = Some e" "ev < length (evTimers t)" "evTimers t ! ev = Some x"
    using assms(1,3) by (simp_all add: deref_def split: if_splits option.splits)
  then show ?thesis
    using assms by (simp add: perform_all_def Timer_restart_def Timer_create1_def deref_def evtimer_add_def setEvent_def Let_def)
qed

text \<open>Restarting a timer, as a whole: the old libevent timer is freed, a new one is armed with the interval of the event from now on,
  the event refers to it and keeps its interval, callback and argument, and two jobs are queued.\<close>

theorem Timer_restart_rearms:
  assumes "deref (tEvents t) p = Inr e" and "mEvent e = Some ev" and "deref (evTimers t) ev = Inr x"
    and "getThreadEventBase t = Inr True"
  shows "\<exists>t'. perform_all now (Timer_restart p) t = Inr t'
    \<and> deref (tEvents t') p = Inr (e\<lparr>mEvent := Some (length (evTimers t))\<rparr>)
    \<and> evTimers t' = (evTimers t)[ev := None] @ [Some \<lparr>on_base = True, target = p, due = Some (now + usec (mTv e))\<rparr>]
    \<and> mJobQueue (tPool t') = mJobQueue (tPool t) @ [timer_job p, timer_job p]"
proof -
  have "p < length (tEvents t)" using assms(1) by (simp add: deref_def split: if_splits)
  then show ?thesis using restart_result [OF assms] by (simp add: deref_def pool_add_def ThreadPool_addJob_def)
qed

section \<open>A sample run\<close>

text \<open>A timer of five microseconds is created; its worker has fetched the job, and the timer is due.\<close>

abbreviation ready_thread :: "nat ThreadJobBase pc \<Rightarrow> (nat, unit) Thread" where
  "ready_thread \<equiv> waiting_thread True"

definition ready_pool :: "(nat, unit) pool_run" where
  "ready_pool = timer_pool\<lparr>mThreads := [ready_thread Fetching]\<rparr>"

definition sample_event :: "nat TimerEvent" where
  "sample_event = \<lparr>mTv = \<lparr>tv_sec = 0, tv_usec = 5\<rparr>, mOnTimerEvent = Some 9, mThis = Some 3, mEvent = Some 0\<rparr>"

definition looping_pool :: "(nat, unit) pool_run" where
  "looping_pool = timer_pool\<lparr>hAdded := [timer_job 0], mThreads := [ready_thread (Running (timer_job 0))], hTaken := [timer_job 0]\<rparr>"

definition sample_looping :: "nat timer_run" where
  "sample_looping =
     \<lparr>tmr = \<lparr>tPool = looping_pool, tEvents = [Some sample_event],
             evTimers = [Some \<lparr>on_base = True, target = 0, due = Some 5\<rparr>]\<rparr>,
      clock = 10, calls = [[]], cbk = [], fired = []\<rparr>"

lemma reach_pool:
  "timer_reachable beh s \<Longrightarrow> pool_work (tPool (tmr s)) p \<Longrightarrow> hRan p = hRan (tPool (tmr s)) \<Longrightarrow> timer_reachable beh (set_pool p s)"
  by (blast intro: timer_reachable.worker worker_step.pool loop_work.pool_moves)

lemma timer_pool_simps [simp]: "mThreads timer_pool = [Thread_new_base True]" "hRan timer_pool = []" "hAdded timer_pool = []"
  "mJobQueue timer_pool = []" "hTaken timer_pool = []"
  by (simp_all add: timer_pool_def)

lemma set_pool_simps [simp]: "set_pool p (set_pool q s) = set_pool p s" "tPool (tmr (set_pool p s)) = p" "set_pool (tPool (tmr s)) s = s"
  by (simp_all add: set_pool_def)

lemma reach_pools:
  "(\<lambda>u v. pool_work u v \<and> hRan v = hRan u)\<^sup>*\<^sup>* (tPool (tmr s)) p \<Longrightarrow> timer_reachable beh s \<Longrightarrow> timer_reachable beh (set_pool p s)"
proof (induction rule: rtranclp_induct)
  case (step q p)
  then show ?case using reach_pool [of beh "set_pool q s" p] by simp
qed simp

lemma ready_reachable: "timer_reachable beh (set_pool ready_pool timer_init)"
  using one_worker_starts [of True]
  by (intro reach_pools timer_reachable.init) (simp add: timer_init_def Timer_new_def timer_pool_def ready_pool_def)

lemma sample_looping_reachable: "timer_reachable beh sample_looping"
proof -
  let ?s1 = "set_pool ready_pool timer_init :: nat timer_run"
  let ?t2 = "(tmr ?s1)\<lparr>tEvents := [Some (sample_event\<lparr>mEvent := None\<rparr>)]\<rparr>"
  let ?s2 = "?s1\<lparr>tmr := ?t2, calls := [Timer_create1 0]\<rparr>"
  let ?t3 = "\<lparr>tPool = ready_pool, tEvents = [Some sample_event], evTimers = [Some \<lparr>on_base = True, target = 0, due = Some 5\<rparr>]\<rparr>"
  let ?s3 = "?s2\<lparr>tmr := ?t3, calls := [[AddJob 0]]\<rparr>"
  let ?t4 = "?t3\<lparr>tPool := pool_add (timer_job 0) ready_pool\<rparr>"
  let ?s4 = "?s3\<lparr>tmr := ?t4, calls := [[]]\<rparr>"
  have "client_step ?s1 ?s2"
    using client_step.create [of ?s1 "\<lparr>tv_sec = 0, tv_usec = 5\<rparr>" "Some 9" "Some 3" 0 "Timer_create1 0" ?t2]
    by (simp add: constructed_def set_pool_def timer_init_def Timer_new_def Timer_create_def TimerEvent_new_def
        sample_event_def ready_pool_def waiting_thread_def)
  then have r2: "timer_reachable beh ?s2" by (rule timer_reachable.client [OF ready_reachable])
  have "client_step ?s2 ?s3"
    using client_step.action [of 0 ?s2 "Arm 0" "[AddJob 0]" ?t3]
    by (simp add: Timer_create1_def set_pool_def timer_init_def Timer_new_def ready_pool_def waiting_thread_def
        getThreadEventBase_def Thread_getEventBase_def deref_def setEvent_def sample_event_def evtimer_add_def usec_def)
  then have r3: "timer_reachable beh ?s3" by (rule timer_reachable.client [OF r2])
  have "client_step ?s3 ?s4" using client_step.action [of 0 ?s3 "AddJob 0" "[]" ?t4] by simp
  then have r4: "timer_reachable beh ?s4" by (rule timer_reachable.client [OF r3])
  have "pool_work (pool_add (timer_job 0) ready_pool) looping_pool"
    using pool_work.fetch [of 0 "pool_add (timer_job 0) ready_pool" "timer_job 0" "ready_pool\<lparr>hAdded := [timer_job 0]\<rparr>"]
    by (simp add: pool_add_def ready_pool_def waiting_thread_def ThreadPool_addJob_def ThreadPool_threadGetNextJob_def
        Thread_run_got_def setThread_def looping_pool_def)
  then have r5: "timer_reachable beh (set_pool looping_pool ?s4)"
    by (intro reach_pool [OF r4]) (simp_all add: looping_pool_def ready_pool_def)
  have "outer_step (set_pool looping_pool ?s4) (set_pool looping_pool ?s4\<lparr>clock := 10\<rparr>)"
    by (rule outer_step.tick) (simp add: set_pool_def timer_init_def)
  then have "timer_reachable beh (set_pool looping_pool ?s4\<lparr>clock := 10\<rparr>)" by (rule timer_reachable.outer [OF r5])
  then show ?thesis by (simp add: set_pool_def timer_init_def sample_looping_def)
qed

lemma sample_facts:
  "armed (tmr sample_looping)" "cbk sample_looping = []" "calls sample_looping = [[]]" "is_due (clock sample_looping) 0 (tmr sample_looping)"
  "deref (tEvents (tmr sample_looping)) 0 = Inr sample_event" "filter isExit (hAdded (tPool (tmr sample_looping))) = []"
  "pc (mThreads (tPool (tmr sample_looping)) ! 0) = Running (timer_job 0)" "always_calls (tmr sample_looping)"
  "evTimers (tmr sample_looping) ! 0 = Some \<lparr>on_base = True, target = 0, due = Some 5\<rparr>"
  by (simp_all add: sample_looping_def armed_def is_armed_def is_due_def deref_def looping_pool_def waiting_thread_def always_calls_def
      sample_event_def)

theorem Timer_not_forgotten_witness:
  "\<exists>j \<in> set (concat (map held (mThreads looping_pool)) @ mJobQueue looping_pool). \<not> isExit j"
proof -
  have p: "tPool (tmr sample_looping) = looping_pool" by (simp add: sample_looping_def)
  show ?thesis
    using Timer_not_forgotten [of "\<lambda>_. Restart" sample_looping, OF sample_looping_reachable] by (simp add: sample_facts p)
qed

theorem Timer_expiry_served_witness:
  "\<exists>p s'. worker_step (\<lambda>_. Restart) (set_pool p sample_looping) s' \<and> fired s' = [(9, 0, Some 3)]"
proof -
  have x: "target \<lparr>on_base = True, target = 0, due = Some 5\<rparr> = 0" by simp
  have c: "fired sample_looping = []" "call_of_event 0 sample_event = [(9, 0, Some 3)]"
    by (simp_all add: sample_looping_def sample_event_def call_of_event_def)
  have "\<forall>as \<in> set (calls sample_looping). as = []" by (simp add: sample_facts)
  note t = Timer_expiry_served [OF sample_looping_reachable sample_facts(6,2) this sample_facts(4,9), unfolded x, OF sample_facts(5)]
  then show ?thesis using c by (metis append_Nil)
qed

theorem Timer_periodic_never_deleted_witness:
  "\<exists>s'. outer_step sample_looping s' \<and> hAdded (tPool (tmr s')) = [timer_job 0, exit_job] \<and> \<not> deleteReturned (mThreads (tPool (tmr s')) ! 0)"
proof -
  let ?s = "set_pool (pool_add exit_job (tPool (tmr sample_looping))) sample_looping"
  have o: "outer_step sample_looping ?s" by (rule outer_step.delete)
  then have r: "(\<lambda>u v. worker_step (\<lambda>_. Restart) u v \<or> outer_step u v)\<^sup>*\<^sup>* sample_looping ?s" by blast
  have "hAdded (tPool (tmr ?s)) = [timer_job 0, exit_job]" by (simp add: set_pool_def sample_looping_def looping_pool_def)
  moreover have "\<not> deleteReturned (mThreads (tPool (tmr ?s)) ! 0)"
    using Timer_periodic_never_deleted [OF sample_looping_reachable _ sample_facts(8,1,2,7) r] by simp
  ultimately show ?thesis using o by blast
qed

theorem Timer_restart_rearms_witness:
  "\<exists>t'. perform_all 10 (Timer_restart 0) (tmr sample_looping) = Inr t'
     \<and> evTimers t' = [None, Some \<lparr>on_base = True, target = 0, due = Some 15\<rparr>]"
proof -
  have "mEvent sample_event = Some 0" "getThreadEventBase (tmr sample_looping) = Inr True"
    "deref (evTimers (tmr sample_looping)) 0 = Inr \<lparr>on_base = True, target = 0, due = Some 5\<rparr>"
    by (simp_all add: sample_event_def sample_looping_def looping_pool_def waiting_thread_def getThreadEventBase_def
        Thread_getEventBase_def deref_def)
  then show ?thesis
    using Timer_restart_rearms [OF sample_facts(5), of 0 "\<lparr>on_base = True, target = 0, due = Some 5\<rparr>" 10]
    by (auto simp: sample_looping_def sample_event_def usec_def)
qed

end
