(* ===== verification/ProcStat.thy ===== *)
theory ProcStat
  imports Timer UnorderedMap
begin

text \<open>
  \<open>src/proc-stat.cpp\<close>: the parser of \<open>/proc/<pid>/stat\<close> and the class around it. \<open>sscanf\<close> is modelled for the
  directives that the format uses; the fields of \<open>proc_t\<close> that the parser writes are values of a function
  on the field names, next to the command and the state.
\<close>

section \<open>proc_t\<close>

datatype proc_field =
    ppid | pgrp | session | tty | tpgid
  | flags | min_flt | cmin_flt | maj_flt | cmaj_flt
  | utime | stime | cutime | cstime
  | priority | nice | nlwp | alarm | start_time | vsize | rss
  | rss_rlim | start_code | end_code | start_stack | kstk_esp | kstk_eip
  | wchan | exit_signal | processor | rtprio | sched

record proc_t =
  cmd :: string
  state :: char
  num :: "proc_field \<Rightarrow> int"

definition proc_zero :: proc_t where
  "proc_zero = \<lparr>cmd = [], state = CHR 0x00, num = (\<lambda>f. 0)\<rparr>"

section \<open>sscanf\<close>

text \<open>The conversions: \<open>%d\<close>, \<open>%ld\<close> and \<open>%lu\<close>/\<open>%Lu\<close> into a field, and the two that discard their input,
  \<open>%*s\<close> and \<open>%*lu\<close>. White space of the format skips white space of the input, as the conversions do anyway.\<close>

datatype conv = Int32 proc_field | Int64 proc_field | UInt64 proc_field | Skip_word | Skip_num

definition white :: "char \<Rightarrow> bool" where
  "white c \<longleftrightarrow> c = CHR '' '' \<or> (9 \<le> (of_char c :: nat) \<and> (of_char c :: nat) \<le> 13)"

definition read_num :: "string \<Rightarrow> (int \<times> string) option" where
  "read_num s =
     (let neg = (str_front s = CHR ''-'');
          u = (if neg \<or> str_front s = CHR ''+'' then drop 1 s else s);
          ds = takeWhile is_digit u;
          n = int (decimal_value ds 0)
      in if ds = [] then None else Some (if neg then - n else n, dropWhile is_digit u))"

text \<open>The value a conversion stores; a value that does not fit is undefined.\<close>

definition store_num :: "conv \<Rightarrow> int \<Rightarrow> (proc_field \<Rightarrow> int) \<Rightarrow> (proc_field \<Rightarrow> int) res" where
  "store_num c v f =
     (case c of
        Int32 x \<Rightarrow> if - (2 ^ 31) \<le> v \<and> v < 2 ^ 31 then Inr (f(x := v)) else Inl UB_signed_overflow
      | Int64 x \<Rightarrow> if - (2 ^ 63) \<le> v \<and> v < 2 ^ 63 then Inr (f(x := v)) else Inl UB_signed_overflow
      | UInt64 x \<Rightarrow> if - (2 ^ 64) < v \<and> v < 2 ^ 64 then Inr (f(x := v mod 2 ^ 64)) else Inl UB_signed_overflow
      | Skip_word \<Rightarrow> Inr f
      | Skip_num \<Rightarrow> Inr f)"

fun scan :: "conv list \<Rightarrow> string \<Rightarrow> (proc_field \<Rightarrow> int) \<Rightarrow> (proc_field \<Rightarrow> int) res" where
  "scan [] s f = Inr f"
| "scan (c # cs) s f =
     (let s' = dropWhile white s in
      case c of
        Skip_word \<Rightarrow> if s' = [] then Inr f else scan cs (dropWhile (\<lambda>x. \<not> white x) s') f
      | _ \<Rightarrow>
          (case read_num s' of
             None \<Rightarrow> Inr f
           | Some (v, r) \<Rightarrow> bindR (store_num c v f) (scan cs r)))"

definition stat_format :: "conv list" where
  "stat_format =
     [Int32 ppid, Int32 pgrp, Int32 session, Int32 tty, Int32 tpgid,
      UInt64 flags, UInt64 min_flt, UInt64 cmin_flt, UInt64 maj_flt, UInt64 cmaj_flt,
      UInt64 utime, UInt64 stime, UInt64 cutime, UInt64 cstime,
      Int64 priority, Int64 nice, Int32 nlwp, Int64 alarm, UInt64 start_time, UInt64 vsize, Int64 rss,
      UInt64 rss_rlim, UInt64 start_code, UInt64 end_code, UInt64 start_stack, UInt64 kstk_esp, UInt64 kstk_eip,
      Skip_word, Skip_word, Skip_word, Skip_word,
      UInt64 wchan, Skip_num, Skip_num,
      Int32 exit_signal, Int32 processor, UInt64 rtprio, UInt64 sched]"

section \<open>stat2proc\<close>

text \<open>The argument is a C string. \<open>strchr\<close> and \<open>strrchr\<close> may return null, and the two characters skipped after the
  closing parenthesis may not be there. \<open>%c\<close> stores the next character, if there is one.\<close>

definition stat2proc :: "string \<Rightarrow> proc_t \<Rightarrow> proc_t res" where
  "stat2proc S P =
     (let P1 = P\<lparr>num := (num P)(processor := 0, rtprio := 2 ^ 64 - 1, sched := 2 ^ 64 - 1, nlwp := 0)\<rparr> in
      case find_char CHR ''('' S of
        None \<Rightarrow> Inl UB_null_deref
      | Some p \<Rightarrow>
          (let S1 = drop (p + 1) S in
           case find_last_of CHR '')'' S1 of
             None \<Rightarrow> Inl UB_null_deref
           | Some q \<Rightarrow>
               (let n0 = unat (word_of_nat q :: u32);
                    n = (if n0 \<ge> 16 then 15 else n0);
                    P2 = P1\<lparr>cmd := take n S1\<rparr>
                in if length S1 < q + 2 then Inl UB_out_of_bounds
                   else
                     bindR (case drop (q + 2) S1 of
                              [] \<Rightarrow> Inr P2
                            | c # S2 \<Rightarrow> map_sum id (\<lambda>f. P2\<lparr>state := c, num := f\<rparr>) (scan stat_format S2 (num P2)))
                       (\<lambda>P3. Inr (if num P3 nlwp = 0 then P3\<lparr>num := (num P3)(nlwp := 1)\<rparr> else P3)))))"

section \<open>class ProcStat\<close>

record ProcStat =
  mTimer :: "nat Timer"
  mTimerEvent :: nat
  PAGESIZE :: u32
  proc :: proc_t

text \<open>The constructor starts a timer of one second; \<open>proc\<close> is not initialised. The callback is function 1. \<open>p\<close> is the
  pool of the new timer.\<close>

definition ProcStat_new :: "int \<Rightarrow> (nat, unit) pool_run \<Rightarrow> u32 \<Rightarrow> proc_t \<Rightarrow> ProcStat res" where
  "ProcStat_new now p pagesize junk =
     (let (e, as, t) = Timer_create \<lparr>tv_sec = 1, tv_usec = 0\<rparr> (Some 1) (Some 0) (Timer_new 1 p)
      in bindR (perform_all now as t) (\<lambda>t'. Inr \<lparr>mTimer = t', mTimerEvent = e, PAGESIZE = pagesize, proc = junk\<rparr>))"

text \<open>\<open>content\<close> is what the file holds when the timer expires.\<close>

definition ProcStat_onTimerEvent :: "int \<Rightarrow> string \<Rightarrow> nat \<Rightarrow> ProcStat \<Rightarrow> ProcStat res" where
  "ProcStat_onTimerEvent now content event s =
     bindR (stat2proc (c_str content) proc_zero) (\<lambda>P.
     bindR (perform_all now (Timer_restart event) (mTimer s)) (\<lambda>t.
       Inr (s\<lparr>proc := P, mTimer := t\<rparr>)))"

text \<open>The destructor deletes the event and then the timer, whose destructor queues the exit command and waits.\<close>

definition ProcStat_delete :: "ProcStat \<Rightarrow> ProcStat" where
  "ProcStat_delete s =
     (let t = TimerEvent_delete (mTimerEvent s) (mTimer s)
      in s\<lparr>mTimer := t\<lparr>tPool := pool_add exit_job (tPool t)\<rparr>\<rparr>)"

text \<open>\<open>proc.rss * PAGESIZE\<close> is computed in \<open>long\<close> and returned as 32 bits.\<close>

definition getRSS :: "ProcStat \<Rightarrow> u32 res" where
  "getRSS s =
     (let v = num (proc s) rss * uint (PAGESIZE s)
      in if v < - (2 ^ 63) \<or> 2 ^ 63 \<le> v then Inl UB_signed_overflow else Inr (word_of_int v))"

section \<open>Parsing what the kernel writes\<close>

definition show_int :: "int \<Rightarrow> string" where
  "show_int v = (if v < 0 then CHR ''-'' # to_string (nat (- v)) else to_string (nat v))"

text \<open>A token that the kernel may write for a conversion, for the values \<open>g\<close> of the fields.\<close>

fun token_for :: "(proc_field \<Rightarrow> int) \<Rightarrow> conv \<Rightarrow> string \<Rightarrow> bool" where
  "token_for g (Int32 x) t \<longleftrightarrow> t = show_int (g x) \<and> - (2 ^ 31) \<le> g x \<and> g x < 2 ^ 31"
| "token_for g (Int64 x) t \<longleftrightarrow> t = show_int (g x) \<and> - (2 ^ 63) \<le> g x \<and> g x < 2 ^ 63"
| "token_for g (UInt64 x) t \<longleftrightarrow> t = show_int (g x) \<and> 0 \<le> g x \<and> g x < 2 ^ 64"
| "token_for g Skip_word t \<longleftrightarrow> t \<noteq> [] \<and> (\<forall>c \<in> set t. \<not> white c \<and> c \<noteq> CHR '')'')"
| "token_for g Skip_num t \<longleftrightarrow> (\<exists>v. t = show_int v)"

definition join_tokens :: "string list \<Rightarrow> string" where
  "join_tokens ts = concat (map (\<lambda>t. CHR '' '' # t) ts)"

definition field_of :: "conv \<Rightarrow> proc_field set" where
  "field_of c = (case c of Int32 x \<Rightarrow> {x} | Int64 x \<Rightarrow> {x} | UInt64 x \<Rightarrow> {x} | _ \<Rightarrow> {})"

lemma digit_facts: "is_digit c \<Longrightarrow> \<not> white c \<and> c \<noteq> CHR ''-'' \<and> c \<noteq> CHR ''+'' \<and> c \<noteq> CHR '')''"
  by (auto simp: is_digit_def white_def)

lemma white_space [simp]: "white CHR '' ''"
  by (simp add: white_def)

lemma takeWhile_digits:
  assumes "r = [] \<or> \<not> is_digit (hd r)"
  shows "takeWhile is_digit (to_string n @ r) = to_string n" "dropWhile is_digit (to_string n @ r) = r"
proof -
  have "\<forall>c \<in> set (to_string n). is_digit c" using to_string_digits by blast
  then show "takeWhile is_digit (to_string n @ r) = to_string n" "dropWhile is_digit (to_string n @ r) = r"
    using assms by (cases r; simp)+
qed

lemma read_show:
  assumes "r = [] \<or> \<not> is_digit (hd r)"
  shows "read_num (show_int v @ r) = Some (v, r)"
proof (cases "v < 0")
  case True
  then show ?thesis
    using takeWhile_digits [OF assms]
    by (simp add: read_num_def show_int_def Let_def str_front_def to_string_nonempty decimal_value_to_string)
next
  case False
  obtain c cs where c: "to_string (nat v) = c # cs" using to_string_nonempty by (cases "to_string (nat v)") auto
  then have "is_digit c" using to_string_digits [of c "nat v"] by simp
  then have "str_front (to_string (nat v) @ r) \<noteq> CHR ''-''" "str_front (to_string (nat v) @ r) \<noteq> CHR ''+''"
    using c by (auto simp: str_front_def is_digit_def)
  then show ?thesis
    using False takeWhile_digits [OF assms, of "nat v"]
    by (simp add: read_num_def show_int_def Let_def to_string_nonempty decimal_value_to_string)
qed

lemma show_int_front: "\<exists>c cs. show_int v = c # cs \<and> \<not> white c"
proof -
  obtain c cs where c: "to_string (nat v) = c # cs" using to_string_nonempty by (cases "to_string (nat v)") auto
  then have "is_digit c" using to_string_digits [of c "nat v"] by simp
  then show ?thesis using c by (auto simp: show_int_def digit_facts) (simp add: white_def)
qed

lemma show_int_chars: "c \<in> set (show_int v) \<Longrightarrow> c \<noteq> CHR '')''"
  using to_string_digits digit_facts by (auto simp: show_int_def split: if_splits)

lemma scan_num:
  assumes c: "c \<noteq> Skip_word" and r: "r = [] \<or> hd r = CHR '' ''"
  shows "scan (c # cs) (CHR '' '' # show_int v @ r) f = bindR (store_num c v f) (scan cs r)"
proof -
  obtain d ds where d: "show_int v = d # ds" "\<not> white d" using show_int_front by blast
  then have drp: "dropWhile white (CHR '' '' # show_int v @ r) = show_int v @ r" by simp
  have "r = [] \<or> \<not> is_digit (hd r)" using r by (auto simp: is_digit_def)
  then have "read_num (show_int v @ r) = Some (v, r)" by (rule read_show)
  then show ?thesis using c by (cases c) (simp_all only: scan.simps Let_def drp conv.case option.case prod.case, simp_all)
qed

lemma join_front: "join_tokens ts = [] \<or> hd (join_tokens ts) = CHR '' ''"
  by (cases ts) (simp_all add: join_tokens_def)

lemma scan_tokens:
  "list_all2 (token_for g) cs ts \<Longrightarrow>
   scan cs (join_tokens ts) f = Inr (\<lambda>x. if \<exists>c \<in> set cs. x \<in> field_of c then g x else f x)"
proof (induction cs arbitrary: ts f)
  case Nil
  then show ?case by simp
next
  case (Cons c cs)
  then obtain t us where ts: "ts = t # us" "token_for g c t" "list_all2 (token_for g) cs us"
    by (auto simp: list_all2_Cons1)
  have join: "join_tokens ts = CHR '' '' # t @ join_tokens us" using ts(1) by (simp add: join_tokens_def)
  note IH = Cons.IH [OF ts(3)]
  show ?case
  proof (cases c)
    case Skip_word
    then have t: "t \<noteq> []" "\<forall>x \<in> set t. \<not> white x" using ts(2) by auto
    then have "dropWhile white (CHR '' '' # t @ join_tokens us) = t @ join_tokens us"
      by (cases t) simp_all
    moreover have "dropWhile (\<lambda>x. \<not> white x) (t @ join_tokens us) = join_tokens us"
      using t(2) by (cases us) (simp_all add: join_tokens_def)
    ultimately show ?thesis using IH t(1) Skip_word by (simp add: join Let_def field_of_def)
  next
    case (Int32 x)
    then show ?thesis
      using ts(2) IH scan_num [OF _ join_front, of c cs "g x" us f] by (auto simp: join store_num_def field_of_def)
  next
    case (Int64 x)
    then show ?thesis
      using ts(2) IH scan_num [OF _ join_front, of c cs "g x" us f] by (auto simp: join store_num_def field_of_def)
  next
    case (UInt64 x)
    then show ?thesis
      using ts(2) IH scan_num [OF _ join_front, of c cs "g x" us f] by (auto simp: join store_num_def field_of_def)
  next
    case Skip_num
    then obtain v where "t = show_int v" using ts(2) by auto
    then show ?thesis
      using IH scan_num [OF _ join_front, of c cs v us f] Skip_num by (simp add: join store_num_def field_of_def)
  qed
qed

lemma token_no_paren: "token_for g c t \<Longrightarrow> x \<in> set t \<Longrightarrow> x \<noteq> CHR '')''"
  by (cases c) (auto dest: show_int_chars)

lemma join_no_paren:
  assumes "list_all2 (token_for g) cs ts"
  shows "CHR '')'' \<notin> set (join_tokens ts)"
  using assms by induction (auto simp: join_tokens_def dest: token_no_paren)

lemma format_defaults:
  "\<exists>c \<in> set stat_format. processor \<in> field_of c" "\<exists>c \<in> set stat_format. rtprio \<in> field_of c"
  "\<exists>c \<in> set stat_format. sched \<in> field_of c" "\<exists>c \<in> set stat_format. nlwp \<in> field_of c"
  by (simp_all add: stat_format_def field_of_def)

lemma stat2proc_line:
  assumes pid: "CHR ''('' \<notin> set pid"
    and tokens: "list_all2 (token_for g) stat_format ts"
    and st: "st \<noteq> CHR '')''"
    and len: "length comm < 2 ^ 32"
  shows "stat2proc (pid @ ''('' @ comm @ '') '' @ [st] @ join_tokens ts) P
         = Inr (P\<lparr>cmd := take 15 comm, state := st,
                   num := (\<lambda>x. if \<exists>c \<in> set stat_format. x \<in> field_of c
                              then (if x = nlwp \<and> g nlwp = 0 then 1 else g x) else num P x)\<rparr>)"
proof -
  let ?S2 = "CHR '' '' # st # join_tokens ts"
  let ?S1 = "comm @ CHR '')'' # ?S2"
  let ?f = "(num P)(processor := 0, rtprio := 18446744073709551615, sched := 18446744073709551615, nlwp := 0)"
  have S: "find_char CHR ''('' (pid @ CHR ''('' # ?S1) = Some (length pid)"
    using pid by (induction pid) auto
  have no: "CHR '')'' \<notin> set ?S2" using join_no_paren [OF tokens] st by simp
  have q: "find_last_of CHR '')'' ?S1 = Some (length comm)" by (rule find_last_of_append [OF no])
  have n: "unat (word_of_nat (length comm) :: u32) = length comm" using len by (simp add: unat_of_nat take_bit_nat_eq_self)
  define F where "F = (\<lambda>x. if \<exists>c \<in> set stat_format. x \<in> field_of c then g x else num P x)"
  have "(\<lambda>x. if \<exists>c \<in> set stat_format. x \<in> field_of c then g x else ?f x) = F"
    using format_defaults by (auto simp: fun_eq_iff F_def)
  then have sc: "scan stat_format (join_tokens ts) ?f = Inr F"
    using scan_tokens [OF tokens, of ?f] by (simp only:)
  have F: "(if F nlwp = 0 then F(nlwp := 1) else F)
           = (\<lambda>x. if \<exists>c \<in> set stat_format. x \<in> field_of c
                   then (if x = nlwp \<and> g nlwp = 0 then 1 else g x) else num P x)"
    using format_defaults(4) by (auto simp: F_def fun_eq_iff)
  have "stat2proc (pid @ CHR ''('' # ?S1) P
        = Inr (P\<lparr>cmd := take 15 comm, state := st, num := if F nlwp = 0 then F(nlwp := 1) else F\<rparr>)"
    using S q n by (simp add: stat2proc_def Let_def sc)
  then show ?thesis by (simp add: F)
qed


text \<open>A process named \<open>a) b\<close> whose fields are all 5.\<close>

definition sample_tokens :: "string list" where
  "sample_tokens = map (\<lambda>c. ''5'') stat_format"

lemma show_five: "show_int 5 = ''5''"
  by (simp add: show_int_def to_string.simps digit_char_def char_of_def bit_iff_odd)

lemma sample_tokens_for: "list_all2 (token_for (\<lambda>x. 5)) stat_format sample_tokens"
proof -
  have "token_for (\<lambda>x. 5) c ''5''" for c
    by (cases c) (auto simp: show_five white_def intro: exI [of _ 5])
  then show ?thesis by (simp add: sample_tokens_def list_all2_conv_all_nth)
qed


text \<open>The resident set size is reported exactly as long as it is below four gigabytes; from there on the result
  is its remainder, a small number for a large process.\<close>

theorem getRSS_truncates:
  assumes "0 \<le> num (proc s) rss * uint (PAGESIZE s)" and "num (proc s) rss * uint (PAGESIZE s) < 2 ^ 63"
  shows "\<exists>r. getRSS s = Inr r \<and> uint r = (num (proc s) rss * uint (PAGESIZE s)) mod 2 ^ 32
             \<and> (uint r = num (proc s) rss * uint (PAGESIZE s) \<longleftrightarrow> num (proc s) rss * uint (PAGESIZE s) < 2 ^ 32)"
proof -
  let ?v = "num (proc s) rss * uint (PAGESIZE s)"
  have "getRSS s = Inr (word_of_int ?v)" using assms by (simp add: getRSS_def Let_def)
  moreover have "uint (word_of_int ?v :: u32) = ?v mod 2 ^ 32" by (simp only: uint_word_of_int) simp
  moreover have "?v mod 2 ^ 32 = ?v \<longleftrightarrow> ?v < 2 ^ 32"
    using assms(1) pos_mod_bound [of "2 ^ 32" ?v] by (metis mod_pos_pos_trivial zero_less_numeral zero_less_power)
  ultimately show ?thesis by (metis (no_types))
qed

text \<open>A process of one million pages and one page reports a single page.\<close>

lemma getRSS_truncates_witness:
  "getRSS \<lparr>mTimer = Timer_new 1 timer_pool, mTimerEvent = 0, PAGESIZE = 4096, proc = proc_zero\<lparr>num := (\<lambda>x. 2 ^ 20 + 1)\<rparr>\<rparr> = Inr 4096"
proof -
  let ?s = "\<lparr>mTimer = Timer_new 1 timer_pool, mTimerEvent = 0, PAGESIZE = 4096, proc = proc_zero\<lparr>num := (\<lambda>x. 2 ^ 20 + 1)\<rparr>\<rparr>"
  have v: "num (proc ?s) rss * uint (PAGESIZE ?s) = 4294971392" by simp
  then obtain r where "getRSS ?s = Inr r" "uint r = 4096"
    using getRSS_truncates [of ?s] by auto
  then have "r = word_of_int 4096" by (metis word_of_int_uint)
  with \<open>getRSS ?s = Inr r\<close> show ?thesis by simp
qed

section \<open>Bounds\<close>

text \<open>The range of the type each field has.\<close>

definition field_range :: "proc_field \<Rightarrow> int set" where
  "field_range x =
     (if x \<in> {ppid, pgrp, session, tty, tpgid, nlwp, exit_signal, processor} then {- (2 ^ 31) ..< 2 ^ 31}
      else if x \<in> {priority, nice, alarm, rss} then {- (2 ^ 63) ..< 2 ^ 63}
      else {0 ..< 2 ^ 64})"

fun fits :: "conv \<Rightarrow> bool" where
  "fits (Int32 x) \<longleftrightarrow> field_range x = {- (2 ^ 31) ..< 2 ^ 31}"
| "fits (Int64 x) \<longleftrightarrow> field_range x = {- (2 ^ 63) ..< 2 ^ 63}"
| "fits (UInt64 x) \<longleftrightarrow> field_range x = {0 ..< 2 ^ 64}"
| "fits Skip_word \<longleftrightarrow> True"
| "fits Skip_num \<longleftrightarrow> True"

lemma format_fits: "\<forall>c \<in> set stat_format. fits c"
  by (simp add: stat_format_def field_range_def)

lemma store_range:
  "fits c \<Longrightarrow> store_num c v f = Inr f' \<Longrightarrow> \<forall>x. f x \<in> field_range x \<Longrightarrow> f' x \<in> field_range x"
  by (cases c) (auto simp: store_num_def split: if_splits)

lemma scan_range:
  "\<forall>c \<in> set cs. fits c \<Longrightarrow> scan cs S f = Inr f' \<Longrightarrow> \<forall>x. f x \<in> field_range x \<Longrightarrow> \<forall>x. f' x \<in> field_range x"
proof (induction cs arbitrary: S f)
  case (Cons c cs)
  let ?s = "dropWhile white S"
  show ?case
  proof (cases "c = Skip_word")
    case True
    then have "f' = f \<or> scan cs (dropWhile (\<lambda>x. \<not> white x) ?s) f = Inr f'"
      using Cons.prems(2) by (cases "?s = []") (simp_all add: Let_def del: dropWhile_eq_Nil_conv)
    then show ?thesis using Cons.IH Cons.prems(1,3) by auto
  next
    case False
    then have scan: "scan (c # cs) S f =
        (case read_num ?s of None \<Rightarrow> Inr f | Some (v, r) \<Rightarrow> bindR (store_num c v f) (scan cs r))"
      unfolding scan.simps Let_def by (cases c) auto
    show ?thesis
    proof (cases "read_num ?s")
      case None
      then show ?thesis using Cons.prems(2,3) unfolding scan by simp
    next
      case (Some q)
      then obtain v r g where g: "store_num c v f = Inr g" "scan cs r g = Inr f'"
        using Cons.prems(2) unfolding scan by (cases q) (auto simp: bindR_Inr_iff)
      have "\<forall>x. g x \<in> field_range x" using store_range [OF _ g(1)] Cons.prems(1,3) by simp
      then show ?thesis using Cons.IH [OF _ g(2)] Cons.prems(1) by simp
    qed
  qed
qed simp



section \<open>Polling\<close>

text \<open>One expiry of libevent's timer \<open>ev\<close> at time \<open>now\<close>: the callback runs with the event it is given.\<close>

definition ProcStat_expire :: "int \<Rightarrow> nat \<Rightarrow> string \<Rightarrow> ProcStat \<Rightarrow> ProcStat res" where
  "ProcStat_expire now ev content s =
     bindR (expire now ev (mTimer s)) (\<lambda>(cs, t).
       foldR (\<lambda>(f, p, this). ProcStat_onTimerEvent now content p) cs (s\<lparr>mTimer := t\<rparr>))"

fun polls :: "nat \<Rightarrow> (int \<times> string) list \<Rightarrow> ProcStat \<Rightarrow> ProcStat res" where
  "polls ev [] s = Inr s"
| "polls ev ((now, content) # cs) s = bindR (ProcStat_expire now ev content s) (polls (Suc ev) cs)"

definition poll_event :: "nat \<Rightarrow> nat TimerEvent" where
  "poll_event ev = \<lparr>mTv = \<lparr>tv_sec = 1, tv_usec = 0\<rparr>, mOnTimerEvent = Some 1, mThis = Some 0, mEvent = Some ev\<rparr>"

definition polling :: "nat \<Rightarrow> int \<Rightarrow> ProcStat \<Rightarrow> bool" where
  "polling ev at s \<longleftrightarrow>
     getThreadEventBase (mTimer s) = Inr True \<and> mTimerEvent s = 0 \<and> tEvents (mTimer s) = [Some (poll_event ev)] \<and>
     evTimers (mTimer s) = replicate ev None @ [Some \<lparr>on_base = True, target = 0, due = Some at\<rparr>]"

lemma new_polling:
  assumes "mThreads p = th # ths" and "mEventBase th"
  shows "\<exists>s. ProcStat_new now p pagesize junk = Inr s \<and> polling 0 (now + 1000000) s \<and> PAGESIZE s = pagesize \<and> proc s = junk"
  using assms
  by (simp add: ProcStat_new_def Timer_create_def Timer_create1_def Timer_new_def perform_all_def getThreadEventBase_def
      Thread_getEventBase_def deref_def setEvent_def TimerEvent_new_def evtimer_add_def usec_def polling_def poll_event_def
      pool_add_def Let_def)

lemma poll_once:
  assumes s: "polling ev at s" and P: "stat2proc (c_str content) proc_zero = Inr P"
  shows "\<exists>s'. ProcStat_expire now ev content s = Inr s' \<and> polling (Suc ev) (now + 1000000) s' \<and> proc s' = P \<and> PAGESIZE s' = PAGESIZE s"
proof -
  let ?x = "\<lparr>on_base = True, target = 0, due = None\<rparr>"
  let ?t = "(mTimer s)\<lparr>evTimers := replicate ev None @ [Some ?x]\<rparr>"
  have ex: "expire now ev (mTimer s) = Inr ([(1, 0, Some 0)], ?t)"
    using s by (simp add: polling_def expire_def onEvTimer_def deref_def poll_event_def nth_append list_update_append)
  have t: "deref (tEvents ?t) 0 = Inr (poll_event ev)" "deref (evTimers ?t) ev = Inr ?x" "getThreadEventBase ?t = Inr True"
    "mEvent (poll_event ev) = Some ev"
    using s by (simp_all add: polling_def deref_def nth_append poll_event_def getThreadEventBase_def)
  note r = restart_result [OF t(1,4,2,3), of now]
  have "ProcStat_expire now ev content s = ProcStat_onTimerEvent now content 0 (s\<lparr>mTimer := ?t\<rparr>)"
    by (cases "ProcStat_onTimerEvent now content 0 (s\<lparr>mTimer := ?t\<rparr>)") (simp_all add: ProcStat_expire_def ex)
  then show ?thesis
    using s r P by (simp add: ProcStat_onTimerEvent_def polling_def poll_event_def usec_def list_update_append replicate_append_same [symmetric])
qed

lemma polls_follow:
  assumes "\<forall>c \<in> set cs. stat2proc (c_str (snd c)) proc_zero = Inr (parsed (snd c))" and "polling ev at s"
  shows "\<exists>s'. polls ev cs s = Inr s' \<and> PAGESIZE s' = PAGESIZE s
    \<and> polling (ev + length cs) (if cs = [] then at else fst (last cs) + 1000000) s'
    \<and> proc s' = (if cs = [] then proc s else parsed (snd (last cs)))"
  using assms
proof (induction cs arbitrary: s ev at)
  case (Cons c cs)
  obtain u where u: "ProcStat_expire (fst c) ev (snd c) s = Inr u" "polling (Suc ev) (fst c + 1000000) u" "proc u = parsed (snd c)"
      "PAGESIZE u = PAGESIZE s"
    using poll_once [OF Cons.prems(2), of "snd c" "parsed (snd c)" "fst c"] Cons.prems(1) by auto
  then show ?case using Cons.IH [OF _ u(2)] Cons.prems(1) by (cases c) auto
qed simp

text \<open>C39: The process statistics follow the file: after any number of expiries of the one-second timer, each finding a line
  that parses, the statistics are those of the last line, and exactly one timer is armed, due one second after the last expiry.\<close>

theorem ProcStat_follows_file:
  assumes "\<forall>c \<in> set cs. stat2proc (c_str (snd c)) proc_zero = Inr (parsed (snd c))" and "cs \<noteq> []"
    and "mThreads p = th # ths" and "mEventBase th"
  shows "\<exists>s. bindR (ProcStat_new now p pagesize junk) (polls 0 cs) = Inr s
           \<and> proc s = parsed (snd (last cs)) \<and> PAGESIZE s = pagesize
           \<and> evTimers (mTimer s) = replicate (length cs) None @
               [Some \<lparr>on_base = True, target = mTimerEvent s, due = Some (fst (last cs) + 1000000)\<rparr>]"
proof -
  obtain n where n: "ProcStat_new now p pagesize junk = Inr n" "polling 0 (now + 1000000) n" "PAGESIZE n = pagesize"
    using new_polling [OF assms(3,4)] by blast
  show ?thesis using polls_follow [OF assms(1) n(2)] n(1,3) assms(2) by (auto simp: polling_def)
qed

text \<open>The destructor leaves a dangling timer: it deletes the event while libevent still has the timer that points to it. The worker
  stays in the event loop, since the timer is armed, so the destructor waits for it; and when the timer is due, the worker reads
  the deleted event.\<close>

theorem ProcStat_delete_dangles:
  assumes "polling ev at s" and "at \<le> n"
  shows "armed (mTimer (ProcStat_delete s)) \<and> is_due n ev (mTimer (ProcStat_delete s))
    \<and> expire n ev (mTimer (ProcStat_delete s)) = Inl UB_dangling"
  using assms
  by (simp add: polling_def ProcStat_delete_def TimerEvent_delete_def Let_def armed_def is_armed_def is_due_def expire_def
      onEvTimer_def deref_def nth_append)

lemma sample_line_no_null: "c_str (''42 (a) b) S'' @ join_tokens sample_tokens) = ''42 (a) b) S'' @ join_tokens sample_tokens"
  by (simp add: c_str_def join_tokens_def sample_tokens_def stat_format_def)

lemma ready_pool_base: "mThreads ready_pool = ready_thread Fetching # []" "mEventBase (ready_thread Fetching)"
  by (simp_all add: ready_pool_def waiting_thread_def)

lemma ProcStat_follows_file_witness:
  "\<exists>s. bindR (ProcStat_new 0 ready_pool 4096 proc_zero) (polls 0 [(1000007, ''42 (a) b) S'' @ join_tokens sample_tokens)]) = Inr s
       \<and> cmd (proc s) = ''a) b''
       \<and> evTimers (mTimer s) = [None, Some \<lparr>on_base = True, target = mTimerEvent s, due = Some 2000007\<rparr>]"
proof -
  let ?l = "''42 (a) b) S'' @ join_tokens sample_tokens"
  obtain P where P: "stat2proc ?l proc_zero = Inr P" "cmd P = ''a) b''"
    using stat2proc_line [where pid = "''42 ''" and g = "\<lambda>x. 5" and ts = sample_tokens and st = "CHR ''S''"
        and comm = "''a) b''" and P = proc_zero] sample_tokens_for by auto
  have "\<forall>c \<in> set [(1000007, ?l)]. stat2proc (c_str (snd c)) proc_zero = Inr P"
    unfolding list.set ball_simps snd_conv sample_line_no_null using P(1) by blast
  then show ?thesis
    using ProcStat_follows_file [of "[(1000007, ?l)]" "\<lambda>_. P" ready_pool, OF _ _ ready_pool_base, of 0 4096 proc_zero] P(2)
    by auto
qed

lemma ProcStat_delete_dangles_witness:
  "\<exists>s. ProcStat_new 0 ready_pool 4096 proc_zero = Inr s \<and> expire 1000000 0 (mTimer (ProcStat_delete s)) = Inl UB_dangling"
proof -
  obtain s where s: "ProcStat_new 0 ready_pool 4096 proc_zero = Inr s" "polling 0 (0 + 1000000) s"
    using new_polling [OF ready_pool_base] by blast
  then show ?thesis using ProcStat_delete_dangles [OF s(2), of 1000000] by auto
qed

end
