(* ===== verification/Fts.thy ===== *)
theory Fts
  imports CxxPrelude
begin

text \<open>
  \<open>src/fts.cpp\<close>: class \<open>Fts\<close>, the directory walk. The traversal itself is libc's \<open>fts(3)\<close>, a
  parameter: \<open>fts_open\<close> gives the entries \<open>fts_read\<close> will return for a root. The model is
  what the class does with them: the two callbacks' data, the hidden-file and extension filters, the result.
\<close>

unbundle bit_operations_syntax

section \<open>Data\<close>

definition IS_REGULAR :: u32 where
  "IS_REGULAR = 0x01"

definition IS_DIR :: u32 where
  "IS_DIR = 0x02"

record OnFileData =
  name :: string
  ext :: string
  path :: string
  flags :: u32

record FtsOptions =
  oIgnoreHiddenFiles :: bool
  oIgnoreHiddenDirs :: bool
  oIgnoreRegularFiles :: bool
  oIgnoreRegularDirs :: bool
  oFilters :: "string list"

record Fts =
  root :: string
  filters :: "string set"
  bIgnoreHiddenFiles :: bool
  bIgnoreHiddenDirs :: bool
  bIgnoreRegularFiles :: bool
  bIgnoreRegularDirs :: bool

text \<open>The entries of \<open>fts(3)\<close> and the values of \<open>fts_info\<close> in \<open>fts.h\<close>.\<close>

record FTSENT =
  fts_info :: u16
  fts_name :: string
  fts_path :: string

definition FTS_D :: u16 where "FTS_D = 1"
definition FTS_DP :: u16 where "FTS_DP = 6"
definition FTS_F :: u16 where "FTS_F = 8"
definition FTS_SL :: u16 where "FTS_SL = 12"

section \<open>class Fts\<close>

definition Fts_new_default :: Fts where
  "Fts_new_default =
     \<lparr>root = ''.'', filters = {}, bIgnoreHiddenFiles = True, bIgnoreHiddenDirs = True,
      bIgnoreRegularFiles = False, bIgnoreRegularDirs = False\<rparr>"

definition Fts_new :: "string \<Rightarrow> Fts" where
  "Fts_new r =
     \<lparr>root = (if length r = 0 then ''.'' else r), filters = {}, bIgnoreHiddenFiles = True, bIgnoreHiddenDirs = True,
      bIgnoreRegularFiles = False, bIgnoreRegularDirs = False\<rparr>"

text \<open>Without options the constructor leaves two members uninitialised: \<open>junk\<close> is what they happen to hold.\<close>

definition Fts_new_options :: "bool \<times> bool \<Rightarrow> string \<Rightarrow> FtsOptions option \<Rightarrow> Fts" where
  "Fts_new_options junk r options =
     (let f = \<lparr>root = (if length r = 0 then ''.'' else r), filters = {}, bIgnoreHiddenFiles = True,
               bIgnoreHiddenDirs = True, bIgnoreRegularFiles = fst junk, bIgnoreRegularDirs = snd junk\<rparr>
      in case options of
           None \<Rightarrow> f
         | Some opt \<Rightarrow>
             f\<lparr>filters := set (oFilters opt),
               bIgnoreHiddenFiles := oIgnoreHiddenFiles opt, bIgnoreHiddenDirs := oIgnoreHiddenDirs opt,
               bIgnoreRegularFiles := oIgnoreRegularFiles opt, bIgnoreRegularDirs := oIgnoreRegularDirs opt\<rparr>)"

type_synonym 's onFile = "OnFileData \<Rightarrow> 's \<Rightarrow> 's res"

definition fireFileCbk :: "string \<Rightarrow> string \<Rightarrow> string \<Rightarrow> 's onFile \<Rightarrow> 's \<Rightarrow> 's res" where
  "fireFileCbk n e p onFile = onFile \<lparr>name = n, ext = e, path = p, flags = 0 OR IS_REGULAR\<rparr>"

definition fireDirCbk :: "string \<Rightarrow> string \<Rightarrow> string \<Rightarrow> 's onFile \<Rightarrow> 's \<Rightarrow> 's res" where
  "fireDirCbk n e p onFile = onFile \<lparr>name = n, ext = e, path = p, flags = 0 OR IS_DIR\<rparr>"

text \<open>\<open>int32_t pos = name.find_last_of('.')\<close>: \<open>npos\<close> becomes -1. Names are short (\<open>NAME_MAX\<close> is 255),
  so no other position is changed by the conversion.\<close>

definition last_dot :: "string \<Rightarrow> int" where
  "last_dot n = (case find_last_of CHR ''.'' n of None \<Rightarrow> -1 | Some p \<Rightarrow> int p)"

definition walk_file :: "Fts \<Rightarrow> FTSENT \<Rightarrow> 's onFile \<Rightarrow> 's \<Rightarrow> 's res" where
  "walk_file f node onFile s =
     (if fts_info node AND FTS_F \<noteq> 0 \<and> \<not> bIgnoreRegularFiles f then
        (let n = fts_name node; pos = last_dot n in
         if 0 = pos then
           (if \<not> bIgnoreHiddenFiles f then
              bindR (str_substr n (nat (pos + 1)) None) (\<lambda>e.
                if filters f = {} then fireFileCbk (fts_name node) e (fts_path node) onFile s
                else if e \<in> filters f then fireFileCbk (fts_name node) e (fts_path node) onFile s
                else Inr s)
            else Inr s)
         else
           bindR (str_substr n (nat (pos + 1)) None) (\<lambda>e.
             if filters f = {} then fireFileCbk (fts_name node) e (fts_path node) onFile s
             else if e \<in> filters f then fireFileCbk (fts_name node) e (fts_path node) onFile s
             else Inr s))
      else Inr s)"

definition walk_dir :: "Fts \<Rightarrow> FTSENT \<Rightarrow> 's onFile \<Rightarrow> 's \<Rightarrow> 's res" where
  "walk_dir f node onFile s =
     (if fts_info node AND FTS_D \<noteq> 0 \<and> \<not> bIgnoreRegularDirs f then
        (let n = fts_name node; pos = last_dot n in
         if 0 = pos then
           (if \<not> bIgnoreHiddenDirs f then
              (if 1 = length n \<and> n = ''.'' then Inr s
               else bindR (str_substr n (nat (pos + 1)) None) (\<lambda>e. fireDirCbk (fts_name node) e (fts_path node) onFile s))
            else Inr s)
         else bindR (str_substr n (nat (pos + 1)) None) (\<lambda>e. fireDirCbk (fts_name node) e (fts_path node) onFile s))
      else Inr s)"

text \<open>\<open>walk\<close>: \<open>fts_open\<close> gives the entries, \<open>errno\<close> is its value when \<open>fts_read\<close> returned null, \<open>close_rc\<close>
  the result of \<open>fts_close\<close>.\<close>

definition Fts_walk ::
  "(string \<Rightarrow> FTSENT list option) \<Rightarrow> int \<Rightarrow> int \<Rightarrow> Fts \<Rightarrow> 's onFile \<Rightarrow> 's \<Rightarrow> (bool \<times> 's) res" where
  "Fts_walk fts_open errno close_rc f onFile s =
     (case fts_open (root f) of
        None \<Rightarrow> Inr (False, s)
      | Some nodes \<Rightarrow>
          bindR (foldR (\<lambda>node s. bindR (walk_file f node onFile s) (walk_dir f node onFile)) nodes s)
            (\<lambda>s'. if errno \<noteq> 0 then Inr (False, s') else Inr (close_rc = 0, s')))"

definition Fts_walk_root ::
  "(string \<Rightarrow> FTSENT list option) \<Rightarrow> int \<Rightarrow> int \<Rightarrow> Fts \<Rightarrow> string \<Rightarrow> 's onFile \<Rightarrow> 's \<Rightarrow> Fts \<times> (bool \<times> 's) res" where
  "Fts_walk_root fts_open errno close_rc f r onFile s =
     (let f' = f\<lparr>root := r\<rparr> in (f', Fts_walk fts_open errno close_rc f' onFile s))"

section \<open>Specification of the walk\<close>

text \<open>The extension is what follows the last dot, the whole name if there is none; a name is taken as hidden
  when its last dot is its first character.\<close>

definition extension :: "string \<Rightarrow> string" where
  "extension n = rev (takeWhile (\<lambda>c. c \<noteq> CHR ''.'') (rev n))"

definition hidden_name :: "string \<Rightarrow> bool" where
  "hidden_name n \<longleftrightarrow> (\<exists>m. n = CHR ''.'' # m \<and> CHR ''.'' \<notin> set m)"

definition as_file :: "Fts \<Rightarrow> FTSENT \<Rightarrow> OnFileData list" where
  "as_file f node =
     (if bIgnoreRegularFiles f \<or> (hidden_name (fts_name node) \<and> bIgnoreHiddenFiles f)
         \<or> (filters f \<noteq> {} \<and> extension (fts_name node) \<notin> filters f) then []
      else [\<lparr>name = fts_name node, ext = extension (fts_name node), path = fts_path node, flags = IS_REGULAR\<rparr>])"

definition as_dir :: "Fts \<Rightarrow> FTSENT \<Rightarrow> OnFileData list" where
  "as_dir f node =
     (if bIgnoreRegularDirs f \<or> (hidden_name (fts_name node) \<and> (bIgnoreHiddenDirs f \<or> fts_name node = ''.'')) then []
      else [\<lparr>name = fts_name node, ext = extension (fts_name node), path = fts_path node, flags = IS_DIR\<rparr>])"

lemma extension_append: "CHR ''.'' \<notin> set v \<Longrightarrow> extension (u @ CHR ''.'' # v) = v"
  by (simp add: extension_def takeWhile_append)

lemma last_dot_ext: "str_substr n (nat (last_dot n + 1)) None = Inr (extension n)"
proof (cases "find_last_of CHR ''.'' n")
  case None
  then have "CHR ''.'' \<notin> set n" by (simp add: find_last_of_None)
  then have "extension n = n" by (simp add: extension_def takeWhile_no_delim)
  then show ?thesis using None by (simp add: last_dot_def str_substr_def)
next
  case (Some p)
  then obtain u v where n: "n = u @ CHR ''.'' # v" "CHR ''.'' \<notin> set v" "p = length u"
    by (auto dest: find_last_of_Some)
  then show ?thesis using Some by (simp add: last_dot_def str_substr_def extension_append nat_add_distrib)
qed

lemma last_dot_hidden [simp]: "last_dot n = 0 \<longleftrightarrow> hidden_name n"
proof
  assume "last_dot n = 0"
  then have "find_last_of CHR ''.'' n = Some 0" by (simp add: last_dot_def split: option.splits)
  then show "hidden_name n" by (auto simp: hidden_name_def dest: find_last_of_Some)
next
  assume "hidden_name n"
  then obtain m where "n = [] @ CHR ''.'' # m" "CHR ''.'' \<notin> set m" by (auto simp: hidden_name_def)
  then show "last_dot n = 0" using find_last_of_append [of "CHR ''.''" m "[]"] by (simp add: last_dot_def)
qed

lemma walk_file_spec:
  "walk_file f node onFile s = (if fts_info node AND FTS_F \<noteq> 0 then foldR onFile (as_file f node) s else Inr s)"
  using last_dot_hidden [of "fts_name node"]
  by (auto simp: walk_file_def as_file_def Let_def last_dot_ext fireFileCbk_def foldR_single eq_commute [of 0 "last_dot (fts_name node)"])

lemma hidden_dot: "hidden_name ''.''"
  by (simp add: hidden_name_def)

lemma walk_dir_spec:
  "walk_dir f node onFile s = (if fts_info node AND FTS_D \<noteq> 0 then foldR onFile (as_dir f node) s else Inr s)"
  by (auto simp: walk_dir_def as_dir_def Let_def last_dot_ext fireDirCbk_def foldR_single eq_commute [of 0 "last_dot (fts_name node)"] hidden_dot)

text \<open>What the two bit tests accept among the values \<open>fts_info\<close> can have.\<close>

lemma info_bits:
  assumes "1 \<le> i" and "i \<le> 14"
  shows "word_of_nat i AND FTS_F \<noteq> 0 \<longleftrightarrow> 8 \<le> i" and "word_of_nat i AND FTS_D \<noteq> 0 \<longleftrightarrow> odd i"
proof -
  have "i \<in> set [1..<15]" using assms by auto
  then show "word_of_nat i AND FTS_F \<noteq> 0 \<longleftrightarrow> 8 \<le> i" "word_of_nat i AND FTS_D \<noteq> 0 \<longleftrightarrow> odd i"
    by (auto simp: upt_rec FTS_F_def FTS_D_def)
qed

definition reported :: "Fts \<Rightarrow> FTSENT \<Rightarrow> OnFileData list" where
  "reported f node =
     (if fts_info node AND FTS_F \<noteq> 0 then as_file f node else []) @
     (if fts_info node AND FTS_D \<noteq> 0 then as_dir f node else [])"

lemma walk_reported:
  "Fts_walk fts_open errno close_rc f onFile s =
     (case fts_open (root f) of
        None \<Rightarrow> Inr (False, s)
      | Some nodes \<Rightarrow> bindR (foldR onFile (concat (map (reported f) nodes)) s) (\<lambda>s'. Inr (errno = 0 \<and> close_rc = 0, s')))"
proof -
  have "bindR (walk_file f node onFile u) (walk_dir f node onFile) = foldR onFile (reported f node) u" for node u
    by (auto simp: walk_file_spec walk_dir_spec reported_def foldR_append intro!: bindR_cong)
  then show ?thesis
    by (auto simp: Fts_walk_def foldR_concat_map intro!: bindR_cong split: option.split)
qed

text \<open>C24: On a tree of plain files and directories (entries of kind file, directory in pre-order and in post-order),
  \<open>walk\<close> passes to its callback, in the order of the traversal, each file once and each directory once (on the way
  down), less those the options exclude: a hidden name, an extension that is not in a non-empty filter, and the
  name ``.''; each with its extension and path.\<close>

theorem Fts_walk_plain_tree:
  assumes "fts_open (root f) = Some nodes"
    and "\<forall>n \<in> set nodes. fts_info n = FTS_F \<or> fts_info n = FTS_D \<or> fts_info n = FTS_DP"
  shows "Fts_walk fts_open errno close_rc f onFile s =
    bindR (foldR onFile
        (concat (map (\<lambda>n. if fts_info n = FTS_F then as_file f n else if fts_info n = FTS_D then as_dir f n else []) nodes)) s)
      (\<lambda>s'. Inr (errno = 0 \<and> close_rc = 0, s'))"
proof -
  have "reported f n = (if fts_info n = FTS_F then as_file f n else if fts_info n = FTS_D then as_dir f n else [])"
    if "n \<in> set nodes" for n
    using assms(2) that by (auto simp: reported_def FTS_F_def FTS_D_def FTS_DP_def)
  then have "map (reported f) nodes =
      map (\<lambda>n. if fts_info n = FTS_F then as_file f n else if fts_info n = FTS_D then as_dir f n else []) nodes"
    by simp
  then show ?thesis unfolding walk_reported assms(1) by (simp only: option.case)
qed

definition sample_entries :: "FTSENT list" where
  "sample_entries =
     [\<lparr>fts_info = FTS_D, fts_name = ''music'', fts_path = ''/music''\<rparr>,
      \<lparr>fts_info = FTS_F, fts_name = ''a.mp3'', fts_path = ''/music/a.mp3''\<rparr>,
      \<lparr>fts_info = FTS_F, fts_name = ''.lock'', fts_path = ''/music/.lock''\<rparr>,
      \<lparr>fts_info = FTS_DP, fts_name = ''music'', fts_path = ''/music''\<rparr>]"

theorem Fts_walk_plain_tree_witness:
  "Fts_walk (\<lambda>r. Some sample_entries) 0 0 (Fts_new ''/music'') (\<lambda>d log. Inr (log @ [(name d, ext d, flags d)])) [] =
     Inr (True, [(''music'', ''music'', IS_DIR), (''a.mp3'', ''mp3'', IS_REGULAR)])"
  by (subst Fts_walk_plain_tree [where nodes = sample_entries])
     (auto simp: sample_entries_def Fts_new_def as_file_def as_dir_def hidden_name_def extension_def
       FTS_F_def FTS_D_def FTS_DP_def)

text \<open>The kinds of entries are not bit masks, but \<open>walk\<close> tests them as such. Of the fourteen kinds of \<open>fts(3)\<close>, it
  treats exactly those numbered 8 to 14 as files and exactly those with an odd number as directories: a
  symbolic link (12) counts as a regular file, an entry that could not be read (7) as a directory, and a dangling
  link (13) as both.\<close>

theorem Fts_walk_kinds:
  assumes "1 \<le> i" and "i \<le> 14"
  shows "Fts_walk (\<lambda>r. Some [\<lparr>fts_info = word_of_nat i, fts_name = n, fts_path = p\<rparr>]) 0 0 (Fts_new r)
      (\<lambda>d log. Inr (log @ [d])) [] =
    Inr (True,
      (if 8 \<le> i \<and> \<not> hidden_name n then [\<lparr>name = n, ext = extension n, path = p, flags = IS_REGULAR\<rparr>] else []) @
      (if odd i \<and> \<not> hidden_name n then [\<lparr>name = n, ext = extension n, path = p, flags = IS_DIR\<rparr>] else []))"
  using info_bits [OF assms]
  by (simp add: walk_reported foldR_log reported_def as_file_def as_dir_def Fts_new_def)

theorem Fts_walk_kinds_witness:
  "Fts_walk (\<lambda>r. Some [\<lparr>fts_info = word_of_nat 12, fts_name = ''link'', fts_path = ''/link''\<rparr>]) 0 0 (Fts_new ''/'')
      (\<lambda>d log. Inr (log @ [d])) [] =
    Inr (True, [\<lparr>name = ''link'', ext = ''link'', path = ''/link'', flags = IS_REGULAR\<rparr>])"
  using Fts_walk_kinds [of 12 "''link''" "''/link''" "''/''"] by (simp add: hidden_name_def extension_def)

end
