(* ===== verification/FsWatch.thy ===== *)
theory FsWatch
  imports ThreadPool DirTree Fts
begin

text \<open>
  \<open>src/fs-watch.cpp\<close>: class \<open>FsWatch\<close>, a client of \<open>DirTree\<close>, \<open>Fts\<close> and \<open>ThreadPool\<close>.
  The kernel (inotify, epoll, file descriptors, the traversed file system) is a record of
  functions on a kernel state \<open>'k\<close>; the calls of the two client callbacks are the log \<open>fired\<close>.
  A pointer member that \<open>init\<close> sets is an option, and a call through it before is a
  null dereference.

  The facts on the tree are those of its interface, \<open>dt\<close>, and \<open>drop_spec\<close>.
\<close>

section \<open>State and kernel\<close>

record TreeNode =
  tpath :: string
  fd :: int
  wd :: int

text \<open>A call of a callback: the function, the data and the pointer registered with it.\<close>

datatype fs_event = NewFile nat OnFileData "nat option" | EmptyDir nat OnFileData "nat option"

datatype epoll_op = EPOLL_CTL_ADD | EPOLL_CTL_DEL | EPOLL_CTL_MOD

record 'k kernel =
  inotify_init1 :: "'k \<Rightarrow> int \<times> 'k"
  inotify_add_watch :: "int \<Rightarrow> string \<Rightarrow> 'k \<Rightarrow> int \<times> 'k"
  inotify_rm_watch :: "int \<Rightarrow> int \<Rightarrow> 'k \<Rightarrow> 'k"
  epoll_create1 :: "'k \<Rightarrow> int \<times> 'k"
  epoll_ctl :: "int \<Rightarrow> epoll_op \<Rightarrow> int \<Rightarrow> 'k \<Rightarrow> int \<times> 'k"
  close_fd :: "int \<Rightarrow> 'k \<Rightarrow> 'k"
  entries :: "'k \<Rightarrow> string \<Rightarrow> FTSENT list option"
  walk_errno :: "'k \<Rightarrow> int"
  walk_close :: "'k \<Rightarrow> int"

record 'k FsWatch =
  wroot :: string
  epollFd :: int
  fd_map :: "(int \<times> string) list"
  watch_set :: "string set"
  epollThread :: "(nat, unit) ThreadPool option"
  fts :: "Fts option"
  onNewFile :: "nat option"
  onNewFileThis :: "nat option"
  onEmptyDir :: "nat option"
  onEmptyDirThis :: "nat option"
  wfilters :: "string set"
  tree :: "TreeNode DirTree option"
  stopWatching :: bool
  kern :: 'k
  fired :: "fs_event list"

definition FsWatch_new_root :: "string \<Rightarrow> 'k \<Rightarrow> 'k FsWatch" where
  "FsWatch_new_root r k =
     \<lparr>wroot = r, epollFd = -1, fd_map = [], watch_set = {}, epollThread = None, fts = None, onNewFile = None,
      onNewFileThis = None, onEmptyDir = None, onEmptyDirThis = None, wfilters = {}, tree = None, stopWatching = False, kern = k, fired = []\<rparr>"

definition FsWatch_new :: "'k \<Rightarrow> 'k FsWatch" where
  "FsWatch_new k = FsWatch_new_root ''.'' k"

section \<open>The watches\<close>

definition addToTree :: "string \<Rightarrow> int \<Rightarrow> int \<Rightarrow> 'k FsWatch \<Rightarrow> 'k FsWatch res" where
  "addToTree dir f w s =
     (let node = (if 0 = length dir \<and> -1 = f \<and> -1 = w then None else Some \<lparr>tpath = dir, fd = f, wd = w\<rparr>)
      in case tree s of
           None \<Rightarrow> Inl UB_null_deref
         | Some t \<Rightarrow> Inr (s\<lparr>tree := Some (DirTree_insert dir node t)\<rparr>))"

definition removeFromTree :: "string \<Rightarrow> 'k FsWatch \<Rightarrow> 'k FsWatch res" where
  "removeFromTree dir s =
     (case tree s of
        None \<Rightarrow> Inl UB_null_deref
      | Some t \<Rightarrow> bindR (DirTree_drop dir None t s) (\<lambda>(t', s'). Inr (s'\<lparr>tree := Some t'\<rparr>)))"

definition addWatch :: "'k kernel \<Rightarrow> string \<Rightarrow> bool \<Rightarrow> 'k FsWatch \<Rightarrow> 'k FsWatch res" where
  "addWatch K dir add s =
     (if dir \<in> watch_set s then Inr s
      else
        let (inotifyFd, k1) = inotify_init1 K (kern s) in
        if inotifyFd = -1 then Inl (Proc_exit 1)
        else
          let (watchFd, k2) = inotify_add_watch K inotifyFd (c_str dir) k1;
              op = (if add then EPOLL_CTL_ADD else EPOLL_CTL_MOD);
              (rc, k3) = epoll_ctl K (epollFd s) op inotifyFd k2
          in addToTree dir inotifyFd watchFd
               (s\<lparr>kern := k3, fd_map := um_insert inotifyFd dir (fd_map s), watch_set := insert dir (watch_set s)\<rparr>))"

definition dropCbk :: "'k kernel \<Rightarrow> string \<Rightarrow> TreeNode option \<Rightarrow> 'k FsWatch \<Rightarrow> 'k FsWatch res" where
  "dropCbk K p data s =
     (case data of
        None \<Rightarrow> Inl UB_null_deref
      | Some node \<Rightarrow>
          (let (rc, k1) = epoll_ctl K (epollFd s) EPOLL_CTL_DEL (fd node) (kern s);
               k2 = inotify_rm_watch K (fd node) (wd node) k1;
               k3 = close_fd K (fd node) k2
           in Inr (s\<lparr>watch_set := watch_set s - {p}, kern := k3\<rparr>)))"

definition removeWatch :: "'k kernel \<Rightarrow> string \<Rightarrow> 'k FsWatch \<Rightarrow> 'k FsWatch res" where
  "removeWatch K dir s =
     (case tree s of
        None \<Rightarrow> Inl UB_null_deref
      | Some t \<Rightarrow> bindR (DirTree_drop dir (Some (dropCbk K)) t s) (\<lambda>(t', s'). Inr (s'\<lparr>tree := Some t'\<rparr>)))"

section \<open>Events\<close>

definition FsWatch_fireFileCbk ::
  "string \<Rightarrow> string \<Rightarrow> string \<Rightarrow> nat \<Rightarrow> nat option \<Rightarrow> 'k FsWatch \<Rightarrow> 'k FsWatch" where
  "FsWatch_fireFileCbk n e p onFile this s =
     s\<lparr>fired := fired s @ [NewFile onFile \<lparr>name = n, ext = e, path = p, flags = 0 OR IS_REGULAR\<rparr> this]\<rparr>"

definition FsWatch_fireDirCbk ::
  "string \<Rightarrow> string \<Rightarrow> string \<Rightarrow> nat \<Rightarrow> nat option \<Rightarrow> 'k FsWatch \<Rightarrow> 'k FsWatch" where
  "FsWatch_fireDirCbk n e p onDir this s =
     s\<lparr>fired := fired s @ [EmptyDir onDir \<lparr>name = n, ext = e, path = p, flags = 0 OR IS_DIR\<rparr> this]\<rparr>"

record inotify_event =
  mask :: u32
  ename :: string

definition IN_CLOSE_WRITE :: u32 where "IN_CLOSE_WRITE = 0x00000008"
definition IN_MOVED_TO :: u32 where "IN_MOVED_TO = 0x00000080"
definition IN_CREATE :: u32 where "IN_CREATE = 0x00000100"
definition IN_DELETE :: u32 where "IN_DELETE = 0x00000200"
definition IN_ISDIR :: u32 where "IN_ISDIR = 0x40000000"

definition getFullPath :: "int \<Rightarrow> inotify_event \<Rightarrow> 'k FsWatch \<Rightarrow> string res" where
  "getFullPath f event s =
     (case um_find (fd_map s) f of
        None \<Rightarrow> Inl UB_end_iterator
      | Some dir \<Rightarrow>
          if wroot s = [] then Inl UB_out_of_bounds
          else Inr (dir @ (if \<not> CHR ''/'' = last (wroot s) then ''/'' else []) @ ename event))"

definition checkEmptyDir :: "string \<Rightarrow> 'k FsWatch \<Rightarrow> 'k FsWatch res" where
  "checkEmptyDir deletedChild s =
     (case onEmptyDir s of
        None \<Rightarrow> Inr s
      | Some h \<Rightarrow>
          bindR (str_substr deletedChild 0 (find_last_of CHR ''/'' deletedChild)) (\<lambda>parent.
            case tree s of
              None \<Rightarrow> Inl UB_null_deref
            | Some t \<Rightarrow>
                bindR (DirTree_hasChildren parent t) (\<lambda>b.
                  if \<not> b \<and> parent \<noteq> wroot s then Inr (FsWatch_fireDirCbk parent [] parent h (onEmptyDirThis s) s)
                  else Inr s)))"

definition handleFileModify :: "int \<Rightarrow> inotify_event \<Rightarrow> 'k FsWatch \<Rightarrow> 'k FsWatch res" where
  "handleFileModify f event s =
     bindR (getFullPath f event s) (\<lambda>p.
       bindR (case onNewFile s of
                None \<Rightarrow> Inr s
              | Some h \<Rightarrow>
                  (let n = ename event in
                   bindR (str_substr n (nat (last_dot n + 1)) None) (\<lambda>e.
                     if wfilters s = {} then Inr (FsWatch_fireFileCbk n e p h (onNewFileThis s) s)
                     else if e \<in> wfilters s then Inr (FsWatch_fireFileCbk n e p h (onNewFileThis s) s)
                     else Inr s)))
         (\<lambda>s1. if onEmptyDir s1 \<noteq> None then addToTree [] (-1) (-1) s1 else Inr s1))"

definition handleFileDelete :: "int \<Rightarrow> inotify_event \<Rightarrow> 'k FsWatch \<Rightarrow> 'k FsWatch res" where
  "handleFileDelete f event s =
     (if onEmptyDir s \<noteq> None
      then bindR (getFullPath f event s) (\<lambda>p. bindR (removeFromTree p s) (checkEmptyDir p))
      else Inr s)"

text \<open>\<open>onFile\<close> is the callback of the walk over a directory tree.\<close>

definition FsWatch_onFile :: "'k kernel \<Rightarrow> OnFileData \<Rightarrow> 'k FsWatch \<Rightarrow> 'k FsWatch res" where
  "FsWatch_onFile K data s =
     (if flags data AND IS_DIR \<noteq> 0 then addWatch K (path data) True s
      else if flags data AND IS_REGULAR \<noteq> 0 then
        (if onEmptyDir s \<noteq> None then addToTree (path data) (-1) (-1) s else Inr s)
      else Inr s)"

definition handleDirectoryCreate :: "'k kernel \<Rightarrow> int \<Rightarrow> inotify_event \<Rightarrow> 'k FsWatch \<Rightarrow> 'k FsWatch res" where
  "handleDirectoryCreate K f event s =
     bindR (getFullPath f event s) (\<lambda>newDir.
       bindR (addWatch K newDir True s) (\<lambda>s1.
         case fts s1 of
           None \<Rightarrow> Inl UB_null_deref
         | Some w \<Rightarrow>
             (let (w', r) = Fts_walk_root (entries K (kern s1)) (walk_errno K (kern s1)) (walk_close K (kern s1)) w newDir
                    (FsWatch_onFile K) (s1\<lparr>fts := Some (w\<lparr>Fts.root := newDir\<rparr>)\<rparr>)
              in bindR r (\<lambda>(b, s2). Inr s2))))"

definition handleDirectoryDelete :: "'k kernel \<Rightarrow> int \<Rightarrow> inotify_event \<Rightarrow> 'k FsWatch \<Rightarrow> 'k FsWatch res" where
  "handleDirectoryDelete K f event s =
     bindR (getFullPath f event s) (\<lambda>deleteDir.
       bindR (removeWatch K deleteDir s) (checkEmptyDir deleteDir))"

text \<open>The body of the loop over the events of one buffer.\<close>

definition handle_event :: "'k kernel \<Rightarrow> int \<Rightarrow> inotify_event \<Rightarrow> 'k FsWatch \<Rightarrow> 'k FsWatch res" where
  "handle_event K f event s =
     (let isdir = (mask event AND IN_ISDIR \<noteq> 0) in
      bindR (if isdir \<and> mask event AND IN_CREATE \<noteq> 0 then handleDirectoryCreate K f event s else Inr s) (\<lambda>s1.
      bindR (if \<not> isdir \<and> (mask event AND IN_CLOSE_WRITE \<noteq> 0 \<or> mask event AND IN_MOVED_TO \<noteq> 0)
             then handleFileModify f event s1 else Inr s1) (\<lambda>s2.
      bindR (if \<not> isdir \<and> mask event AND IN_DELETE \<noteq> 0 then handleFileDelete f event s2 else Inr s2) (\<lambda>s3.
        if isdir \<and> mask event AND IN_DELETE \<noteq> 0 then handleDirectoryDelete K f event s3 else Inr s3))))"

text \<open>What \<open>read\<close> returns: a buffer of events, no more events, or another error. The list is
  the results of the successive calls; when it is used up there is nothing more to read.\<close>

datatype read_result = Read "inotify_event list" | Read_again | Read_error

fun handleActivity :: "'k kernel \<Rightarrow> int \<Rightarrow> read_result list \<Rightarrow> 'k FsWatch \<Rightarrow> 'k FsWatch res" where
  "handleActivity K f [] s = Inr s"
| "handleActivity K f (r # rs) s =
     (case r of
        Read_error \<Rightarrow> Inl (Proc_exit 1)
      | Read_again \<Rightarrow> Inr s
      | Read events \<Rightarrow>
          if events = [] then Inr s
          else bindR (foldR (handle_event K f) events s) (handleActivity K f rs))"

text \<open>The results of \<open>epoll_wait\<close>: an error, or the ready descriptors with what can be read from them.
  The end of the list is the moment \<open>stopWatching\<close> is seen.\<close>

datatype wait_result = Wait_error | Ready "(int \<times> read_result list) list"

fun epollThreadRoutine :: "'k kernel \<Rightarrow> wait_result list \<Rightarrow> 'k FsWatch \<Rightarrow> 'k FsWatch res" where
  "epollThreadRoutine K [] s = Inr s"
| "epollThreadRoutine K (w # ws) s =
     (if stopWatching s then Inr s
      else case w of
             Wait_error \<Rightarrow> Inl (Proc_exit 1)
           | Ready fds \<Rightarrow>
               bindR (foldR (\<lambda>(f, rs) u. case um_find (fd_map u) f of
                          None \<Rightarrow> Inr u
                        | Some d \<Rightarrow> handleActivity K f rs u) (take 10 fds) s)
                 (epollThreadRoutine K ws))"

section \<open>Life cycle\<close>

definition FsWatch_init :: "'k kernel \<Rightarrow> 'k FsWatch \<Rightarrow> 'k FsWatch res" where
  "FsWatch_init K s =
     (let s0 = s\<lparr>tree := Some DirTree_new\<rparr>;
          (e, k1) = epoll_create1 K (kern s0);
          s1 = s0\<lparr>epollFd := e, kern := k1\<rparr>
      in if e = -1 then Inl (Proc_exit 1)
         else
           bindR (addWatch K (wroot s1) True s1) (\<lambda>s2.
             let options = \<lparr>oIgnoreHiddenFiles = True, oIgnoreHiddenDirs = True, oIgnoreRegularFiles = False,
                            oIgnoreRegularDirs = False, oFilters = []\<rparr>;
                 w = Fts_new_options (False, False) (wroot s2) (Some options)
             in bindR (Fts_walk (entries K (kern s2)) (walk_errno K (kern s2)) (walk_close K (kern s2)) w
                        (FsWatch_onFile K) (s2\<lparr>fts := Some w\<rparr>))
                  (\<lambda>(b, s3). Inr (s3\<lparr>epollThread := Some (ThreadPool_new_base 1 False)\<rparr>))))"

definition FsWatch_start :: "'k FsWatch \<Rightarrow> 'k FsWatch res" where
  "FsWatch_start s =
     (case epollThread s of
        None \<Rightarrow> Inl UB_null_deref
      | Some p \<Rightarrow> Inr (s\<lparr>epollThread := Some (ThreadPool_addJob (fst (ThreadJob_new (Some 0) (Some 0) 0)) p)\<rparr>))"

definition FsWatch_start_filters :: "string list \<Rightarrow> 'k FsWatch \<Rightarrow> 'k FsWatch res" where
  "FsWatch_start_filters fs s = FsWatch_start (s\<lparr>wfilters := wfilters s \<union> set fs\<rparr>)"

definition OnNewFileCbk :: "nat option \<Rightarrow> nat option \<Rightarrow> 'k FsWatch \<Rightarrow> 'k FsWatch" where
  "OnNewFileCbk f this s = s\<lparr>onNewFile := f, onNewFileThis := this\<rparr>"

definition OnEmptyDirCbk :: "nat option \<Rightarrow> nat option \<Rightarrow> 'k FsWatch \<Rightarrow> 'k FsWatch" where
  "OnEmptyDirCbk f this s = s\<lparr>onEmptyDir := f, onEmptyDirThis := this\<rparr>"

definition FsWatch_delete :: "'k kernel \<Rightarrow> 'k FsWatch \<Rightarrow> 'k FsWatch res" where
  "FsWatch_delete K s =
     bindR (removeWatch K (wroot s) (s\<lparr>stopWatching := True, epollThread := None, fts := None\<rparr>)) (\<lambda>s1.
       case tree s1 of
         None \<Rightarrow> Inr s1
       | Some t \<Rightarrow> bindR (DirTree_delete t) (\<lambda>_. Inr (s1\<lparr>tree := None\<rparr>)))"

section \<open>What the watcher keeps\<close>

lemma addToTree_Some:
  "tree s = Some t \<Longrightarrow> addToTree dir f w s =
     Inr (s\<lparr>tree := Some (DirTree_insert dir
        (if dir = [] \<and> f = -1 \<and> w = -1 then None else Some \<lparr>tpath = dir, fd = f, wd = w\<rparr>) t)\<rparr>)"
  by (auto simp: addToTree_def)

text \<open>The three ways \<open>addWatch\<close> ends.\<close>

lemma addWatch_cases:
  assumes "tree s = Some t"
  obtains (watched) "dir \<in> watch_set s" "addWatch K dir add s = Inr s"
  | (nofd) "dir \<notin> watch_set s" "fst (inotify_init1 K (kern s)) = -1" "addWatch K dir add s = Inl (Proc_exit 1)"
  | (added) f w k t' where "dir \<notin> watch_set s" "f \<noteq> -1" "fst (inotify_init1 K (kern s)) = f"
      "w = fst (inotify_add_watch K f (c_str dir) (snd (inotify_init1 K (kern s))))"
      "k = snd (epoll_ctl K (epollFd s) (if add then EPOLL_CTL_ADD else EPOLL_CTL_MOD) f
             (snd (inotify_add_watch K f (c_str dir) (snd (inotify_init1 K (kern s))))))"
      "t' = DirTree_insert dir (Some \<lparr>tpath = dir, fd = f, wd = w\<rparr>) t"
      "addWatch K dir add s = Inr (s\<lparr>kern := k, fd_map := um_insert f dir (fd_map s),
          watch_set := insert dir (watch_set s), tree := Some t'\<rparr>)"
proof (cases "dir \<in> watch_set s")
  case True
  then show ?thesis using watched by (simp add: addWatch_def)
next
  case False
  show ?thesis
  proof (cases "fst (inotify_init1 K (kern s)) = -1")
    case True
    with False show ?thesis using nofd by (simp add: addWatch_def split_beta Let_def)
  next
    case ok: False
    show ?thesis
      by (rule added [OF False ok refl refl refl refl])
         (use False ok assms in \<open>simp add: addWatch_def split_beta Let_def addToTree_def\<close>)
  qed
qed

text \<open>Dropping a list of nodes: each path leaves the set, and a node without data is a null dereference.\<close>

lemma drop_all:
  "foldR (\<lambda>c. dropCbk K (fst c) (snd c)) cs s =
     (if None \<in> set (map snd cs) then Inl UB_null_deref
      else Inr (s\<lparr>watch_set := watch_set s - set (map fst cs),
                  kern := fold (\<lambda>c k. close_fd K (fd (the (snd c))) (inotify_rm_watch K (fd (the (snd c))) (wd (the (snd c)))
                      (snd (epoll_ctl K (epollFd s) EPOLL_CTL_DEL (fd (the (snd c))) k)))) cs (kern s)\<rparr>))"
proof (induction cs arbitrary: s)
  case (Cons c cs)
  obtain p d where c: "c = (p, d)" by fastforce
  show ?case
  proof (cases d)
    case None
    then show ?thesis using c by (simp add: dropCbk_def)
  next
    case (Some n)
    have "watch_set s - {p} - fst ` set cs = watch_set s - insert p (fst ` set cs)" by auto
    then show ?thesis using c Some Cons.IH by (simp add: dropCbk_def split_beta Let_def image_iff)
  qed
qed simp

lemma removeWatch_spec:
  assumes "tree s = Some t" and "DirTree_wf t"
  shows "removeWatch K dir s =
    (case node_at (DirTree.root t) (key_tokens dir) of
       None \<Rightarrow> Inr s
     | Some n \<Rightarrow>
         bindR (foldR (\<lambda>c. dropCbk K (fst c) (snd c)) (drop_calls dir n) s)
           (\<lambda>s'. Inr (s'\<lparr>tree := Some (t\<lparr>DirTree.root := remove_at (key_tokens dir) (DirTree.root t)\<rparr>)\<rparr>)))"
  using assms
  by (auto simp: removeWatch_def drop_spec bindR_assoc split: option.split intro!: bindR_cong)

lemma drop_base_front: "\<exists>r. drop_base key = CHR ''.'' # r"
proof -
  obtain r where r: "DirTree_normalize key = CHR ''.'' # r"
    using normalize_front [of key] normalize_nonempty [of key]
    by (cases "DirTree_normalize key") (auto simp: str_front_def)
  then have "find_last_of CHR ''/'' (DirTree_normalize key) \<noteq> Some 0"
    by (auto split: option.splits)
  then show ?thesis
    by (auto simp: drop_base_def Let_def r split: option.splits)
qed

lemma drop_calls_front: "p \<in> fst ` set (drop_calls key n) \<Longrightarrow> str_front p = CHR ''.''"
  using drop_base_front [of key] by (auto simp: drop_calls_def str_front_def)

lemma node_at_wf:
  assumes "DirTree_wf t" and "node_at (DirTree.root t) (key_tokens dir) = Some n"
  shows "node_wf n"
  using assms node_wf_node_at [of "DirTree.root t" "butlast (key_tokens dir)" "last (key_tokens dir)" n]
  by (simp add: DirTree_wf_def)

section \<open>Removing watches\<close>


text \<open>A directory whose path does not start with a dot (an absolute path, or a relative one such as music/rock) is
  never watched again once it has been removed: the drop reports it in normal form, with a dot in front, so its own
  path stays in the set of watched paths, and a later \<open>addWatch\<close> for it does nothing.\<close>

theorem FsWatch_never_rewatched:
  assumes "tree s = Some t" and "DirTree_wf t" and "str_front dir \<noteq> CHR ''.''" and "dir \<in> watch_set s"
    and "removeWatch K dir s = Inr s'"
  shows "addWatch K' dir add s' = Inr s'"
proof -
  have "dir \<notin> fst ` set (drop_calls dir n)" for n :: "TreeNode node"
    using assms(3) drop_calls_front by blast
  then have "dir \<in> watch_set s'"
    using assms by (auto simp: removeWatch_spec drop_all split: option.splits if_splits)
  then show ?thesis by (simp add: addWatch_def)
qed

section \<open>Starting up\<close>

text \<open>What the kernel documents about descriptors: \<open>inotify_init1\<close> returns one that is not open, and opens it;
  adding a watch and \<open>epoll_ctl\<close> open and close nothing. \<open>opn\<close> is the set of open descriptors.\<close>

definition fresh_fds :: "('k \<Rightarrow> int set) \<Rightarrow> 'k kernel \<Rightarrow> bool" where
  "fresh_fds opn K \<longleftrightarrow>
     (\<forall>k. fst (inotify_init1 K k) \<notin> opn k \<and> opn (snd (inotify_init1 K k)) = insert (fst (inotify_init1 K k)) (opn k)) \<and>
     (\<forall>f d k. opn (snd (inotify_add_watch K f d k)) = opn k) \<and>
     (\<forall>e op f k. opn (snd (epoll_ctl K e op f k)) = opn k)"

definition no_fd_error :: "'k kernel \<Rightarrow> bool" where
  "no_fd_error K \<longleftrightarrow> (\<forall>k. fst (inotify_init1 K k) \<noteq> -1 \<and> fst (epoll_create1 K k) \<noteq> -1)"

text \<open>Every watched path has a descriptor that resolves to it, and the known descriptors are open.\<close>

definition watch_inv :: "('k \<Rightarrow> int set) \<Rightarrow> 'k FsWatch \<Rightarrow> bool" where
  "watch_inv opn s \<longleftrightarrow>
     tree s \<noteq> None \<and> dom (um_find (fd_map s)) \<subseteq> opn (kern s) \<and>
     (\<forall>d \<in> watch_set s. \<exists>f. um_find (fd_map s) f = Some d)"

lemma um_dom_insert: "dom (um_find (um_insert f d m)) = insert f (dom (um_find m))"
  by (auto simp: dom_def)

lemma watched_map:
  assumes "um_find m f = None" and "\<forall>d \<in> W. \<exists>f. um_find m f = Some d"
  shows "\<forall>d \<in> insert dir W. \<exists>g. um_find (um_insert f dir m) g = Some d"
proof
  fix d
  assume d: "d \<in> insert dir W"
  show "\<exists>g. um_find (um_insert f dir m) g = Some d"
  proof (cases "d = dir")
    case True
    then show ?thesis using assms(1) by (intro exI [of _ f]) simp
  next
    case False
    then obtain g where "um_find m g = Some d" using assms(2) d by auto
    then show ?thesis using assms(1) by (intro exI [of _ g]) auto
  qed
qed

lemma addWatch_inv:
  assumes "fresh_fds opn K" and "no_fd_error K" and "watch_inv opn s"
  shows "\<exists>s'. addWatch K dir add s = Inr s' \<and> watch_inv opn s' \<and> watch_set s' = insert dir (watch_set s)
    \<and> onEmptyDir s' = onEmptyDir s"
proof -
  obtain t where t: "tree s = Some t" using assms(3) by (auto simp: watch_inv_def)
  from t show ?thesis
  proof (cases rule: addWatch_cases [where dir = dir and K = K and add = add])
    case watched
    then show ?thesis using assms(3) by auto
  next
    case nofd
    then show ?thesis using assms(2) by (simp add: no_fd_error_def)
  next
    case (added f w k t')
    have new: "um_find (fd_map s) f = None"
      using assms(1,3) added(3) by (auto simp: watch_inv_def fresh_fds_def dom_def)
    have "opn k = insert f (opn (kern s))" using assms(1) added(3,5) by (simp add: fresh_fds_def)
    then have "watch_inv opn (s\<lparr>kern := k, fd_map := um_insert f dir (fd_map s),
          watch_set := insert dir (watch_set s), tree := Some t'\<rparr>)"
      using assms(3) watched_map [OF new, of "watch_set s" dir] um_dom_insert [of f dir "fd_map s"]
      by (auto simp: watch_inv_def)
    then show ?thesis using added(7) by simp
  qed
qed

lemma onFile_inv:
  assumes "fresh_fds opn K" and "no_fd_error K" and "watch_inv opn s"
  shows "\<exists>s'. FsWatch_onFile K d s = Inr s' \<and> watch_inv opn s'
    \<and> watch_set s' = watch_set s \<union> (if flags d AND IS_DIR \<noteq> 0 then {path d} else {})"
proof (cases "flags d AND IS_DIR \<noteq> 0")
  case True
  then show ?thesis using addWatch_inv [OF assms, of "path d" True] by (auto simp: FsWatch_onFile_def)
next
  case False
  obtain t where "tree s = Some t" using assms(3) by (auto simp: watch_inv_def)
  with False show ?thesis
    using assms(3) by (auto simp: FsWatch_onFile_def addToTree_Some watch_inv_def)
qed

lemma walk_inv:
  assumes "fresh_fds opn K" and "no_fd_error K" and "watch_inv opn s"
  shows "\<exists>s'. foldR (FsWatch_onFile K) ds s = Inr s' \<and> watch_inv opn s'
    \<and> watch_set s' = watch_set s \<union> {path d | d. d \<in> set ds \<and> flags d AND IS_DIR \<noteq> 0}"
  using assms(3)
proof (induction ds arbitrary: s)
  case (Cons d ds)
  obtain s1 where s1: "FsWatch_onFile K d s = Inr s1" "watch_inv opn s1"
      "watch_set s1 = watch_set s \<union> (if flags d AND IS_DIR \<noteq> 0 then {path d} else {})"
    using onFile_inv [OF assms(1,2) Cons.prems] by blast
  then show ?case using Cons.IH [OF s1(2)] by (auto split: if_splits)
qed simp


section \<open>Handling events\<close>

text \<open>What one event of a file means: it was closed after writing or moved into a watched directory. It is reported with
  the path of the directory followed by its name, if there is no filter or its extension is in the filter.\<close>

definition file_event :: "inotify_event \<Rightarrow> bool" where
  "file_event e \<longleftrightarrow> mask e AND IN_ISDIR = 0 \<and> mask e AND IN_DELETE = 0
     \<and> (mask e AND IN_CLOSE_WRITE \<noteq> 0 \<or> mask e AND IN_MOVED_TO \<noteq> 0)"

definition file_report :: "'k FsWatch \<Rightarrow> nat \<Rightarrow> int \<Rightarrow> inotify_event \<Rightarrow> fs_event list" where
  "file_report s h f e =
     (case um_find (fd_map s) f of
        None \<Rightarrow> []
      | Some dir \<Rightarrow>
          if wfilters s = {} \<or> extension (ename e) \<in> wfilters s
          then [NewFile h \<lparr>name = ename e, ext = extension (ename e),
                  path = dir @ (if last (wroot s) = CHR ''/'' then [] else ''/'') @ ename e, flags = IS_REGULAR\<rparr>
                  (onNewFileThis s)]
          else [])"

definition add_fired :: "fs_event list \<Rightarrow> 'k FsWatch \<Rightarrow> 'k FsWatch" where
  "add_fired xs s = s\<lparr>fired := fired s @ xs\<rparr>"

lemma add_fired_add: "add_fired ys (add_fired xs s) = add_fired (xs @ ys) s"
  by (simp add: add_fired_def)

lemma add_fired_fields [simp]:
  "fd_map (add_fired xs s) = fd_map s" "stopWatching (add_fired xs s) = stopWatching s"
  by (simp_all add: add_fired_def)

lemma foldR_add_fired:
  assumes "\<And>x xs. x \<in> set as \<Longrightarrow> F x (add_fired xs s) = Inr (add_fired (xs @ g x) s)"
  shows "foldR F as (add_fired xs s) = Inr (add_fired (xs @ concat (map g as)) s)"
  using assms by (induction as arbitrary: xs) auto

definition reports_files :: "'k FsWatch \<Rightarrow> nat \<Rightarrow> bool" where
  "reports_files s h \<longleftrightarrow> wroot s \<noteq> [] \<and> onNewFile s = Some h \<and> onEmptyDir s = None \<and> \<not> stopWatching s"

lemma event_reported:
  assumes "reports_files s h" and "um_find (fd_map s) f \<noteq> None" and "file_event e"
  shows "handle_event K f e (add_fired xs s) = Inr (add_fired (xs @ file_report s h f e) s)"
proof -
  obtain dir where "um_find (fd_map s) f = Some dir" using assms(2) by auto
  then show ?thesis
    using assms(1,3)
    by (auto simp: reports_files_def file_event_def handle_event_def handleFileModify_def getFullPath_def last_dot_ext
        FsWatch_fireFileCbk_def file_report_def add_fired_def Let_def eq_commute [of "CHR ''/''"])
qed

lemma activity_reported:
  assumes "reports_files s h" and "um_find (fd_map s) f \<noteq> None"
    and "\<forall>es \<in> set ess. es \<noteq> [] \<and> (\<forall>e \<in> set es. file_event e)"
  shows "handleActivity K f (map Read ess) (add_fired xs s)
         = Inr (add_fired (xs @ concat (map (file_report s h f) (concat ess))) s)"
  using assms(3)
proof (induction ess arbitrary: xs)
  case (Cons es ess)
  have "foldR (handle_event K f) es (add_fired xs s) = Inr (add_fired (xs @ concat (map (file_report s h f) es)) s)"
    by (rule foldR_add_fired) (use Cons.prems event_reported [OF assms(1,2)] in auto)
  then show ?case using Cons by simp
qed simp

text \<open>The reports for one result of \<open>epoll_wait\<close>, which has at most ten ready descriptors with their reads.\<close>

definition batch_reports :: "'k FsWatch \<Rightarrow> nat \<Rightarrow> (int \<times> inotify_event list list) list \<Rightarrow> fs_event list" where
  "batch_reports s h b = concat (map (\<lambda>(f, ess). concat (map (file_report s h f) (concat ess))) b)"

definition file_batch :: "(int \<times> inotify_event list list) list \<Rightarrow> bool" where
  "file_batch b \<longleftrightarrow>
     length b \<le> 10 \<and> (\<forall>(f, ess) \<in> set b. \<forall>es \<in> set ess. es \<noteq> [] \<and> (\<forall>e \<in> set es. file_event e))"

definition ready :: "(int \<times> inotify_event list list) list \<Rightarrow> wait_result" where
  "ready b = Ready (map (\<lambda>(f, ess). (f, map Read ess)) b)"

lemma unknown_report: "um_find (fd_map s) f = None \<Longrightarrow> concat (map (file_report s h f) es) = []"
  by (induction es) (auto simp: file_report_def)

lemma batch_reported:
  assumes "reports_files s h" and "file_batch b"
  shows "foldR (\<lambda>(f, rs) u. case um_find (fd_map u) f of None \<Rightarrow> Inr u | Some d \<Rightarrow> handleActivity K f rs u)
           (map (\<lambda>(f, ess). (f, map Read ess)) b) (add_fired xs s) = Inr (add_fired (xs @ batch_reports s h b) s)"
  unfolding foldR_map batch_reports_def
proof (rule foldR_add_fired)
  fix x xs assume x: "x \<in> set b"
  obtain f ess where fe: "x = (f, ess)" by (cases x)
  have ok: "\<forall>es \<in> set ess. es \<noteq> [] \<and> (\<forall>e \<in> set es. file_event e)" using x fe assms(2) by (auto simp: file_batch_def)
  show "(\<lambda>(f, rs) u. case um_find (fd_map u) f of None \<Rightarrow> Inr u | Some d \<Rightarrow> handleActivity K f rs u)
          ((\<lambda>(f, ess). (f, map Read ess)) x) (add_fired xs s)
        = Inr (add_fired (xs @ (\<lambda>(f, ess). concat (map (file_report s h f) (concat ess))) x) s)"
  proof (cases "um_find (fd_map s) f")
    case None
    then have "concat (map (file_report s h f) (concat ess)) = []" by (rule unknown_report)
    then show ?thesis using None by (simp only: fe prod.case add_fired_fields option.case append_Nil2)
  next
    case (Some d)
    then show ?thesis using activity_reported [OF assms(1) _ ok, of f] by (simp add: fe)
  qed
qed

lemma batches_reported:
  assumes "reports_files s h" and "\<forall>b \<in> set bs. file_batch b"
  shows "epollThreadRoutine K (map ready bs) (add_fired xs s) = Inr (add_fired (xs @ concat (map (batch_reports s h) bs)) s)"
  using assms(2)
proof (induction bs arbitrary: xs)
  case (Cons b bs)
  have "take 10 (map (\<lambda>(f, ess). (f, map Read ess)) b) = map (\<lambda>(f, ess). (f, map Read ess)) b"
    using Cons.prems by (simp add: file_batch_def)
  then show ?case
    using Cons batch_reported [OF assms(1), of b K xs] assms(1) by (simp add: ready_def reports_files_def)
qed simp


text \<open>Descriptors are never forgotten. When the kernel hands out a descriptor again that once belonged to another
  directory, the new directory is recorded as watched, but the events of that descriptor still resolve to the old
  directory.\<close>

theorem FsWatch_reused_descriptor:
  assumes "tree s \<noteq> None" and "fst (inotify_init1 K (kern s)) = f" and "f \<noteq> -1"
    and "um_find (fd_map s) f = Some old" and "dir \<notin> watch_set s" and "wroot s \<noteq> []"
  shows "\<exists>s'. addWatch K dir add s = Inr s' \<and> dir \<in> watch_set s'
    \<and> getFullPath f e s' = Inr (old @ (if last (wroot s) = CHR ''/'' then [] else ''/'') @ ename e)"
proof -
  obtain t where t: "tree s = Some t" using assms(1) by auto
  from t show ?thesis
  proof (cases rule: addWatch_cases [where dir = dir and K = K and add = add])
    case (added g w k t')
    then show ?thesis
      using assms by (auto simp: getFullPath_def eq_commute [of "CHR ''/''"])
  qed (use assms in auto)
qed

lemma handleFileModify_tracks:
  assumes "tree s = Some t" and "onEmptyDir s \<noteq> None" and "handleFileModify f e s = Inr s'"
  shows "tree s' = Some (DirTree_insert [] None t) \<and> wroot s' = wroot s"
proof -
  let ?inner = "\<lambda>p. case onNewFile s of None \<Rightarrow> Inr s | Some h \<Rightarrow> bindR (Inr (extension (ename e)))
      (\<lambda>x. if wfilters s = {} then Inr (FsWatch_fireFileCbk (ename e) x p h (onNewFileThis s) s)
           else if x \<in> wfilters s then Inr (FsWatch_fireFileCbk (ename e) x p h (onNewFileThis s) s) else Inr s)"
  have keep: "?inner p = Inr s1 \<Longrightarrow> tree s1 = tree s \<and> onEmptyDir s1 = onEmptyDir s \<and> wroot s1 = wroot s" for p s1
    by (auto simp: FsWatch_fireFileCbk_def split: if_splits option.splits)
  obtain p s1 where "?inner p = Inr s1" "(if onEmptyDir s1 \<noteq> None then addToTree [] (-1) (-1) s1 else Inr s1) = Inr s'"
    using assms(3) unfolding handleFileModify_def bindR_Inr_iff last_dot_ext Let_def by blast
  then show ?thesis using keep [of p s1] assms(1,2) by (auto simp: addToTree_Some)
qed

text \<open>With an empty-directory callback, every modified file destroys the watcher's record of the current directory:
  \<open>handleFileModify\<close> stores null at the root of the tree instead of recording the file, and the destructor of a watcher
  of the current directory then dereferences null.\<close>

theorem FsWatch_tracking_breaks_destructor:
  assumes t: "tree s = Some t" "DirTree_wf t" and "onEmptyDir s \<noteq> None" and "wroot s = ''.''"
    and mod: "handleFileModify f e s = Inr s'"
  shows "FsWatch_delete K s' = Inl UB_null_deref"
proof -
  have tok: "key_tokens [] = [''.'']" "key_tokens ''.'' = [''.'']" by code_simp+
  let ?t = "DirTree_insert [] None t"
  have s': "tree s' = Some ?t" "wroot s' = ''.''"
    using handleFileModify_tracks [OF t(1) assms(3) mod] assms(4) by simp_all
  have wf: "DirTree_wf ?t" using t(2) by (rule DirTree_wf_insert)
  have "[''.''] \<in> DirTree_nodes ?t" "DirTree_data ?t [''.''] = None"
    unfolding dt.nodes_ins dt.dat_ins tok by simp_all
  then obtain n where n: "node_at (DirTree.root ?t) [''.''] = Some n" "getData n = None"
    by (auto simp: DirTree_nodes_def DirTree_data_def has_node_def data_at_def)
  then have "node_wf n" using node_at_wf [OF wf, of "''.''"] tok by simp
  then have "([], None) \<in> set (visit_order n)" using n(2) by (simp add: visit_order_iff)
  then have "None \<in> set (map snd (drop_calls ''.'' n))" by (force simp: drop_calls_def)
  then show ?thesis
    using s' wf n(1) tok by (simp add: FsWatch_delete_def removeWatch_spec [where t = ?t] drop_all)
qed

section \<open>A kernel for examples\<close>

text \<open>Descriptors are numbered upwards and the lowest closed one is used again; the file system has one directory
  with one file below the root.\<close>

definition sample_kernel :: "int kernel" where
  "sample_kernel =
     \<lparr>inotify_init1 = (\<lambda>k. (k, k + 1)), inotify_add_watch = (\<lambda>f d k. (1, k)), inotify_rm_watch = (\<lambda>f w k. k),
      epoll_create1 = (\<lambda>k. (k, k + 1)), epoll_ctl = (\<lambda>e op f k. (0, k)), close_fd = (\<lambda>f k. min f k),
      entries = (\<lambda>k r. Some [\<lparr>fts_info = FTS_D, fts_name = ''rock'', fts_path = r @ ''/rock''\<rparr>,
        \<lparr>fts_info = FTS_F, fts_name = ''a.mp3'', fts_path = r @ ''/rock/a.mp3''\<rparr>,
        \<lparr>fts_info = FTS_DP, fts_name = ''rock'', fts_path = r @ ''/rock''\<rparr>]),
      walk_errno = (\<lambda>k. 0), walk_close = (\<lambda>k. 0)\<rparr>"

text \<open>Fresh descriptors, for a kernel state that counts upwards from \<open>nat\<close> zero.\<close>

definition counting_kernel :: "nat kernel" where
  "counting_kernel =
     \<lparr>inotify_init1 = (\<lambda>k. (int k, k + 1)), inotify_add_watch = (\<lambda>f d k. (1, k)), inotify_rm_watch = (\<lambda>f w k. k),
      epoll_create1 = (\<lambda>k. (int k, k + 1)), epoll_ctl = (\<lambda>e op f k. (0, k)), close_fd = (\<lambda>f k. k),
      entries = (\<lambda>k r. Some [\<lparr>fts_info = FTS_D, fts_name = ''rock'', fts_path = ''./rock''\<rparr>]),
      walk_errno = (\<lambda>k. 0), walk_close = (\<lambda>k. 0)\<rparr>"


definition watching :: "string \<Rightarrow> int FsWatch" where
  "watching r = (FsWatch_new_root r 5)\<lparr>tree := Some (DirTree_insert r (Some \<lparr>tpath = r, fd = 4, wd = 1\<rparr>) DirTree_new),
     fd_map := [(4, r)], watch_set := {r}, onNewFile := Some 1, onNewFileThis := Some 2\<rparr>"

lemma watching_tree:
  "tree (watching r) = Some (DirTree_insert r (Some \<lparr>tpath = r, fd = 4, wd = 1\<rparr>) DirTree_new)"
  "DirTree_wf (DirTree_insert r (Some \<lparr>tpath = r, fd = 4, wd = 1\<rparr>) DirTree_new)"
  by (simp_all add: watching_def DirTree_wf_insert)


theorem FsWatch_reused_descriptor_witness:
  "\<exists>s'. addWatch sample_kernel ''/music/new'' True ((watching ''/music'')\<lparr>kern := 4\<rparr>) = Inr s' \<and> ''/music/new'' \<in> watch_set s'
     \<and> getFullPath 4 \<lparr>mask = IN_CREATE, ename = ''x''\<rparr> s' = Inr ''/music/x''"
  using FsWatch_reused_descriptor [of "(watching ''/music'')\<lparr>kern := 4\<rparr>" sample_kernel 4 "''/music''" "''/music/new''" True
      "\<lparr>mask = IN_CREATE, ename = ''x''\<rparr>"]
  by (simp add: watching_def FsWatch_new_root_def um_find_def sample_kernel_def)

theorem FsWatch_never_rewatched_witness:
  "\<exists>s'. removeWatch sample_kernel ''/music'' (watching ''/music'') = Inr s'
     \<and> addWatch sample_kernel ''/music'' True s' = Inr s'"
proof -
  have "case removeWatch sample_kernel ''/music'' (watching ''/music'') of Inl e \<Rightarrow> False | Inr s' \<Rightarrow> True" by code_simp
  then obtain s' where "removeWatch sample_kernel ''/music'' (watching ''/music'') = Inr s'"
    by (auto split: sum.splits)
  then show ?thesis
    using FsWatch_never_rewatched [OF watching_tree _ _, of "''/music''" "''/music''" sample_kernel s' sample_kernel True]
    by (auto simp: watching_def str_front_def)
qed


theorem FsWatch_tracking_breaks_destructor_witness:
  "\<exists>s'. handleFileModify 4 \<lparr>mask = IN_CLOSE_WRITE, ename = ''b''\<rparr> ((watching ''.'')\<lparr>onEmptyDir := Some 7\<rparr>) = Inr s'
     \<and> FsWatch_delete sample_kernel s' = Inl UB_null_deref"
proof -
  let ?s = "(watching ''.'')\<lparr>onEmptyDir := Some 7\<rparr>" and ?e = "\<lparr>mask = IN_CLOSE_WRITE, ename = ''b''\<rparr>"
  have "case handleFileModify 4 ?e ?s of Inl e \<Rightarrow> False | Inr s' \<Rightarrow> True" by code_simp
  then obtain s' where s': "handleFileModify 4 ?e ?s = Inr s'" by (auto split: sum.splits)
  have "tree ?s = Some (DirTree_insert ''.'' (Some \<lparr>tpath = ''.'', fd = 4, wd = 1\<rparr>) DirTree_new)"
    using watching_tree(1) [of "''.''"] by simp
  then show ?thesis
    using FsWatch_tracking_breaks_destructor [OF _ watching_tree(2) _ _ s', of "''.''"] s'
    by (simp add: watching_def FsWatch_new_root_def)
qed

end
