(* ===== verification/HttpRouter.thy ===== *)
theory HttpRouter
  imports DirTree
begin

text \<open>
  \<open>src/http/http-common.cpp\<close> and \<open>src/http/server/http-router.cpp\<close>: the method names and the
  table of routes, one \<open>DirTree\<close> per method. The router is a client of the tree through
  its interface (the facts \<open>dt.\<close> of the interpretation in \<open>DirTree\<close>). A handler
  is a value of type \<open>'h\<close>, a \<open>this_\<close> pointer a number.
\<close>

section \<open>Methods\<close>

text \<open>The values of libevent's \<open>evhttp_cmd_type\<close>.\<close>

type_synonym evhttp_cmd_type = int

definition EVHTTP_REQ_GET :: evhttp_cmd_type where "EVHTTP_REQ_GET = 1"
definition EVHTTP_REQ_POST :: evhttp_cmd_type where "EVHTTP_REQ_POST = 2"
definition EVHTTP_REQ_HEAD :: evhttp_cmd_type where "EVHTTP_REQ_HEAD = 4"
definition EVHTTP_REQ_PUT :: evhttp_cmd_type where "EVHTTP_REQ_PUT = 8"
definition EVHTTP_REQ_DELETE :: evhttp_cmd_type where "EVHTTP_REQ_DELETE = 16"
definition EVHTTP_REQ_OPTIONS :: evhttp_cmd_type where "EVHTTP_REQ_OPTIONS = 32"
definition EVHTTP_REQ_TRACE :: evhttp_cmd_type where "EVHTTP_REQ_TRACE = 64"
definition EVHTTP_REQ_CONNECT :: evhttp_cmd_type where "EVHTTP_REQ_CONNECT = 128"
definition EVHTTP_REQ_PATCH :: evhttp_cmd_type where "EVHTTP_REQ_PATCH = 256"

lemmas method_defs = EVHTTP_REQ_GET_def EVHTTP_REQ_POST_def EVHTTP_REQ_HEAD_def EVHTTP_REQ_PUT_def EVHTTP_REQ_DELETE_def
  EVHTTP_REQ_OPTIONS_def EVHTTP_REQ_TRACE_def EVHTTP_REQ_CONNECT_def EVHTTP_REQ_PATCH_def

definition getMethod :: "evhttp_cmd_type \<Rightarrow> string" where
  "getMethod m =
     (if m = EVHTTP_REQ_GET then ''GET''
      else if m = EVHTTP_REQ_POST then ''POST''
      else if m = EVHTTP_REQ_HEAD then ''HEAD''
      else if m = EVHTTP_REQ_PUT then ''PUT''
      else if m = EVHTTP_REQ_DELETE then ''DELETE''
      else if m = EVHTTP_REQ_OPTIONS then ''OPTIONS''
      else if m = EVHTTP_REQ_TRACE then ''TRACE''
      else if m = EVHTTP_REQ_CONNECT then ''CONNECT''
      else if m = EVHTTP_REQ_PATCH then ''PATCH''
      else ''unknown'')"

section \<open>class Route\<close>

record 'h Route =
  rmethod :: evhttp_cmd_type
  rpath :: string
  onrequest :: "'h option"
  this_ptr :: "nat option"

definition Route_new :: "evhttp_cmd_type \<Rightarrow> string \<Rightarrow> 'h option \<Rightarrow> nat option \<Rightarrow> 'h Route" where
  "Route_new m p h t = \<lparr>rmethod = m, rpath = p, onrequest = h, this_ptr = t\<rparr>"

section \<open>class Router\<close>

record 'h Router =
  routes :: "(evhttp_cmd_type \<times> 'h Route DirTree) list"

definition Router_new :: "'h Router" where
  "Router_new = \<lparr>routes = []\<rparr>"

text \<open>\<open>getDirTree\<close> makes sure there is a tree for the method; the pointer it returns is the method, under which
  the tree is found.\<close>

definition getDirTree :: "evhttp_cmd_type \<Rightarrow> 'h Router \<Rightarrow> 'h Router" where
  "getDirTree m r =
     (case um_find (routes r) m of
        None \<Rightarrow> r\<lparr>routes := um_insert m DirTree_new (routes r)\<rparr>
      | Some t \<Rightarrow> r)"

definition addRoute_tree :: "evhttp_cmd_type \<Rightarrow> string \<Rightarrow> 'h Route \<Rightarrow> 'h Router \<Rightarrow> 'h Router" where
  "addRoute_tree m p route r = r\<lparr>routes := um_modify m (DirTree_insert p (Some route)) (routes r)\<rparr>"

definition Router_addRoute :: "'h Route \<Rightarrow> 'h Router \<Rightarrow> 'h Router" where
  "Router_addRoute route r =
     (let m = rmethod route; p = rpath route
      in addRoute_tree m p route (getDirTree m r))"

definition searchCbk :: "string \<Rightarrow> string \<Rightarrow> bool" where
  "searchCbk treeToken searchToken = (if treeToken = ''*'' then True else False)"

definition Router_getRoute :: "evhttp_cmd_type \<Rightarrow> string \<Rightarrow> 'h Router \<Rightarrow> 'h Route option res" where
  "Router_getRoute m p r =
     (case um_find (routes r) m of
        None \<Rightarrow> Inr None
      | Some t \<Rightarrow> DirTree_search p searchCbk t)"

text \<open>The callback of the destructor deletes the route, which is allowed for a null pointer; the log is the
  routes deleted.\<close>

definition Router_dropCbk :: "string \<Rightarrow> 'h Route option \<Rightarrow> 'h Route list \<Rightarrow> 'h Route list res" where
  "Router_dropCbk p data freed = (case data of None \<Rightarrow> Inr freed | Some route \<Rightarrow> Inr (freed @ [route]))"

definition Router_delete :: "'h Router \<Rightarrow> 'h Route list \<Rightarrow> 'h Route list res" where
  "Router_delete r freed =
     foldR (\<lambda>(m, t) fr. bindR (DirTree_drop ''/'' (Some Router_dropCbk) t fr)
              (\<lambda>(t', fr'). bindR (DirTree_delete t') (\<lambda>_. Inr fr'))) (routes r) freed"

section \<open>Specification\<close>

text \<open>The routes of one method, in the order they were added, and the one added last at a path.\<close>

definition of_method :: "evhttp_cmd_type \<Rightarrow> 'h Route list \<Rightarrow> 'h Route list" where
  "of_method m rs = filter (\<lambda>r. rmethod r = m) rs"

definition last_at :: "string list \<Rightarrow> 'h Route list \<Rightarrow> 'h Route option" where
  "last_at ks rs = find (\<lambda>r. key_tokens (rpath r) = ks) (rev rs)"

text \<open>A request path selects the route added last at exactly this path, if some route of its method passes
  through or ends at this path; otherwise the route added last with a star in place of the last component.\<close>

definition select_route :: "evhttp_cmd_type \<Rightarrow> string \<Rightarrow> 'h Route list \<Rightarrow> 'h Route option" where
  "select_route m p rs =
     (let ks = key_tokens p; ms = of_method m rs in
      if \<exists>r \<in> set ms. prefix ks (key_tokens (rpath r)) then last_at ks ms
      else if 2 \<le> length ks then last_at (butlast ks @ [''*'']) ms
      else None)"

definition tree_of :: "'h Route list \<Rightarrow> 'h Route DirTree" where
  "tree_of rs = fold (\<lambda>r. DirTree_insert (rpath r) (Some r)) rs DirTree_new"

lemma tree_of_snoc: "tree_of (rs @ [r]) = DirTree_insert (rpath r) (Some r) (tree_of rs)"
  by (simp add: tree_of_def)

lemma tree_of_wf: "DirTree_wf (tree_of rs)"
  by (induction rs rule: rev_induct) (simp_all add: tree_of_snoc dt.ok_ins, simp add: tree_of_def)

lemma tree_of_nodes: "DirTree_nodes (tree_of rs) = {[]} \<union> {us. \<exists>r \<in> set rs. prefix us (key_tokens (rpath r))}"
proof (induction rs rule: rev_induct)
  case Nil
  then show ?case using dt.nodes_emp by (simp add: tree_of_def)
next
  case (snoc r rs)
  then show ?case unfolding tree_of_snoc dt.nodes_ins by auto
qed

lemma tree_of_data: "DirTree_data (tree_of rs) ks = last_at ks rs"
proof (induction rs rule: rev_induct)
  case Nil
  then show ?case using dt.dat_emp by (simp add: tree_of_def last_at_def)
next
  case (snoc r rs)
  then show ?case unfolding tree_of_snoc dt.dat_ins by (simp add: last_at_def)
qed

lemma addRoute_find:
  "um_find (routes (Router_addRoute route r)) m =
     (if m = rmethod route
      then Some (DirTree_insert (rpath route) (Some route) (case um_find (routes r) m of None \<Rightarrow> DirTree_new | Some t \<Rightarrow> t))
      else um_find (routes r) m)"
  by (auto simp: Router_addRoute_def addRoute_tree_def getDirTree_def Let_def split: option.splits)

lemma router_trees:
  "um_find (routes (fold Router_addRoute rs Router_new)) m =
     (if of_method m rs = [] then None else Some (tree_of (of_method m rs)))"
proof (induction rs arbitrary: m rule: rev_induct)
  case Nil
  then show ?case by (simp add: Router_new_def of_method_def)
next
  case (snoc r rs)
  have "tree_of [r] = DirTree_insert (rpath r) (Some r) DirTree_new" by (simp add: tree_of_def)
  moreover have "of_method m (rs @ [r]) = of_method m rs @ (if rmethod r = m then [r] else [])"
    by (simp add: of_method_def)
  moreover have "tree_of [] = DirTree_new" by (simp add: tree_of_def)
  ultimately show ?case
    using snoc [of m] by (cases "m = rmethod r"; cases "of_method m rs = []") (simp_all add: addRoute_find tree_of_snoc)
qed

section \<open>Properties\<close>

lemma getRoute_select:
  "Router_getRoute m p (fold Router_addRoute rs Router_new) = Inr (select_route m p rs)"
proof (cases "of_method m rs = []")
  case True
  then show ?thesis
    by (simp add: Router_getRoute_def router_trees select_route_def last_at_def Let_def)
next
  case False
  have star: "last_at ks (of_method m rs) = None" if "ks \<notin> DirTree_nodes (tree_of (of_method m rs))" for ks
    using that by (auto simp: tree_of_nodes last_at_def find_None_iff)
  show ?thesis
    using False star [of "butlast (key_tokens p) @ [''*'']"]
    by (simp add: Router_getRoute_def router_trees dt.srch_table tree_of_wf table_search_def tree_of_data
        tree_of_nodes searchCbk_def select_route_def Let_def)
qed

text \<open>C13: After any sequence of route registrations, \<open>getRoute\<close> selects by method and path as specified: among the
  routes of the request's method, the one registered last at exactly the request's components; if no route of the method
  passes through these components, the one registered last that has a star in place of the last component; otherwise
  none. It never faults.\<close>

theorem Router_getRoute_selects:
  "Router_getRoute m p (fold Router_addRoute rs Router_new) = Inr (select_route m p rs)"
  by (rule getRoute_select)

text \<open>A longer route hides a wildcard. When one route of a method has a star as its last component and another one
  passes through a request's path without ending there, the request finds no route, although the star alone would
  match it.\<close>

theorem Router_longer_route_hides_wildcard:
  assumes "rmethod star = m" and "rmethod deep = m" and "2 \<le> length (key_tokens p)"
    and "key_tokens (rpath star) = butlast (key_tokens p) @ [''*'']" and "last (key_tokens p) \<noteq> ''*''"
    and "strict_prefix (key_tokens p) (key_tokens (rpath deep))"
  shows "Router_getRoute m p (fold Router_addRoute [star] Router_new) = Inr (Some star)
    \<and> Router_getRoute m p (fold Router_addRoute [star, deep] Router_new) = Inr None"
proof -
  have ne: "key_tokens (rpath star) \<noteq> key_tokens p" using assms(4,5) by (metis last_snoc)
  have "\<not> prefix (key_tokens p) (key_tokens (rpath star))"
  proof
    assume pre: "prefix (key_tokens p) (key_tokens (rpath star))"
    have "length (key_tokens (rpath star)) = length (key_tokens p)" using assms(3,4) by simp
    with pre have "key_tokens p = key_tokens (rpath star)" by (auto simp: prefix_def)
    with ne show False by simp
  qed
  then show ?thesis
    using assms ne unfolding getRoute_select
    by (auto simp: select_route_def of_method_def last_at_def strict_prefix_def Let_def)
qed

theorem Router_longer_route_hides_wildcard_witness:
  "Router_getRoute EVHTTP_REQ_GET ''/user/settings''
     (fold Router_addRoute [Route_new EVHTTP_REQ_GET ''/user/*'' (Some (1 :: nat)) None,
        Route_new EVHTTP_REQ_GET ''/user/settings/theme'' (Some 2) None] Router_new) = Inr None"
proof -
  have "key_tokens ''/user/settings'' = [''.'', ''user'', ''settings'']" "key_tokens ''/user/*'' = [''.'', ''user'', ''*'']"
    "key_tokens ''/user/settings/theme'' = [''.'', ''user'', ''settings'', ''theme'']" by code_simp+
  then show ?thesis
    using Router_longer_route_hides_wildcard [of "Route_new EVHTTP_REQ_GET ''/user/*'' (Some (1 :: nat)) None" EVHTTP_REQ_GET
        "Route_new EVHTTP_REQ_GET ''/user/settings/theme'' (Some 2) None" "''/user/settings''"]
    by (simp add: Route_new_def strict_prefix_def)
qed

end
