(* ===== verification/HttpServer.thy ===== *)
theory HttpServer
  imports ThreadPool HttpRouter Utils
begin

text \<open>
  \<open>src/http/server/http-thread.cpp\<close> and \<open>src/http/server/http-server.cpp\<close>: the request event
  (headers, query, body), a worker with its libevent listener, and the server that
  dispatches requests to routes. libevent is a parameter: a request is what it has parsed, \<open>bind_ok\<close>
  tells whether a port can be bound. The server's queue provides the interface
  \<open>job_queue\<close> (interpretation \<open>http_queue\<close>).
\<close>

section \<open>class RequestEvent\<close>

record http_request =
  rtype :: evhttp_cmd_type
  uri_path :: string
  uri_query :: "string option"
  input_headers :: "(string \<times> string) list"
  input_buffer :: string
  reply :: evhttp_request

record RequestEvent =
  body :: "string option"
  body_length :: u64
  headers :: "(string \<times> string) list"
  query :: "(string \<times> string) list"
  ev_path :: string

definition getNextQuery :: "string \<Rightarrow> nat \<Rightarrow> string" where
  "getNextQuery p from =
     (if from \<ge> length p then []
      else case str_find_from p CHR ''&'' from of
             None \<Rightarrow> drop from p
           | Some pos \<Rightarrow> take (pos - from) (drop from p))"

definition buildHeaderMap :: "(string \<times> string) list \<Rightarrow> (string \<times> string) list \<Rightarrow> (string \<times> string) list" where
  "buildHeaderMap input m = fold (\<lambda>(key, value). um_insert key value) input m"

text \<open>Name and value of one token of the query.\<close>

definition query_pair :: "string \<Rightarrow> string \<times> string" where
  "query_pair token =
     (case find_char CHR ''='' token of
        Some pos \<Rightarrow> (take pos token, drop (pos + 1) token)
      | None \<Rightarrow> (token, []))"

lemma getNextQuery_piece: "getNextQuery p from = next_piece CHR ''&'' p from"
  by (simp add: getNextQuery_def next_piece_def)

function query_loop :: "string \<Rightarrow> nat \<Rightarrow> (string \<times> string) list \<Rightarrow> (string \<times> string) list" where
  "query_loop q from m =
     (let token = getNextQuery q from in
      if length token \<noteq> 0
      then query_loop q (from + length token + 1) (um_insert (fst (query_pair token)) (snd (query_pair token)) m)
      else m)"
  by pat_completeness auto
termination
  by (relation "measure (\<lambda>(q, from, m). length q - from)")
     (auto simp: getNextQuery_piece dest: next_piece_nonempty)

declare query_loop.simps [simp del]

definition buildQueryMap :: "string option \<Rightarrow> (string \<times> string) list \<Rightarrow> (string \<times> string) list" where
  "buildQueryMap q m = (case q of None \<Rightarrow> m | Some s \<Rightarrow> query_loop s 0 m)"

definition RequestEvent_new :: "http_request \<Rightarrow> RequestEvent" where
  "RequestEvent_new req =
     \<lparr>body = None, body_length = 0, headers = buildHeaderMap (input_headers req) [],
      query = buildQueryMap (uri_query req) [], ev_path = uri_path req\<rparr>"

definition hasBody :: "RequestEvent \<Rightarrow> bool" where
  "hasBody e \<longleftrightarrow> body e \<noteq> None \<and> body_length e \<noteq> 0"

section \<open>class OnRequest\<close>

record 'h OnRequest =
  on_handler :: "'h option"
  on_this :: "nat option"

definition OnRequest_new :: "nat option \<Rightarrow> 'h OnRequest" where
  "OnRequest_new junk = \<lparr>on_handler = None, on_this = junk\<rparr>"

definition OnRequest_set :: "'h option \<Rightarrow> 'h OnRequest \<Rightarrow> 'h OnRequest" where
  "OnRequest_set h oq = oq\<lparr>on_handler := h\<rparr>"

definition OnRequest_bind :: "nat option \<Rightarrow> 'h OnRequest \<Rightarrow> 'h OnRequest" where
  "OnRequest_bind t oq = oq\<lparr>on_this := t\<rparr>"

text \<open>\<open>call h event this_\<close> is the effect of the handler on the client's state \<open>'s\<close>.\<close>

definition OnRequest_fire ::
  "('h \<Rightarrow> RequestEvent \<Rightarrow> nat option \<Rightarrow> 's \<Rightarrow> 's res) \<Rightarrow> http_request \<Rightarrow> 'h OnRequest \<Rightarrow> 's \<Rightarrow> 's res" where
  "OnRequest_fire call req oq s =
     (case on_handler oq of
        None \<Rightarrow> Inr s
      | Some h \<Rightarrow> call h (RequestEvent_new req) (on_this oq) s)"

section \<open>class HttpThread\<close>

text \<open>The listener. \<open>evListenSocket\<close> is a static member, so it is part of the state that all threads
  share; sockets are numbered, and \<open>freed\<close> are the ones libevent has destroyed. \<open>listens\<close> is
  the ports that were bound, \<open>accepts\<close> the sockets registered for accept on another socket's descriptor.\<close>

record ev_state =
  evListenSocket :: "nat option"
  listens :: "(nat \<times> u16) list"
  accepts :: "(nat \<times> nat) list"
  next_socket :: nat
  freed :: "nat set"

record 'h HttpThread =
  mPort :: u16
  evHttp :: bool
  evBoundSocket :: "nat option"
  onrequest_of :: "'h OnRequest"

definition HttpThread_new_port :: "u16 \<Rightarrow> nat option \<Rightarrow> 'h HttpThread" where
  "HttpThread_new_port port junk = \<lparr>mPort = port, evHttp = False, evBoundSocket = None, onrequest_of = OnRequest_new junk\<rparr>"

definition HttpThread_new :: "nat option \<Rightarrow> 'h HttpThread" where
  "HttpThread_new junk = HttpThread_new_port 8888 junk"

definition HttpThread_init :: "(u16 \<Rightarrow> bool) \<Rightarrow> 'h HttpThread \<Rightarrow> ev_state \<Rightarrow> ('h HttpThread \<times> ev_state) res" where
  "HttpThread_init bind_ok t g =
     (case evListenSocket g of
        None \<Rightarrow>
          if bind_ok (mPort t) then
            (let sock = next_socket g
             in Inr (t\<lparr>evHttp := True, evBoundSocket := Some sock\<rparr>,
                     g\<lparr>evListenSocket := Some sock, listens := listens g @ [(sock, mPort t)], next_socket := sock + 1\<rparr>))
          else Inr (t\<lparr>evHttp := True, evBoundSocket := None\<rparr>, g)
      | Some l \<Rightarrow>
          if l \<in> freed g then Inl UB_dangling
          else
            (let sock = next_socket g
             in Inr (t\<lparr>evHttp := True, evBoundSocket := Some sock\<rparr>,
                     g\<lparr>accepts := accepts g @ [(sock, l)], next_socket := sock + 1\<rparr>)))"

definition HttpThread_deinit :: "'h HttpThread \<Rightarrow> ev_state \<Rightarrow> ('h HttpThread \<times> ev_state) res" where
  "HttpThread_deinit t g =
     (case evBoundSocket t of
        None \<Rightarrow> Inl UB_null_deref
      | Some sock \<Rightarrow> Inr (t\<lparr>evHttp := False\<rparr>, g\<lparr>freed := insert sock (freed g)\<rparr>))"

text \<open>\<open>onRequest\<close> returns the handler object by reference; \<open>HttpThread_handle\<close> is the call followed by \<open>bind\<close> on it.\<close>

definition HttpThread_onRequest :: "'h option \<Rightarrow> 'h HttpThread \<Rightarrow> 'h HttpThread" where
  "HttpThread_onRequest h t = t\<lparr>onrequest_of := OnRequest_set h (onrequest_of t)\<rparr>"

definition HttpThread_handle :: "'h option \<Rightarrow> nat option \<Rightarrow> 'h HttpThread \<Rightarrow> 'h HttpThread" where
  "HttpThread_handle h this t =
     (let t' = HttpThread_onRequest h t in t'\<lparr>onrequest_of := OnRequest_bind this (onrequest_of t')\<rparr>)"

text \<open>\<open>onEvRequest\<close> allocates a \<open>Request\<close>, hands it to libevent as the argument of the completion callback, fires
  the handler and deletes the \<open>Request\<close>; \<open>onEvRequestComplete\<close> is libevent's later call with that argument.
  \<open>live\<close> is the set of requests not deleted, \<open>pending\<close> the arguments libevent holds.\<close>

record 's request_state =
  client :: 's
  live :: "nat set"
  pending :: "nat list"
  next_request :: nat

definition onEvRequest ::
  "('h \<Rightarrow> RequestEvent \<Rightarrow> nat option \<Rightarrow> 's \<Rightarrow> 's res) \<Rightarrow> 'h HttpThread \<Rightarrow> http_request \<Rightarrow> 's request_state \<Rightarrow> 's request_state res" where
  "onEvRequest call t req s =
     (let ctxt = next_request s;
          s1 = s\<lparr>live := insert ctxt (live s), next_request := ctxt + 1, pending := pending s @ [ctxt]\<rparr>
      in bindR (OnRequest_fire call req (onrequest_of t) (client s1)) (\<lambda>c.
           Inr (s1\<lparr>client := c, live := live s1 - {ctxt}\<rparr>)))"

definition onEvRequestComplete :: "nat \<Rightarrow> 's request_state \<Rightarrow> 's request_state res" where
  "onEvRequestComplete ctxt s =
     (if ctxt \<in> live s then Inr (s\<lparr>pending := removeAll ctxt (pending s)\<rparr>) else Inl UB_dangling)"

section \<open>class HttpServer\<close>

record ('r, 'h) HttpServer =
  sThreads :: "'h HttpThread list"
  sCount :: u32
  sJobQueue :: "'r ThreadJobBase list"
  router :: "'h Router"
  sPort :: u16

definition HttpServer_addJob :: "'r ThreadJobBase \<Rightarrow> ('r, 'h) HttpServer \<Rightarrow> ('r, 'h) HttpServer" where
  "HttpServer_addJob job s = s\<lparr>sJobQueue := sJobQueue s @ [job]\<rparr>"

definition HttpServer_threadGetNextJob ::
  "('r, 'h) HttpServer \<Rightarrow> ('r ThreadJobBase \<times> ('r, 'h) HttpServer) option" where
  "HttpServer_threadGetNextJob s =
     (case sJobQueue s of
        job # jobs \<Rightarrow> Some (job, s\<lparr>sJobQueue := jobs\<rparr>)
      | [] \<Rightarrow> None)"

interpretation http_queue: job_queue HttpServer_addJob HttpServer_threadGetNextJob sJobQueue
  by unfold_locales
     (auto simp: HttpServer_addJob_def HttpServer_threadGetNextJob_def split: list.splits)

text \<open>\<open>createThreads\<close>: each thread is started (its \<open>init\<close> has run when \<open>start\<close> returns) and gets a job that runs the
  event loop; then the request handler of each thread is set. \<open>worker\<close> is \<open>_workerRoutine\<close>, \<open>dispatch\<close> is
  \<open>_onRequestEvent\<close>, \<open>self\<close> the server's address.\<close>

definition createThreads_step ::
  "(u16 \<Rightarrow> bool) \<Rightarrow> 'r \<Rightarrow> nat \<Rightarrow> ('r, 'h) HttpServer \<times> ev_state \<Rightarrow> (('r, 'h) HttpServer \<times> ev_state) res" where
  "createThreads_step bind_ok worker self = (\<lambda>(s, g).
     bindR (HttpThread_init bind_ok (HttpThread_new_port (sPort s) None) g) (\<lambda>(t, g').
       Inr (HttpServer_addJob (fst (ThreadJob_new (Some worker) (Some self) 0)) (s\<lparr>sThreads := sThreads s @ [t]\<rparr>), g')))"

definition HttpServer_createThreads ::
  "(u16 \<Rightarrow> bool) \<Rightarrow> 'r \<Rightarrow> 'h \<Rightarrow> nat \<Rightarrow> ('r, 'h) HttpServer \<times> ev_state \<Rightarrow> (('r, 'h) HttpServer \<times> ev_state) res" where
  "HttpServer_createThreads bind_ok worker dispatch self sg =
     bindR (foldR (\<lambda>i. createThreads_step bind_ok worker self) [0..<unat (sCount (fst sg))] sg) (\<lambda>(s, g).
       Inr (s\<lparr>sThreads := map (HttpThread_handle (Some dispatch) (Some self)) (sThreads s)\<rparr>, g))"

definition HttpServer_new ::
  "(u16 \<Rightarrow> bool) \<Rightarrow> 'r \<Rightarrow> 'h \<Rightarrow> nat \<Rightarrow> u16 \<Rightarrow> u32 \<Rightarrow> ev_state \<Rightarrow> (('r, 'h) HttpServer \<times> ev_state) res" where
  "HttpServer_new bind_ok worker dispatch self port n g =
     HttpServer_createThreads bind_ok worker dispatch self
       (\<lparr>sThreads = [], sCount = n, sJobQueue = [], router = Router_new, sPort = port\<rparr>, g)"

text \<open>The destructor, as far as its own thread goes: one exit job per worker, then each worker leaves its
  loop and runs \<open>deinit\<close>.\<close>

definition HttpServer_delete :: "('r, 'h) HttpServer \<times> ev_state \<Rightarrow> (('r, 'h) HttpServer \<times> ev_state) res" where
  "HttpServer_delete = (\<lambda>(s, g).
     (let s1 = fold (\<lambda>_. HttpServer_addJob (fst (ThreadExitJob_new 0))) [0..<unat (sCount s)] s
      in bindR (foldR (\<lambda>t g. bindR (HttpThread_deinit t g) (\<lambda>(t', g'). Inr g')) (sThreads s1) g) (\<lambda>g'.
           Inr (s1\<lparr>sThreads := []\<rparr>, g'))))"

definition HttpServer_onRequest :: "'h option \<Rightarrow> nat option \<Rightarrow> ('r, 'h) HttpServer \<Rightarrow> ('r, 'h) HttpServer" where
  "HttpServer_onRequest h this s = s\<lparr>sThreads := map (HttpThread_handle h this) (sThreads s)\<rparr>"

definition HttpServer_route ::
  "evhttp_cmd_type \<Rightarrow> string \<Rightarrow> 'h option \<Rightarrow> nat option \<Rightarrow> ('r, 'h) HttpServer \<Rightarrow> ('r, 'h) HttpServer" where
  "HttpServer_route m p h this s = s\<lparr>router := Router_addRoute (Route_new m p h this) (router s)\<rparr>"

definition HttpServer_send400BadRequest :: "evhttp_request \<Rightarrow> evhttp_request" where
  "HttpServer_send400BadRequest = send_reply 400 ''<html><body><center><h1>Bad Request</h1></center></body></html>''"

text \<open>\<open>std::stoul\<close>: white space, an optional sign, decimal digits; anything may follow.\<close>

definition is_space :: "char \<Rightarrow> bool" where
  "is_space c \<longleftrightarrow> c = CHR '' '' \<or> (9 \<le> (of_char c :: nat) \<and> (of_char c :: nat) \<le> 13)"

definition stoul :: "string \<Rightarrow> u64 res" where
  "stoul s =
     (let t = dropWhile is_space s;
          neg = (str_front t = CHR ''-'');
          u = (if neg \<or> str_front t = CHR ''+'' then drop 1 t else t);
          ds = takeWhile is_digit u;
          n = decimal_value ds 0
      in if ds = [] then Inl Exn_invalid_argument
         else if 2 ^ 64 \<le> n then Inl Exn_out_of_range
         else Inr (if neg then - word_of_nat n else word_of_nat n))"

text \<open>\<open>evbuffer_remove\<close> empties the input buffer and returns the number of bytes as an \<open>int\<close>, which is compared as a
  \<open>size_t\<close>. Nothing reads the buffer afterwards.\<close>

definition readBody :: "http_request \<Rightarrow> RequestEvent \<Rightarrow> RequestEvent res" where
  "readBody req event =
     (if rtype req = EVHTTP_REQ_POST then
        bindR (case um_find (headers event) ''Content-Length'' of
                 Some v \<Rightarrow> if length v \<noteq> 0 then stoul v else Inr 0
               | None \<Rightarrow> Inr 0) (\<lambda>contentLength.
          if contentLength \<noteq> 0 then
            (let buf = input_buffer req in
             if word_of_int (sint (word_of_nat (length buf) :: u32)) = contentLength
             then Inr (event\<lparr>body := Some buf, body_length := contentLength\<rparr>)
             else Inr event)
          else Inr event)
      else Inr event)"

text \<open>\<open>onRequestEvent\<close>: the calls of route handlers are logged with the event and the bound pointer.\<close>

definition onRequestEvent ::
  "('r, 'h) HttpServer \<Rightarrow> http_request \<Rightarrow> RequestEvent \<Rightarrow>
   (evhttp_request \<times> ('h \<times> RequestEvent \<times> nat option) list) res" where
  "onRequestEvent s req event =
     bindR (Router_getRoute (rtype req) (uri_path req) (router s)) (\<lambda>route.
       case route of
         None \<Rightarrow> Inr (HttpServer_send400BadRequest (reply req), [])
       | Some r \<Rightarrow>
           bindR (readBody req event) (\<lambda>event'.
             case onrequest r of
               None \<Rightarrow> Inl UB_null_deref
             | Some h \<Rightarrow> Inr (reply req, [(h, event', Route.this_ptr r)])))"

section \<open>Headers, query and body\<close>

lemma fold_insert_find:
  "um_find (fold (\<lambda>e. um_insert (fst e) (snd e)) kvs m) k = (case um_find m k of None \<Rightarrow> map_of kvs k | Some v \<Rightarrow> Some v)"
  by (induction kvs arbitrary: m) (auto split: option.splits)

lemma buildHeaderMap_find: "um_find (buildHeaderMap hs []) k = map_of hs k"
  unfolding buildHeaderMap_def split_beta' fold_insert_find by simp

lemma query_loop_pieces:
  "query_loop q from m = fold (\<lambda>e. um_insert (fst e) (snd e)) (map query_pair (pieces CHR ''&'' q from)) m"
proof (induction q "from" m rule: query_loop.induct)
  case (1 q "from" m)
  show ?case
  proof (cases "getNextQuery q from = []")
    case True
    then show ?thesis
      by (subst query_loop.simps) (simp add: Let_def getNextQuery_piece pieces_Nil)
  next
    case False
    with 1 [OF refl] show ?thesis
      by (subst query_loop.simps) (simp add: Let_def getNextQuery_piece pieces_Cons split_beta)
  qed
qed

text \<open>A query string as a client writes it: pairs joined by ampersands.\<close>

definition join_pair :: "string \<times> string \<Rightarrow> string" where
  "join_pair kv = fst kv @ CHR ''='' # snd kv"

fun join_query :: "(string \<times> string) list \<Rightarrow> string" where
  "join_query [] = []"
| "join_query [kv] = join_pair kv"
| "join_query (kv # kvs) = join_pair kv @ CHR ''&'' # join_query kvs"

definition query_safe :: "string \<times> string \<Rightarrow> bool" where
  "query_safe kv \<longleftrightarrow> CHR ''='' \<notin> set (fst kv) \<and> CHR ''&'' \<notin> set (fst kv) \<and> CHR ''&'' \<notin> set (snd kv)"

lemma join_pair_props:
  "query_safe kv \<Longrightarrow> join_pair kv \<noteq> [] \<and> CHR ''&'' \<notin> set (join_pair kv) \<and> query_pair (join_pair kv) = kv"
proof -
  assume kv: "query_safe kv"
  have "find_char CHR ''='' (join_pair kv) = Some (length (fst kv))"
    using kv by (simp add: join_pair_def query_safe_def find_char_Some nth_append) (metis nth_mem)
  then have "query_pair (join_pair kv) = kv" by (simp add: query_pair_def join_pair_def)
  then show ?thesis using kv by (simp add: join_pair_def query_safe_def)
qed

lemma split_join:
  "kvs \<noteq> [] \<Longrightarrow> \<forall>kv \<in> set kvs. query_safe kv \<Longrightarrow> split_at CHR ''&'' (join_query kvs) = map join_pair kvs"
  by (induction kvs rule: join_query.induct) (simp_all add: join_pair_props split_at_no_delim split_at_delim)

lemma pieces_join:
  assumes "\<forall>kv \<in> set kvs. query_safe kv"
  shows "pieces CHR ''&'' (join_query kvs) 0 = map join_pair kvs"
proof (cases "kvs = []")
  case True
  then show ?thesis by (simp add: pieces_Nil next_piece_def)
next
  case False
  have "\<forall>x \<in> set (map join_pair kvs). x \<noteq> []" using assms by (auto simp: join_pair_props)
  then show ?thesis
    using split_join [OF False assms] by (simp add: pieces_split_at takeWhile_eq_all_conv [THEN iffD2])
qed

text \<open>C29: The query map is what the client wrote: for every list of name and value pairs without the separators in
  them, joined to a query string, a name is mapped to the value of its first pair and other names are absent.\<close>

theorem RequestEvent_query_roundtrip:
  assumes "\<forall>kv \<in> set kvs. query_safe kv" and "uri_query req = Some (join_query kvs)"
  shows "um_find (query (RequestEvent_new req)) name = map_of kvs name"
proof -
  have "map (query_pair \<circ> join_pair) kvs = map id kvs"
    using assms(1) by (intro map_cong) (simp_all add: join_pair_props)
  then show ?thesis
    using assms by (simp add: RequestEvent_new_def buildQueryMap_def query_loop_pieces pieces_join fold_insert_find)
qed

definition sample_request :: http_request where
  "sample_request = \<lparr>rtype = EVHTTP_REQ_POST, uri_path = ''/user/7'', uri_query = Some ''a=1&b=x=y&a=2'',
     input_headers = [(''Content-Length'', ''5'')], input_buffer = ''hello'',
     reply = \<lparr>has_output = True, out_buf = [], replies = []\<rparr>\<rparr>"

theorem RequestEvent_query_roundtrip_witness:
  "um_find (query (RequestEvent_new sample_request)) ''b'' = Some ''x=y''
   \<and> um_find (query (RequestEvent_new sample_request)) ''a'' = Some ''1''"
  using RequestEvent_query_roundtrip [of "[(''a'', ''1''), (''b'', ''x=y''), (''a'', ''2'')]" sample_request "''b''"]
    RequestEvent_query_roundtrip [of "[(''a'', ''1''), (''b'', ''x=y''), (''a'', ''2'')]" sample_request "''a''"]
  by (simp add: sample_request_def query_safe_def join_pair_def)

lemma digit_not_space: "is_digit c \<Longrightarrow> \<not> is_space c \<and> c \<noteq> CHR ''-'' \<and> c \<noteq> CHR ''+''"
  by (auto simp: is_digit_def is_space_def)

lemma stoul_to_string: "n < 2 ^ 64 \<Longrightarrow> stoul (to_string n) = Inr (word_of_nat n)"
proof -
  assume n: "n < 2 ^ 64"
  obtain c cs where c: "to_string n = c # cs" using to_string_nonempty by (cases "to_string n") auto
  then have d: "is_digit c" using to_string_digits [of c n] by simp
  have drp: "dropWhile is_space (to_string n) = to_string n" using c d by (simp add: digit_not_space)
  have front: "str_front (to_string n) \<noteq> CHR ''-''" "str_front (to_string n) \<noteq> CHR ''+''"
    using c d digit_not_space by (auto simp: str_front_def)
  have tw: "takeWhile is_digit (to_string n) = to_string n"
    using to_string_digits by (simp add: takeWhile_eq_all_conv [THEN iffD2])
  show ?thesis
    using n front by (simp add: stoul_def Let_def drp tw decimal_value_to_string to_string_nonempty)
qed

lemma readBody_spec:
  assumes "map_of (input_headers req) ''Content-Length'' = Some (to_string n)" and "n < 2 ^ 64"
    and "length (input_buffer req) < 2 ^ 31"
  shows "readBody req (RequestEvent_new req) =
    Inr (if rtype req = EVHTTP_REQ_POST \<and> n \<noteq> 0 \<and> length (input_buffer req) = n
         then (RequestEvent_new req)\<lparr>body := Some (input_buffer req), body_length := word_of_nat n\<rparr>
         else RequestEvent_new req)"
proof -
  have eq: "word_of_nat k = (word_of_nat l :: u64) \<longleftrightarrow> k = l" if "k < 2 ^ 64" "l < 2 ^ 64" for k l
    using that by (simp add: word_of_nat_eq_iff take_bit_nat_eq_self)
  have "sint (word_of_nat (length (input_buffer req)) :: u32) = int (length (input_buffer req))"
    using assms(3) by (simp add: signed_of_nat signed_take_bit_int_eq_self_iff)
  then have "word_of_int (sint (word_of_nat (length (input_buffer req)) :: u32)) = (word_of_nat n :: u64)
      \<longleftrightarrow> length (input_buffer req) = n"
    using eq [of "length (input_buffer req)" n] assms(2,3) by simp
  with eq [of n 0] assms show ?thesis
    by (simp add: readBody_def RequestEvent_new_def buildHeaderMap_find stoul_to_string to_string_nonempty Let_def)
qed

lemma sample_body:
  "readBody sample_request (RequestEvent_new sample_request) =
     Inr ((RequestEvent_new sample_request)\<lparr>body := Some ''hello'', body_length := word_of_nat 5\<rparr>)"
proof -
  have "to_string 5 = ''5''" by code_simp
  then show ?thesis using readBody_spec [of sample_request 5] by (simp add: sample_request_def)
qed

text \<open>C36: The body of a POST request whose Content-Length header is the decimal text of a number: the event given to the
  handler has the whole buffered input as its body, with that length, exactly if the number is not zero and the
  input is complete; otherwise it has no body. Requests of other methods never have one.\<close>

theorem HttpServer_reads_body:
  assumes "map_of (input_headers req) ''Content-Length'' = Some (to_string n)" and "n < 2 ^ 64"
    and "length (input_buffer req) < 2 ^ 31"
  shows "readBody req (RequestEvent_new req) =
    Inr (if rtype req = EVHTTP_REQ_POST \<and> n \<noteq> 0 \<and> length (input_buffer req) = n
         then (RequestEvent_new req)\<lparr>body := Some (input_buffer req), body_length := word_of_nat n\<rparr>
         else RequestEvent_new req)"
  using assms by (rule readBody_spec)

theorem HttpServer_reads_body_witness:
  "readBody sample_request (RequestEvent_new sample_request) =
     Inr ((RequestEvent_new sample_request)\<lparr>body := Some ''hello'', body_length := word_of_nat 5\<rparr>)"
proof -
  have "to_string 5 = ''5''" by code_simp
  then show ?thesis
    using HttpServer_reads_body [of sample_request 5] by (simp add: sample_request_def)
qed

section \<open>Dispatch\<close>

definition register :: "'h Route list \<Rightarrow> ('r, 'h) HttpServer \<Rightarrow> ('r, 'h) HttpServer" where
  "register rs s = fold (\<lambda>r. HttpServer_route (rmethod r) (rpath r) (onrequest r) (this_ptr r)) rs s"

lemma Route_new_fields: "Route_new (rmethod r) (rpath r) (onrequest r) (this_ptr r) = r"
  by (cases r) (simp add: Route_new_def)

lemma register_router: "router (register rs s) = fold Router_addRoute rs (router s)"
  unfolding register_def
  by (induction rs arbitrary: s) (simp_all add: HttpServer_route_def Route_new_fields)

lemma dispatch_select:
  assumes "router s = Router_new" and "has_output (reply req)"
  shows "onRequestEvent (register rs s) req event =
    (case select_route (rtype req) (uri_path req) rs of
       None \<Rightarrow> Inr ((reply req)\<lparr>out_buf := [], replies := replies (reply req) @
           [(400, out_buf (reply req) @ ''<html><body><center><h1>Bad Request</h1></center></body></html>'')]\<rparr>, [])
     | Some r \<Rightarrow> bindR (readBody req event) (\<lambda>event'.
           case onrequest r of None \<Rightarrow> Inl UB_null_deref | Some h \<Rightarrow> Inr (reply req, [(h, event', this_ptr r)])))"
  using assms
  by (simp add: onRequestEvent_def register_router getRoute_select HttpServer_send400BadRequest_def send_reply_def
      split: option.split)


definition sample_server :: "(nat, nat) HttpServer" where
  "sample_server = \<lparr>sThreads = [], sCount = 0, sJobQueue = [], router = Router_new, sPort = 80\<rparr>"

definition sample_route :: "nat Route" where
  "sample_route = Route_new EVHTTP_REQ_POST ''/user/*'' (Some 3) (Some 9)"


section \<open>The listener\<close>

lemma init_first:
  "evListenSocket g = None \<Longrightarrow> bind_ok (mPort t) \<Longrightarrow>
   HttpThread_init bind_ok t g = Inr (t\<lparr>evHttp := True, evBoundSocket := Some (next_socket g)\<rparr>,
     g\<lparr>evListenSocket := Some (next_socket g), listens := listens g @ [(next_socket g, mPort t)], next_socket := next_socket g + 1\<rparr>)"
  by (simp add: HttpThread_init_def Let_def)

lemma init_next:
  "evListenSocket g = Some l \<Longrightarrow> l \<notin> freed g \<Longrightarrow>
   HttpThread_init bind_ok t g = Inr (t\<lparr>evHttp := True, evBoundSocket := Some (next_socket g)\<rparr>,
     g\<lparr>accepts := accepts g @ [(next_socket g, l)], next_socket := next_socket g + 1\<rparr>)"
  by (simp add: HttpThread_init_def Let_def)

definition server_job :: "'r \<Rightarrow> nat \<Rightarrow> 'r ThreadJobBase" where
  "server_job worker self = fst (ThreadJob_new (Some worker) (Some self) 0)"

text \<open>Threads that find a listening socket register for accept on it and bind nothing.\<close>

lemma create_next:
  assumes "evListenSocket g = Some l" and "l \<notin> freed g"
  shows "\<exists>s' g'. foldR (\<lambda>i. createThreads_step bind_ok worker self) is (s, g) = Inr (s', g')
    \<and> evListenSocket g' = Some l \<and> freed g' = freed g \<and> listens g' = listens g
    \<and> map snd (accepts g') = map snd (accepts g) @ replicate (length is) l
    \<and> (\<exists>ts. sThreads s' = sThreads s @ ts \<and> length ts = length is \<and> (\<forall>t \<in> set ts. evBoundSocket t \<noteq> None))
    \<and> sJobQueue s' = sJobQueue s @ replicate (length is) (server_job worker self)"
  using assms
proof (induction "is" arbitrary: s g)
  case (Cons i "is")
  let ?t = "(HttpThread_new_port (sPort s) None)\<lparr>evHttp := True, evBoundSocket := Some (next_socket g)\<rparr>"
  let ?s = "HttpServer_addJob (server_job worker self) (s\<lparr>sThreads := sThreads s @ [?t]\<rparr>)"
  let ?g = "g\<lparr>accepts := accepts g @ [(next_socket g, l)], next_socket := next_socket g + 1\<rparr>"
  have "createThreads_step bind_ok worker self (s, g) = Inr (?s, ?g)"
    using Cons.prems by (simp add: createThreads_step_def init_next server_job_def)
  moreover have "\<exists>s' g'. foldR (\<lambda>i. createThreads_step bind_ok worker self) is (?s, ?g) = Inr (s', g')
    \<and> evListenSocket g' = Some l \<and> freed g' = freed ?g \<and> listens g' = listens ?g
    \<and> map snd (accepts g') = map snd (accepts ?g) @ replicate (length is) l
    \<and> (\<exists>ts. sThreads s' = sThreads ?s @ ts \<and> length ts = length is \<and> (\<forall>t \<in> set ts. evBoundSocket t \<noteq> None))
    \<and> sJobQueue s' = sJobQueue ?s @ replicate (length is) (server_job worker self)"
    by (rule Cons.IH) (use Cons.prems in simp_all)
  ultimately show ?case by (fastforce simp: HttpServer_addJob_def)
qed simp

text \<open>A server of at least one worker whose port can be bound, created when no listening socket exists, binds its port
  exactly once: the first worker binds, all others accept on the same socket. Each worker is given a socket and the
  server's request handler, and one job per worker is queued.\<close>

theorem HttpServer_binds_once:
  fixes worker :: 'r and dispatch :: 'h
  assumes "evListenSocket g = None" and "bind_ok port" and "0 < n" and "next_socket g \<notin> freed g"
  shows "\<exists>s g'. HttpServer_new bind_ok worker dispatch self port n g = Inr (s, g')
    \<and> listens g' = listens g @ [(next_socket g, port)]
    \<and> map snd (accepts g') = map snd (accepts g) @ replicate (unat n - 1) (next_socket g)
    \<and> length (sThreads s) = unat n
    \<and> (\<forall>t \<in> set (sThreads s). evBoundSocket t \<noteq> None \<and> on_handler (onrequest_of t) = Some dispatch
          \<and> on_this (onrequest_of t) = Some self)
    \<and> sJobQueue s = replicate (unat n) (fst (ThreadJob_new (Some worker) (Some self) 0))"
proof -
  let ?ini = "\<lparr>sThreads = [], sCount = n, sJobQueue = [], router = Router_new, sPort = port\<rparr> :: ('r, 'h) HttpServer"
  let ?t = "(HttpThread_new_port port None)\<lparr>evHttp := True, evBoundSocket := Some (next_socket g)\<rparr>"
  let ?s = "HttpServer_addJob (server_job worker self) (?ini\<lparr>sThreads := [?t]\<rparr>)"
  let ?g = "g\<lparr>evListenSocket := Some (next_socket g), listens := listens g @ [(next_socket g, port)], next_socket := next_socket g + 1\<rparr>"
  obtain k where k: "unat n = Suc k" using assms(3) by (cases "unat n") (auto simp: unat_eq_0)
  have "[0..<unat n] = 0 # [1..<Suc k]" using k by (simp add: upt_conv_Cons)
  moreover have "createThreads_step bind_ok worker self (?ini, g) = Inr (?s, ?g)"
    using assms(1,2) by (simp add: createThreads_step_def init_first server_job_def HttpThread_new_port_def)
  moreover have "evListenSocket ?g = Some (next_socket g)" "next_socket g \<notin> freed ?g" using assms(4) by simp_all
  note more = create_next [OF this, of bind_ok worker self "[1..<Suc k]" ?s]
  obtain s' g' ts where c: "foldR (\<lambda>i. createThreads_step bind_ok worker self) [1..<Suc k] (?s, ?g) = Inr (s', g')"
      "listens g' = listens ?g" "map snd (accepts g') = map snd (accepts ?g) @ replicate (length [1..<Suc k]) (next_socket g)"
      "sThreads s' = sThreads ?s @ ts" "length ts = length [1..<Suc k]" "\<forall>t \<in> set ts. evBoundSocket t \<noteq> None"
      "sJobQueue s' = sJobQueue ?s @ replicate (length [1..<Suc k]) (server_job worker self)"
    using more by blast
  ultimately have "HttpServer_new bind_ok worker dispatch self port n g =
      Inr (s'\<lparr>sThreads := map (HttpThread_handle (Some dispatch) (Some self)) (sThreads s')\<rparr>, g')"
    by (simp add: HttpServer_new_def HttpServer_createThreads_def)
  then show ?thesis
    using c k by (auto simp: HttpThread_handle_def HttpThread_onRequest_def Let_def OnRequest_bind_def OnRequest_set_def HttpServer_addJob_def server_job_def)
qed

text \<open>The listening socket outlives its server. A second server created while the first one runs never binds its own
  port, whatever it is: its workers accept on the first one's socket. And a server created after the first one was
  deleted uses the destroyed socket.\<close>

theorem HttpServer_second_server:
  fixes worker :: 'r and dispatch :: 'h
  assumes "evListenSocket g = Some l" and "0 < n"
  shows "(l \<notin> freed g \<longrightarrow> (\<exists>s g'. HttpServer_new bind_ok worker dispatch self port n g = Inr (s, g') \<and> listens g' = listens g))
    \<and> (l \<in> freed g \<longrightarrow> HttpServer_new bind_ok worker dispatch self port n g = Inl UB_dangling)"
proof -
  let ?ini = "\<lparr>sThreads = [], sCount = n, sJobQueue = [], router = Router_new, sPort = port\<rparr> :: ('r, 'h) HttpServer"
  obtain k where k: "unat n = Suc k" using assms(2) by (cases "unat n") (auto simp: unat_eq_0)
  then have ks: "[0..<unat n] = 0 # [1..<Suc k]" by (simp add: upt_conv_Cons)
  have "HttpServer_new bind_ok worker dispatch self port n g = Inl UB_dangling" if "l \<in> freed g"
    using that assms(1) ks
    by (simp add: HttpServer_new_def HttpServer_createThreads_def createThreads_step_def HttpThread_init_def)
  moreover have "\<exists>s g'. HttpServer_new bind_ok worker dispatch self port n g = Inr (s, g') \<and> listens g' = listens g" if ok: "l \<notin> freed g"
  proof -
    obtain s' g' where "foldR (\<lambda>i. createThreads_step bind_ok worker self) [0..<unat n] (?ini, g) = Inr (s', g')"
        "listens g' = listens g"
      using create_next [OF assms(1) ok, of bind_ok worker self "[0..<unat n]" ?ini] by blast
    then show ?thesis by (simp add: HttpServer_new_def HttpServer_createThreads_def)
  qed
  ultimately show ?thesis by blast
qed

definition no_sockets :: ev_state where
  "no_sockets = \<lparr>evListenSocket = None, listens = [], accepts = [], next_socket = 0, freed = {}\<rparr>"

theorem HttpServer_binds_once_witness:
  "\<exists>s g. HttpServer_new (\<lambda>p. True) (0 :: nat) (1 :: nat) 7 8080 3 no_sockets = Inr (s, g) \<and> listens g = [(0, 8080)]
     \<and> map snd (accepts g) = [0, 0] \<and> length (sThreads s) = 3"
proof -
  have "replicate 2 (0 :: nat) = [0, 0]" by (simp add: numeral_eq_Suc)
  then show ?thesis
    using HttpServer_binds_once [of no_sockets "\<lambda>p. True" 8080 3 "0 :: nat" "1 :: nat" 7]
    by (auto simp: no_sockets_def)
qed

theorem HttpServer_second_server_witness:
  "HttpServer_new (\<lambda>p. True) (0 :: nat) (1 :: nat) 7 9090 1 (no_sockets\<lparr>evListenSocket := Some 0, freed := {0}\<rparr>) = Inl UB_dangling"
  using HttpServer_second_server [of "no_sockets\<lparr>evListenSocket := Some 0, freed := {0}\<rparr>" 0 1 "\<lambda>p. True" "0 :: nat" "1 :: nat" 7 9090]
  by simp

text \<open>While the constructor has not returned, the workers that run their event loops already have no handler: whatever the first loop of
  \<open>createThreads\<close> has set up, a request that one of its workers accepts calls nobody, so it is never answered.\<close>

lemma init_keeps_handler: "HttpThread_init bind_ok t g = Inr (t', g') \<Longrightarrow> onrequest_of t' = onrequest_of t"
  by (auto simp: HttpThread_init_def Let_def split: option.splits if_splits)

definition unhandled :: "('r, 'h) HttpServer \<Rightarrow> bool" where
  "unhandled s \<longleftrightarrow> (\<forall>t \<in> set (sThreads s). onrequest_of t = OnRequest_new None) \<and> length (sJobQueue s) = length (sThreads s)"

lemma created_unhandled:
  "foldR (\<lambda>i. createThreads_step bind_ok worker self) is (s, g) = Inr (s', g') \<Longrightarrow> unhandled s \<Longrightarrow> unhandled s'"
proof (induction "is" arbitrary: s g)
  case (Cons i "is")
  then obtain t g1 where t: "HttpThread_init bind_ok (HttpThread_new_port (sPort s) None) g = Inr (t, g1)"
      "foldR (\<lambda>i. createThreads_step bind_ok worker self) is
        (HttpServer_addJob (fst (ThreadJob_new (Some worker) (Some self) 0)) (s\<lparr>sThreads := sThreads s @ [t]\<rparr>), g1) = Inr (s', g')"
    by (auto simp: createThreads_step_def bindR_Inr_iff)
  have "onrequest_of t = OnRequest_new None" using init_keeps_handler [OF t(1)] by (simp add: HttpThread_new_port_def)
  then have "unhandled (HttpServer_addJob (fst (ThreadJob_new (Some worker) (Some self) 0)) (s\<lparr>sThreads := sThreads s @ [t]\<rparr>))"
    using Cons.prems(2) by (auto simp: unhandled_def HttpServer_addJob_def)
  then show ?case using Cons.IH [OF t(2)] by blast
qed simp

theorem HttpServer_early_request_unanswered:
  assumes "foldR (\<lambda>i. createThreads_step bind_ok worker self) [0..<k]
      (\<lparr>sThreads = [], sCount = n, sJobQueue = [], router = Router_new, sPort = port\<rparr>, g) = Inr (s, g')"
    and "t \<in> set (sThreads s)"
  shows "length (sJobQueue s) = length (sThreads s)
    \<and> (\<exists>st'. onEvRequest call t req st = Inr st' \<and> client st' = client st \<and> pending st' = pending st @ [next_request st])"
proof -
  have "onrequest_of t = OnRequest_new None" "length (sJobQueue s) = length (sThreads s)"
    using created_unhandled [OF assms(1)] assms(2) by (simp_all add: unhandled_def)
  then show ?thesis by (simp add: onEvRequest_def OnRequest_fire_def OnRequest_new_def Let_def)
qed

text \<open>On a port that is taken, every worker goes without a listener and the constructor returns as usual; the destructor then hands
  libevent a null pointer.\<close>

lemma create_unbound:
  assumes "\<not> bind_ok (sPort s)" and "evListenSocket g = None"
  shows "\<exists>s'. foldR (\<lambda>i. createThreads_step bind_ok worker self) is (s, g) = Inr (s', g)
    \<and> sThreads s' = sThreads s @ replicate (length is) ((HttpThread_new_port (sPort s) None)\<lparr>evHttp := True\<rparr>)"
  using assms(1)
proof (induction "is" arbitrary: s)
  case (Cons i "is")
  let ?t = "(HttpThread_new_port (sPort s) None)\<lparr>evHttp := True\<rparr>"
  let ?s = "HttpServer_addJob (fst (ThreadJob_new (Some worker) (Some self) 0)) (s\<lparr>sThreads := sThreads s @ [?t]\<rparr>)"
  have "createThreads_step bind_ok worker self (s, g) = Inr (?s, g)"
    using Cons.prems assms(2) by (simp add: createThreads_step_def HttpThread_init_def HttpThread_new_port_def)
  moreover have "sPort ?s = sPort s" "sThreads ?s = sThreads s @ [?t]" by (simp_all add: HttpServer_addJob_def)
  ultimately show ?case using Cons.IH [of ?s] Cons.prems by simp
qed simp

theorem HttpServer_busy_port:
  fixes worker :: 'r and dispatch :: 'h
  assumes "\<not> bind_ok port" and "evListenSocket g = None" and "0 < n"
  shows "\<exists>s. HttpServer_new bind_ok worker dispatch self port n g = Inr (s, g) \<and> HttpServer_delete (s, g) = Inl UB_null_deref"
proof -
  let ?ini = "\<lparr>sThreads = [], sCount = n, sJobQueue = [], router = Router_new, sPort = port\<rparr> :: ('r, 'h) HttpServer"
  let ?t = "(HttpThread_new_port port None)\<lparr>evHttp := True\<rparr> :: 'h HttpThread"
  obtain k where k: "unat n = Suc k" using assms(3) by (cases "unat n") (auto simp: unat_eq_0)
  obtain s where s: "foldR (\<lambda>i. createThreads_step bind_ok worker self) [0..<unat n] (?ini, g) = Inr (s, g)"
      "sThreads s = replicate (Suc k) ?t"
    using create_unbound [of bind_ok ?ini g worker self "[0..<unat n]"] assms(1,2) k by auto
  let ?s = "s\<lparr>sThreads := map (HttpThread_handle (Some dispatch) (Some self)) (sThreads s)\<rparr>"
  have "HttpServer_new bind_ok worker dispatch self port n g = Inr (?s, g)"
    using s(1) by (simp add: HttpServer_new_def HttpServer_createThreads_def)
  moreover have jobs: "sThreads (fold (\<lambda>_. HttpServer_addJob j) is u) = sThreads u" for j "is" and u :: "('r, 'h) HttpServer"
    by (induction "is" arbitrary: u) (simp_all add: HttpServer_addJob_def)
  have "HttpServer_delete (?s, g) = Inl UB_null_deref"
    by (simp add: HttpServer_delete_def jobs s(2) HttpThread_deinit_def HttpThread_handle_def HttpThread_onRequest_def
        HttpThread_new_port_def Let_def)
  ultimately show ?thesis by blast
qed

section \<open>Completion of a request\<close>

text \<open>Whenever \<open>onEvRequest\<close> returns, the request object it registered for libevent's completion callback has been
  deleted, so the callback for this request accesses freed memory.\<close>

theorem HttpThread_completion_dangles:
  assumes "onEvRequest call t req s = Inr s'"
  shows "next_request s \<in> set (pending s') \<and> onEvRequestComplete (next_request s) s' = Inl UB_dangling"
  using assms by (auto simp: onEvRequest_def onEvRequestComplete_def bindR_Inr_iff Let_def)

theorem HttpThread_completion_dangles_witness:
  "\<exists>s'. onEvRequest (\<lambda>h e p s. Inr (s @ [h])) (HttpThread_handle (Some (3 :: nat)) None (HttpThread_new None)) sample_request
      \<lparr>client = [], live = {}, pending = [], next_request = 0\<rparr> = Inr s'
    \<and> onEvRequestComplete 0 s' = Inl UB_dangling"
proof -
  let ?s = "\<lparr>client = [], live = {}, pending = [], next_request = 0\<rparr> :: nat list request_state"
  have "\<exists>s'. onEvRequest (\<lambda>h e p s. Inr (s @ [h])) (HttpThread_handle (Some (3 :: nat)) None (HttpThread_new None)) sample_request ?s = Inr s'"
    by (simp add: onEvRequest_def OnRequest_fire_def HttpThread_handle_def HttpThread_onRequest_def OnRequest_set_def OnRequest_bind_def Let_def)
  then show ?thesis using HttpThread_completion_dangles [where s = ?s] by fastforce
qed

end
