(* ===== verification/ServerRun.thy ===== *)
theory ServerRun
  imports EventLoop HttpServer
begin

text \<open>
  The workers of \<open>HttpServer\<close> at run time (\<open>src/http/server/http-server.cpp\<close>): each has a libevent base of its own, its first job is the event loop
  on that base, and the destructor asks the loops to end and queues one exit command per worker. The queue is the one of
  \<open>ThreadPool\<close>, line by line (\<open>server_queue\<close>), so the workers take the steps of \<open>EventLoop\<close>.
\<close>

section \<open>The queue\<close>

lemma server_queue:
  assumes "mJobQueue p = sJobQueue s"
  shows "mJobQueue (ThreadPool_addJob j p) = sJobQueue (HttpServer_addJob j s)"
    and "rel_option (\<lambda>(j, p') (k, s'). j = k \<and> mJobQueue p' = sJobQueue s') (ThreadPool_threadGetNextJob p) (HttpServer_threadGetNextJob s)"
  using assms
  by (auto simp: ThreadPool_addJob_def HttpServer_addJob_def ThreadPool_threadGetNextJob_def HttpServer_threadGetNextJob_def
      split: list.splits)

section \<open>Steps\<close>

text \<open>What the threads share with libevent: the objects \<open>HttpThread\<close> and the listeners, as \<open>init\<close> and \<open>deinit\<close> leave them.\<close>

type_synonym 'h contexts = "('h HttpThread list \<times> ev_state) res"

definition init_cbk :: "(u16 \<Rightarrow> bool) \<Rightarrow> nat \<Rightarrow> 'h contexts \<Rightarrow> 'h contexts" where
  "init_cbk bind_ok i c =
     bindR c (\<lambda>(ts, g). bindR (HttpThread_init bind_ok (ts ! i) g) (\<lambda>(t, g'). Inr (ts[i := t], g')))"

definition deinit_cbk :: "nat \<Rightarrow> 'h contexts \<Rightarrow> 'h contexts" where
  "deinit_cbk i c =
     bindR c (\<lambda>(ts, g). bindR (HttpThread_deinit (ts ! i) g) (\<lambda>(t, g'). Inr (ts[i := t], g')))"

definition server_pool :: "(u16 \<Rightarrow> bool) \<Rightarrow> u16 \<Rightarrow> u32 \<Rightarrow> ev_state \<Rightarrow> (nat, 'h contexts) pool_run" where
  "server_pool bind_ok port n g =
     \<lparr>mJobQueue = [],
      mThreads = map (\<lambda>i. Thread_new_cbk True (Some (init_cbk bind_ok i)) (Some (deinit_cbk i))) [0..<unat n],
      uiCount = n, poolBase = True,
      cstate = Inr (replicate (unat n) (HttpThread_new_port port None), g),
      hAdded = [], hTaken = [], hRan = [], hCalls = []\<rparr>"

definition worker_job :: "nat ThreadJobBase" where
  "worker_job = fst (ThreadJob_new (Some 0) (Some 0) 0)"

text \<open>The progress of the destructor: the iterations done, whether it is between the two halves of one, and the bases whose loop
  has been asked to end; a request ends one call of \<open>event_base_dispatch\<close>, whether it is running already or not.\<close>

record dtor =
  asked :: nat
  mid :: bool
  loopexits :: "nat set"

definition may_exit :: "dtor \<Rightarrow> nat \<Rightarrow> bool" where
  "may_exit e i \<longleftrightarrow> i \<in> loopexits e"

definition exit_done :: "nat \<Rightarrow> dtor \<Rightarrow> dtor" where
  "exit_done i e = e\<lparr>loopexits := loopexits e - {i}\<rparr>"

definition event_base_loopexit :: "bool \<Rightarrow> nat \<Rightarrow> dtor \<Rightarrow> dtor" where
  "event_base_loopexit base i e = (if base then e\<lparr>loopexits := insert i (loopexits e)\<rparr> else e)"

text \<open>\<open>job\<close>: the constructor queues the job of worker \<open>i\<close> when the worker has started. \<open>loopexit\<close> and \<open>exit_job\<close> are the halves of
  an iteration of the destructor, which runs after the constructor.\<close>

inductive server_step :: "(nat, 'c) pool_run \<times> dtor \<Rightarrow> (nat, 'c) pool_run \<times> dtor \<Rightarrow> bool" where
  work: "loop_work may_exit exit_done x y \<Longrightarrow> server_step x y"
| job: "length (hAdded p) < length (mThreads p) \<Longrightarrow> startReturned (mThreads p ! length (hAdded p)) \<Longrightarrow>
     job_added worker_job p p' \<Longrightarrow> server_step (p, e) (p', e)"
| loopexit: "length (mThreads p) \<le> length (hAdded p) \<Longrightarrow> asked e < length (mThreads p) \<Longrightarrow> \<not> mid e \<Longrightarrow>
     server_step (p, e) (p, event_base_loopexit (Thread_getEventBase (mThreads p ! asked e)) (asked e) (e\<lparr>mid := True\<rparr>))"
| exit_job: "mid e \<Longrightarrow> job_added exit_job p p' \<Longrightarrow> server_step (p, e) (p', e\<lparr>mid := False, asked := asked e + 1\<rparr>)"

definition dtor_new :: dtor where
  "dtor_new = \<lparr>asked = 0, mid = False, loopexits = {}\<rparr>"

inductive server_reachable :: "(nat, 'h contexts) pool_run \<times> dtor \<Rightarrow> bool" where
  init: "server_reachable (server_pool bind_ok port n g, dtor_new)"
| step: "server_reachable x \<Longrightarrow> server_step x y \<Longrightarrow> server_reachable y"

section \<open>The destructor ends\<close>

lemma server_pool_inv: "server_step x y \<Longrightarrow> pool_inv (fst x) \<Longrightarrow> pool_inv (fst y)"
  by (induction rule: server_step.induct)
     (auto intro: pool_inv_work pool_inv_step dest: loop_work_pool job_added_step)

lemma server_init_inv: "pool_inv (server_pool bind_ok port n g)"
  by (auto simp: pool_inv_def server_pool_def thread_ok_def Thread_new_cbk_def begun_def Semaphore_new_def asleep_def gone_def held_def
      filter_empty_conv)

lemma server_reachable_inv: "server_reachable x \<Longrightarrow> pool_inv (fst x)"
  by (induction rule: server_reachable.induct) (auto intro: server_init_inv server_pool_inv)

definition served :: "dtor \<Rightarrow> nat" where
  "served e = asked e + (if mid e then 1 else 0)"

definition closing :: "(nat, 'c) pool_run \<times> dtor \<Rightarrow> bool" where
  "closing x \<longleftrightarrow> (case x of (p, e) \<Rightarrow>
     pool_inv p \<and> poolBase p \<and> length (mThreads p) \<le> length (hAdded p) \<and>
     (\<forall>j \<in> set (mJobQueue p). isExit j) \<and> length (filter isExit (hAdded p)) = asked e \<and>
     served e \<le> length (mThreads p) \<and> loopexits e \<subseteq> {..< served e} \<and>
     (\<forall>i < served e. \<forall>j. pc (mThreads p ! i) = Running j \<longrightarrow> i \<in> loopexits e) \<and>
     (\<forall>i < length (mThreads p). served e \<le> i \<longrightarrow> (\<exists>j. pc (mThreads p ! i) = Running j)))"

lemma work_queue: "pool_work s s' \<Longrightarrow> set (mJobQueue s') \<subseteq> set (mJobQueue s)"
  by (induction rule: pool_work.induct) (auto simp: setThread_def ThreadPool_threadGetNextJob_def split: list.splits)

lemma closing_step: "server_step x y \<Longrightarrow> closing x \<Longrightarrow> closing y"
proof (induction rule: server_step.induct)
  case (work x y)
  obtain p e p' e' where xy: "x = (p, e)" "y = (p', e')" by (metis surj_pair)
  have w: "pool_work p p'" using loop_work_pool [OF work(1)] xy by simp
  note keep = work_keeps [OF w]
  have c: "pool_inv p" "length (mThreads p) \<le> length (hAdded p)" "\<forall>j \<in> set (mJobQueue p). isExit j"
      "length (filter isExit (hAdded p)) = asked e" "served e \<le> length (mThreads p)" "loopexits e \<subseteq> {..< served e}"
      "\<And>i j. i < served e \<Longrightarrow> pc (mThreads p ! i) = Running j \<Longrightarrow> i \<in> loopexits e"
      "\<And>i. i < length (mThreads p) \<Longrightarrow> served e \<le> i \<Longrightarrow> \<exists>j. pc (mThreads p ! i) = Running j"
    using work(2) by (auto simp: closing_def xy)
  have "poolBase p'" using work(2) work_poolBase [OF w] by (simp add: closing_def xy)
  note keep = this keep
  have p': "pool_inv p'" "\<forall>j \<in> set (mJobQueue p'). isExit j"
    using pool_inv_work [OF w c(1)] work_queue [OF w] c(3) by auto
  from work(1) [unfolded xy] show ?case
  proof (cases rule: loop_work.cases)
    case (routine_returns i j)
    have i: "i < served e" using routine_returns(5) c(6) by (auto simp: may_exit_def)
    have same: "pc (mThreads p' ! k) = pc (mThreads p ! k)" if "k \<noteq> i" for k
      using that routine_returns(1) by (simp add: finish_job_def setThread_def)
    have pi: "pc (mThreads p' ! i) = Fetching" using routine_returns(1,3) by (simp add: finish_job_def setThread_def)
    have e': "served e' = served e" "asked e' = asked e" "loopexits e' = loopexits e - {i}"
      using routine_returns(2) by (simp_all add: exit_done_def served_def)
    have "k \<in> loopexits e'" if "k < served e" "pc (mThreads p' ! k) = Running l" for k l
      using that same [of k] pi c(7) [of k l] e'(3) by (cases "k = i") auto
    moreover have "\<exists>l. pc (mThreads p' ! k) = Running l" if "k < length (mThreads p')" "served e \<le> k" for k
      using that same [of k] c(8) [of k] keep i by auto
    ultimately show ?thesis using c p' keep e' by (auto simp: closing_def xy(2))
  next
    case pool_moves
    have e: "e' = e" using pool_moves by simp
    have "k \<in> loopexits e" if "k < served e" "pc (mThreads p' ! k) = Running l" for k l
      using running_new [OF w pool_moves(3) that(2)] that c(3,5,7) by fastforce
    moreover have "\<exists>l. pc (mThreads p' ! k) = Running l" if "k < length (mThreads p')" "served e \<le> k" for k
      using running_kept [OF w pool_moves(3) c(1)] that c(8) keep by fastforce
    ultimately show ?thesis using c p' keep by (auto simp: closing_def xy(2) e)
  qed
next
  case (job p p' e)
  then show ?case by (simp add: closing_def)
next
  case (loopexit p e)
  let ?i = "asked e"
  have c: "pool_inv p" "served e = ?i" using loopexit by (auto simp: closing_def served_def)
  obtain j where j: "pc (mThreads p ! ?i) = Running j" using loopexit c(2) by (auto simp: closing_def)
  have "thread_ok (mThreads p ! ?i)" "mBase (mThreads p ! ?i)"
    using c(1) loopexit(2,4) by (auto simp: pool_inv_def closing_def)
  then have base: "Thread_getEventBase (mThreads p ! ?i)"
    using j by (simp add: Thread_getEventBase_def thread_ok_def begun_def)
  let ?e = "e\<lparr>mid := True, loopexits := insert ?i (loopexits e)\<rparr>"
  have "event_base_loopexit (Thread_getEventBase (mThreads p ! ?i)) ?i (e\<lparr>mid := True\<rparr>) = ?e"
    using base by (simp add: event_base_loopexit_def)
  moreover have "served ?e = Suc ?i" by (simp add: served_def)
  moreover have "k \<in> loopexits ?e" if "k < Suc ?i" "pc (mThreads p ! k) = Running l" for k l
    using that loopexit(4) c(2) by (auto simp: closing_def less_Suc_eq)
  ultimately show ?case using loopexit(2,4) c(2) by (auto simp: closing_def)
next
  case (exit_job e p p')
  note add = job_added_simps [OF exit_job(2)]
  have "pool_inv p'" using exit_job pool_inv_step [OF job_added_step] by (auto simp: closing_def)
  moreover have "served (e\<lparr>mid := False, asked := asked e + 1\<rparr>) = served e" using exit_job(1) by (simp add: served_def)
  ultimately show ?case using exit_job(3) add by (auto simp: closing_def)
qed

fun server_weight :: "(nat, 'c) pool_run \<times> dtor \<Rightarrow> nat" where
  "server_weight (p, e) = pool_weight p + 8 * (length (mThreads p) - asked e) - (if mid e then 1 else 0)"

lemma closing_decreases: "server_step x y \<Longrightarrow> closing x \<Longrightarrow> server_weight y < server_weight x"
proof (induction rule: server_step.induct)
  case (work x y)
  obtain p e p' e' where xy: "x = (p, e)" "y = (p', e')" by (metis surj_pair)
  have w: "pool_work p p'" using loop_work_pool [OF work(1)] xy by simp
  have "asked e' = asked e \<and> mid e' = mid e"
    using work(1) xy by (auto simp: exit_done_def elim: loop_work.cases)
  moreover have "mid e \<longrightarrow> asked e < length (mThreads p)" using work(2) by (auto simp: closing_def served_def xy)
  ultimately show ?case using work_decreases [OF w] work_keeps [OF w] by (auto simp: xy)
next
  case (job p p' e)
  then show ?case by (simp add: closing_def)
next
  case (loopexit p e)
  then show ?case by (simp add: event_base_loopexit_def)
next
  case (exit_job e p p')
  have "asked e < length (mThreads p)" using exit_job(1,3) by (auto simp: closing_def served_def)
  then show ?case using exit_job(1) job_added_weight [OF exit_job(2)] job_added_simps(5) [OF exit_job(2)] by simp
qed

interpretation server_close: winding_down server_step closing server_weight
  by unfold_locales (auto intro: closing_step closing_decreases)

lemma closing_rest:
  assumes c: "closing (p, e)" and rest: "\<nexists>y. server_step (p, e) y"
  shows "\<forall>t \<in> set (mThreads p). pc t = Exited \<and> deleteReturned t" and "mJobQueue p = []"
proof -
  let ?n = "length (mThreads p)"
  have inv: "pool_inv p" using c by (simp add: closing_def)
  have no: "\<nexists>y. loop_work may_exit exit_done (p, e) y" using rest server_step.work by blast
  note quiet = loop_rest_quiet(1) [OF no]
  have "\<not> mid e" using rest server_step.exit_job job_can_be_added by blast
  then have asked: "asked e = ?n"
    using c rest server_step.loopexit [of p e] by (fastforce simp: closing_def served_def)
  have notrun: "pc (mThreads p ! i) \<noteq> Running j" if "i < ?n" for i j
    using loop_rest_quiet(2) [OF no that] c that asked \<open>\<not> mid e\<close> by (auto simp: closing_def may_exit_def served_def)
  have awake: "pc t \<noteq> Sleeping" if t: "t \<in> set (mThreads p)" for t
  proof
    assume sl: "pc t = Sleeping"
    with t have "mJobQueue p = []" by (rule quiet_sleeper_empty [OF inv quiet])
    then have "hTaken p = hAdded p" using inv by (simp add: pool_inv_def)
    moreover have "length (filter isExit (hTaken p)) = length (filter gone (mThreads p))" using inv by (simp add: pool_inv_def)
    moreover have "length (filter isExit (hAdded p)) = ?n" using c asked by (simp add: closing_def)
    ultimately have "length (filter gone (mThreads p)) = ?n" by simp
    then have "gone t" using t by (metis filter_id_conv length_filter_less less_irrefl)
    then show False by (simp add: gone_def sl)
  qed
  have ex: "pc (mThreads p ! i) = Exited" if "i < ?n" for i
    using quiet_idle [OF inv quiet that] notrun [OF that] awake [OF nth_mem [OF that]] by blast
  have del: "deleteReturned (mThreads p ! i)" if "i < ?n" for i
    using quiet_deleted [OF inv quiet that] ex that by simp
  show "\<forall>t \<in> set (mThreads p). pc t = Exited \<and> deleteReturned t" using ex del by (simp add: all_set_conv_all_nth)
  have "filter gone (mThreads p) = mThreads p" using ex by (simp add: filter_id_conv all_set_conv_all_nth gone_def)
  moreover have "length (filter isExit (hTaken p)) = length (filter gone (mThreads p))" using inv by (simp add: pool_inv_def)
  moreover have "length (filter isExit (hAdded p)) = ?n" using c asked by (simp add: closing_def)
  moreover have "hAdded p = hTaken p @ mJobQueue p" using inv by (simp add: pool_inv_def)
  ultimately have "filter isExit (mJobQueue p) = []" by simp
  then show "mJobQueue p = []" using c by (auto simp: closing_def filter_empty_conv)
qed

lemma held_running: "\<forall>t \<in> set ts. \<exists>j. pc t = Running j \<Longrightarrow> length (concat (map held ts)) = length ts"
  by (induction ts) (auto simp: held_def)

lemma closing_start:
  assumes inv: "pool_inv p" and base: "poolBase p" and run: "\<forall>t \<in> set (mThreads p). \<exists>j. pc t = Running j"
    and added: "length (hAdded p) = length (mThreads p)"
  shows "closing (p, dtor_new)"
proof -
  have "length (filter (\<lambda>j. \<not> isExit j) (hAdded p)) \<le> length (mThreads p)" using added by (metis length_filter_le)
  then have "length (filter (\<lambda>j. \<not> isExit j) (mJobQueue p)) = 0" "length (filter (\<lambda>j. \<not> isExit j) (hAdded p)) = length (hAdded p)"
    using unfinished_where [OF inv] held_running [OF run] added by linarith+
  moreover have "length (filter isExit (hAdded p)) + length (filter (\<lambda>j. \<not> isExit j) (hAdded p)) = length (hAdded p)"
    by (rule sum_length_filter_compl)
  ultimately show ?thesis
    using inv base run added by (auto simp: closing_def dtor_new_def served_def filter_empty_conv)
qed

lemma server_reachable_base: "server_reachable x \<Longrightarrow> poolBase (fst x)"
proof (induction rule: server_reachable.induct)
  case (step x y)
  from step(2,3) show ?case
    by (induction rule: server_step.induct)
       (auto dest!: loop_work_pool work_poolBase job_added_simps(6))
qed (simp add: server_pool_def)


section \<open>Two workers\<close>

definition no_sockets :: ev_state where
  "no_sockets = \<lparr>evListenSocket = None, listens = [], accepts = [], next_socket = 0, freed = {}\<rparr>"

abbreviation two_workers :: "(nat, nat contexts) pool_run" where
  "two_workers \<equiv> server_pool (\<lambda>_. True) 8080 2 no_sockets"

definition two :: "nat ThreadJobBase list \<Rightarrow> (nat, nat contexts) Thread list \<Rightarrow> nat contexts \<Rightarrow> nat ThreadJobBase list
    \<Rightarrow> nat ThreadJobBase list \<Rightarrow> nat ThreadJobBase list \<Rightarrow> (nat \<times> nat option \<times> bool) list \<Rightarrow> (nat, nat contexts) pool_run" where
  "two q ts c a t r k =
     \<lparr>mJobQueue = q, mThreads = ts, uiCount = 2, poolBase = True, cstate = c, hAdded = a, hTaken = t, hRan = r, hCalls = k\<rparr>"

text \<open>A worker that is not started, and one that is.\<close>

definition fresh :: "nat \<Rightarrow> (nat, nat contexts) Thread" where
  "fresh i = Thread_new_cbk True (Some (init_cbk (\<lambda>_. True) i)) (Some (deinit_cbk i))"

definition up :: "nat \<Rightarrow> nat ThreadJobBase pc \<Rightarrow> (nat, nat contexts) Thread" where
  "up i q = (fresh i)\<lparr>mThread := Some (Joinable i), mEventBase := True, pc := q, startReturned := True\<rparr>"

lemma two_simps [simp]:
  "mJobQueue (two q ts c a t r k) = q" "mThreads (two q ts c a t r k) = ts" "cstate (two q ts c a t r k) = c"
  "hAdded (two q ts c a t r k) = a" "hTaken (two q ts c a t r k) = t" "hRan (two q ts c a t r k) = r" "hCalls (two q ts c a t r k) = k"
  "(two q ts c a t r k)\<lparr>mThreads := ts'\<rparr> = two q ts' c a t r k" "(two q ts c a t r k)\<lparr>mJobQueue := q'\<rparr> = two q' ts c a t r k"
  "(two q ts c a t r k)\<lparr>cstate := c'\<rparr> = two q ts c' a t r k" "(two q ts c a t r k)\<lparr>hAdded := a'\<rparr> = two q ts c a' t r k"
  "(two q ts c a t r k)\<lparr>hTaken := t'\<rparr> = two q ts c a t' r k" "(two q ts c a t r k)\<lparr>hRan := r'\<rparr> = two q ts c a t r' k"
  "(two q ts c a t r k)\<lparr>hCalls := k'\<rparr> = two q ts c a t r k'"
  by (simp_all add: two_def)

lemma up_simps [simp]:
  "pc (up i q) = q" "startReturned (up i q)" "\<not> deleteReturned (up i q)" "Thread_getEventBase (up i q)" "(up i q)\<lparr>pc := q'\<rparr> = up i q'"
  "pc (fresh i) = Unstarted" "\<not> startReturned (fresh i)"
  by (simp_all add: up_def fresh_def Thread_new_cbk_def Thread_getEventBase_def)

lemma up_waits [simp]: "Thread_delete (up i q) = Inr None"
  by (simp add: up_def fresh_def Thread_new_cbk_def Thread_delete_def Thread_getId_def Semaphore_wait_def Semaphore_new_def)

text \<open>The life of a worker until it looks for jobs, in a pool of two.\<close>

lemma starts:
  assumes i: "i < length ts" "ts ! i = fresh i" and before: "\<forall>k < i. startReturned (ts ! k)"
  shows "\<exists>c'. (\<lambda>u v. pool_work u v \<and> hRan v = hRan u)\<^sup>*\<^sup>* (two q ts c a t r k) (two q (ts[i := up i Fetching]) c' a t r k)"
proof -
  let ?R = "\<lambda>u v. pool_work u v \<and> hRan v = hRan u"
  let ?t1 = "Thread_start i (fresh i)"
  obtain t2 c2 where t2: "Thread_run_begin ?t1 c = (t2, c2)" by fastforce
  have t2': "Thread_start_wait t2 = Some (up i Fetching)" "pc t2 = Fetching" "\<not> startReturned t2"
    using t2 by (auto simp: handshake_defs up_def fresh_def Thread_new_cbk_def Semaphore_wait_def Semaphore_notify_def Semaphore_new_def)
  have "?R (two q ts c a t r k) (two q (ts[i := ?t1]) c a t r k)"
    using pool_work.start [of i "two q ts c a t r k" i] i before by (simp add: setThread_def)
  moreover have "?R (two q (ts[i := ?t1]) c a t r k) (two q (ts[i := t2]) c2 a t r k)"
    using pool_work.run_begin [of i "two q (ts[i := ?t1]) c a t r k" t2 c2] i t2 by (simp add: setThread_def pc_ops)
  moreover have "?R (two q (ts[i := t2]) c2 a t r k) (two q (ts[i := up i Fetching]) c2 a t r k)"
    using pool_work.started [of i "two q (ts[i := t2]) c2 a t r k" "up i Fetching"] i t2' by (simp add: setThread_def)
  ultimately show ?thesis by (metis (mono_tags, lifting) converse_rtranclp_into_rtranclp rtranclp.rtrancl_refl)
qed

lemma reach_moves:
  assumes "(\<lambda>u v. pool_work u v \<and> hRan v = hRan u)\<^sup>*\<^sup>* p p'" and "server_reachable (p, e)"
  shows "server_reachable (p', e)"
  using assms by (induction rule: rtranclp_induct) (auto intro: server_reachable.step server_step.work loop_work.pool_moves)

lemma two_fetch:
  assumes "i < length ts" and "ts ! i = up i Fetching"
  shows "pool_work (two (j # q) ts c a t r k)
           (two q (ts[i := up i (if isExit j then Exiting else Running j)]) c a (t @ [j]) r k)"
  using pool_work.fetch [of i "two (j # q) ts c a t r k" j "two q ts c a t r k"] assms
  by (cases "isExit j") (simp_all add: ThreadPool_threadGetNextJob_def setThread_def Thread_run_got_def)

lemma step_fetch:
  assumes "i < length ts" and "ts ! i = up i Fetching"
  shows "server_step (two (j # q) ts c a t r k, e)
           (two q (ts[i := up i (if isExit j then Exiting else Running j)]) c a (t @ [j]) r k, e)"
  by (intro server_step.work loop_work.pool_moves two_fetch assms) simp

lemma two_add:
  assumes "\<forall>u \<in> set ts. pc u \<noteq> Sleeping"
  shows "job_added j (two q ts c a t r k) (two (q @ [j]) ts c (a @ [j]) t r k)"
  using assms by (auto simp: job_added_def ThreadPool_addJob_def intro!: exI [of _ ts] notify_none)

lemma worker_job_not_exit [simp]: "\<not> isExit worker_job"
  by (simp add: worker_job_def ThreadJob_new_def ThreadJobBase_new_def isExit_def)

lemma reach_move: "pool_work p p' \<Longrightarrow> hRan p' = hRan p \<Longrightarrow> server_reachable (p, e) \<Longrightarrow> server_reachable (p', e)"
  by (blast intro: server_reachable.step server_step.work loop_work.pool_moves)

lemma reach_job:
  assumes "server_reachable (two q ts c a t r k, e)" and "length a < length ts" and "startReturned (ts ! length a)"
    and "\<forall>u \<in> set ts. pc u \<noteq> Sleeping"
  shows "server_reachable (two (q @ [worker_job]) ts c (a @ [worker_job]) t r k, e)"
  using assms by (intro server_reachable.step [OF assms(1)] server_step.job two_add) simp_all

text \<open>The constructor has returned, the first worker is in its loop, the second has not looked for its job yet.\<close>

lemma constructed_reachable:
  obtains c where "server_reachable (two [worker_job] [up 0 (Running worker_job), up 1 Fetching] c [worker_job, worker_job] [worker_job] [] [], dtor_new)"
proof -
  let ?w = "worker_job"
  have "two_workers = two [] [fresh 0, fresh 1] (cstate two_workers) [] [] [] []"
    by (simp add: server_pool_def two_def fresh_def upt_rec)
  then have r0: "server_reachable (two [] [fresh 0, fresh 1] (cstate two_workers) [] [] [] [], dtor_new)"
    using server_reachable.init [of "\<lambda>_. True" 8080 2 no_sockets] by simp
  obtain c1 where "server_reachable (two [] [up 0 Fetching, fresh 1] c1 [] [] [] [], dtor_new)"
    using starts [of 0 "[fresh 0, fresh 1]" "[]" "cstate two_workers" "[]" "[]" "[]" "[]"] reach_moves [OF _ r0] by auto
  from reach_job [OF this]
  have r1: "server_reachable (two [?w] [up 0 Fetching, fresh 1] c1 [?w] [] [] [], dtor_new)" by simp
  obtain c2 where "server_reachable (two [?w] [up 0 Fetching, up 1 Fetching] c2 [?w] [] [] [], dtor_new)"
    using starts [of 1 "[up 0 Fetching, fresh 1]" "[?w]" c1 "[?w]" "[]" "[]" "[]"] reach_moves [OF _ r1] by auto
  from reach_job [OF this]
  have "server_reachable (two [?w, ?w] [up 0 Fetching, up 1 Fetching] c2 [?w, ?w] [] [] [], dtor_new)" by simp
  from reach_move [OF two_fetch [of 0] _ this]
  show ?thesis using that by simp
qed


text \<open>The destructor of a server that is destroyed early may never return: when the first worker is in its loop and the second has
  not taken its first job yet, the first one, asked to end its loop, may take that job, and go back into the loop with no
  request left; the second takes the only exit command in the queue. When the destructor comes to it, the base of the second worker
  is gone, and the exit command for the first is never taken.\<close>

theorem HttpServer_destructor_may_hang:
  "\<exists>(p :: (nat, nat contexts) pool_run) y. server_reachable (p, dtor_new) \<and> length (hAdded p) = length (mThreads p) \<and> list_all startReturned (mThreads p)
     \<and> server_step\<^sup>*\<^sup>* (p, dtor_new) y \<and> (\<nexists>z. server_step y z)
     \<and> (\<exists>t \<in> set (mThreads (fst y)). pc t = Running worker_job \<and> \<not> deleteReturned t) \<and> mJobQueue (fst y) = [exit_job]"
proof -
  let ?w = "worker_job" and ?x = "exit_job"
  obtain c where r: "server_reachable (two [?w] [up 0 (Running ?w), up 1 Fetching] c [?w, ?w] [?w] [] [], dtor_new)"
    by (rule constructed_reachable)
  let ?p0 = "two [?w] [up 0 (Running ?w), up 1 Fetching] c [?w, ?w] [?w] [] []"
  let ?k = "Thread_runJob ?w (up 0 (Running ?w))"
  obtain t1 d where t1: "Thread_run_end (up 1 Exiting) c = Inr (t1, d)" by (auto simp: Thread_run_end_def up_def fresh_def Let_def)
  then have t1': "pc t1 = Exited" "startReturned t1" "\<not> Thread_getEventBase t1"
    using run_end_Inr [OF t1] by (simp_all add: Thread_getEventBase_def)
  let ?e1 = "\<lparr>asked = 0, mid = True, loopexits = {0}\<rparr>"
  let ?e2 = "\<lparr>asked = 1, mid = False, loopexits = {0}\<rparr>"
  let ?e3 = "\<lparr>asked = 1, mid = False, loopexits = {}\<rparr>"
  let ?e4 = "\<lparr>asked = 1, mid = True, loopexits = {}\<rparr>"
  let ?e5 = "\<lparr>asked = 2, mid = False, loopexits = {}\<rparr>"
  have s1: "server_step (?p0, dtor_new) (?p0, ?e1)"
    using server_step.loopexit [of ?p0 dtor_new] by (simp add: dtor_new_def event_base_loopexit_def)
  let ?p1 = "two [?w, ?x] [up 0 (Running ?w), up 1 Fetching] c [?w, ?w, ?x] [?w] [] []"
  have s2: "server_step (?p0, ?e1) (?p1, ?e2)"
    using server_step.exit_job [of ?e1 ?p0 ?p1]
      two_add [of "[up 0 (Running ?w), up 1 Fetching]" ?x "[?w]" c "[?w, ?w]" "[?w]" "[]" "[]"] by simp
  let ?p2 = "two [?w, ?x] [up 0 Fetching, up 1 Fetching] c [?w, ?w, ?x] [?w] [?w] ?k"
  have s3: "server_step (?p1, ?e2) (?p2, ?e3)"
    using server_step.work [OF loop_work.routine_returns [of 0 ?p1 ?w may_exit ?e2 exit_done]]
    by (simp add: may_exit_def exit_done_def finish_job_def setThread_def)
  let ?p3 = "two [?x] [up 0 (Running ?w), up 1 Fetching] c [?w, ?w, ?x] [?w, ?w] [?w] ?k"
  have s4: "server_step (?p2, ?e3) (?p3, ?e3)"
    using step_fetch [of 0 "[up 0 Fetching, up 1 Fetching]" ?w "[?x]" c "[?w, ?w, ?x]" "[?w]" "[?w]" ?k ?e3] by simp
  let ?p4 = "two [] [up 0 (Running ?w), up 1 Exiting] c [?w, ?w, ?x] [?w, ?w, ?x] [?w] ?k"
  have s5: "server_step (?p3, ?e3) (?p4, ?e3)"
    using step_fetch [of 1 "[up 0 (Running ?w), up 1 Fetching]" ?x "[]" c "[?w, ?w, ?x]" "[?w, ?w]" "[?w]" ?k ?e3] by simp
  let ?p5 = "two [] [up 0 (Running ?w), t1] d [?w, ?w, ?x] [?w, ?w, ?x] [?w] ?k"
  have "pool_work ?p4 ?p5" using pool_work.run_end [of 1 ?p4 t1 d] t1 by (simp add: setThread_def)
  then have s6: "server_step (?p4, ?e3) (?p5, ?e3)" by (rule server_step.work [OF loop_work.pool_moves]) simp_all
  have s7: "server_step (?p5, ?e3) (?p5, ?e4)"
    using server_step.loopexit [of ?p5 ?e3] t1' by (simp add: event_base_loopexit_def)
  let ?p6 = "two [?x] [up 0 (Running ?w), t1] d [?w, ?w, ?x, ?x] [?w, ?w, ?x] [?w] ?k"
  have s8: "server_step (?p5, ?e4) (?p6, ?e5)"
    using server_step.exit_job [of ?e4 ?p5 ?p6] t1'
      two_add [of "[up 0 (Running ?w), t1]" ?x "[]" d "[?w, ?w, ?x]" "[?w, ?w, ?x]" "[?w]" ?k]
    by (simp add: numeral_2_eq_2)
  have run: "server_step\<^sup>*\<^sup>* (?p0, dtor_new) (?p6, ?e5)"
    using s1 s2 s3 s4 s5 s6 s7 s8 by (meson converse_rtranclp_into_rtranclp rtranclp.rtrancl_refl)
  have no_work: "\<not> pool_work ?p6 s'" if "hRan s' = hRan ?p6" for s'
  proof
    assume "pool_work ?p6 s'"
    then show False
      using that t1'
      by (cases rule: pool_work.cases) (auto simp: less_Suc_eq setThread_def)
  qed
  have "\<not> server_step (?p6, ?e5) z" for z
  proof
    assume "server_step (?p6, ?e5) z"
    then show False
      by (cases rule: server_step.cases) (auto simp: may_exit_def elim!: loop_work.cases dest: no_work)
  qed
  then show ?thesis
    using r run by (intro exI [of _ ?p0] exI [of _ "(?p6, ?e5)"]) simp
qed

end
