(* ===== verification/ServerSockets.thy ===== *)
theory ServerSockets
  imports ServerRun
begin

text \<open>
  What the workers of \<open>HttpServer\<close> do with the listener they share (\<open>src/http/server/http-thread.cpp\<close>): \<open>init\<close> and \<open>deinit\<close> under every
  interleaving of the constructor, the workers and the destructor.
\<close>

section \<open>The listeners of a running server\<close>

definition free_port :: "(u16 \<Rightarrow> bool) \<Rightarrow> u16 \<Rightarrow> ev_state \<Rightarrow> bool" where
  "free_port bind_ok port g \<longleftrightarrow> bind_ok port \<and> evListenSocket g = None \<and> (\<forall>s \<in> freed g. s < next_socket g)"

text \<open>After the first \<open>k\<close> workers have run \<open>init\<close> and those of \<open>ex\<close> have run \<open>deinit\<close>.\<close>

definition listeners :: "u16 \<Rightarrow> ev_state \<Rightarrow> nat \<Rightarrow> nat set \<Rightarrow> ev_state" where
  "listeners port g k ex =
     (let s = next_socket g in
      \<lparr>evListenSocket = (if k = 0 then None else Some s),
       listens = listens g @ (if k = 0 then [] else [(s, port)]),
       accepts = accepts g @ map (\<lambda>i. (s + i, s)) [1..<k],
       next_socket = s + k,
       freed = freed g \<union> (\<lambda>i. s + i) ` ex\<rparr>)"

definition context_of :: "u16 \<Rightarrow> nat \<Rightarrow> nat \<Rightarrow> ('r, 'c) Thread \<Rightarrow> 'h HttpThread" where
  "context_of port s i t =
     (if begun t
      then (HttpThread_new_port port None)\<lparr>evHttp := (pc t \<noteq> Exited), evBoundSocket := Some (s + i)\<rparr>
      else HttpThread_new_port port None)"

definition exited :: "('r, 'c) Thread list \<Rightarrow> nat set" where
  "exited ts = {i. i < length ts \<and> pc (ts ! i) = Exited}"

definition contexts_of :: "u16 \<Rightarrow> ev_state \<Rightarrow> ('r, 'c) Thread list \<Rightarrow> 'h contexts" where
  "contexts_of port g ts =
     Inr (map (\<lambda>i. context_of port (next_socket g) i (ts ! i)) [0..<length ts],
          listeners port g (length (filter begun ts)) (exited ts))"

text \<open>The worker at position \<open>i\<close>, as \<open>createThreads\<close> made it, and the order in which workers are started.\<close>

definition worker_of :: "(u16 \<Rightarrow> bool) \<Rightarrow> nat \<Rightarrow> (nat, 'h contexts) Thread \<Rightarrow> bool" where
  "worker_of bind_ok i t \<longleftrightarrow> mInitCbk t = Some (init_cbk bind_ok i) \<and> mDeInitCbk t = Some (deinit_cbk i)"

definition in_order :: "('r, 'c) Thread list \<Rightarrow> bool" where
  "in_order ts \<longleftrightarrow> (\<forall>i < length ts. pc (ts ! i) \<noteq> Unstarted \<longrightarrow> (\<forall>k < i. startReturned (ts ! k)))"

lemma in_order_begun:
  assumes "in_order ts" and "\<forall>t \<in> set ts. thread_ok t" and "i < length ts" and "\<not> begun (ts ! i)" and "pc (ts ! i) \<noteq> Unstarted"
  shows "filter begun ts = take i ts"
proof -
  have b: "begun (ts ! k)" if "k < i" for k
    using assms that by (auto simp: in_order_def thread_ok_def)
  have n: "\<not> begun (ts ! k)" if "i \<le> k" "k < length ts" for k
  proof
    assume k: "begun (ts ! k)"
    then have "i < k" using that assms(4) by (cases "i = k") auto
    then have "startReturned (ts ! i)" using assms(1) that k by (auto simp: in_order_def begun_def)
    then show False using assms(2-4) by (auto simp: thread_ok_def)
  qed
  have "filter begun (take i ts) = take i ts" using b assms(3) by (auto simp: filter_id_conv in_set_conv_nth)
  moreover have "filter begun (drop i ts) = []" using n assms(3) by (auto simp: filter_empty_conv in_set_conv_nth)
  ultimately show ?thesis by (metis append_Nil2 append_take_drop_id filter_append)
qed

section \<open>One step of a worker\<close>

lemma same_positions:
  assumes "i < length ts" and "begun t = begun (ts ! i)" and "pc t = Exited \<longleftrightarrow> pc (ts ! i) = Exited"
  shows "map begun (ts[i := t]) = map begun ts" and "exited (ts[i := t]) = exited ts"
proof -
  show "map begun (ts[i := t]) = map begun ts"
    by (simp only: map_update assms(2) nth_map [OF assms(1), symmetric] list_update_id)
  show "exited (ts[i := t]) = exited ts"
    using assms(1,3) by (auto simp: exited_def nth_list_update)
qed

lemma length_filter_begun: "length (filter begun ts) = length (filter id (map begun ts))"
  by (simp add: filter_map comp_def)

lemma contexts_same:
  assumes "map begun ts' = map begun ts" and "exited ts' = exited ts"
  shows "contexts_of port g ts' = contexts_of port g ts"
proof -
  have n: "length ts' = length ts" using assms(1) by (rule map_eq_imp_length_eq)
  have b: "begun (ts' ! i) = begun (ts ! i)" if "i < length ts" for i
    using assms(1) n that by (metis nth_map)
  have x: "pc (ts' ! i) = Exited \<longleftrightarrow> pc (ts ! i) = Exited" if "i < length ts" for i
    using assms(2) n that by (auto simp: exited_def)
  have "length (filter begun ts') = length (filter begun ts)"
    unfolding length_filter_begun assms(1) ..
  moreover have "map (\<lambda>i. context_of port (next_socket g) i (ts' ! i)) [0..<length ts]
      = map (\<lambda>i. context_of port (next_socket g) i (ts ! i)) [0..<length ts]"
    using b x by (auto simp: context_of_def)
  ultimately show ?thesis using assms(2) n by (simp add: contexts_of_def)
qed

text \<open>A step of the pool leaves the state of the callbacks alone, or runs one of them.\<close>

lemma work_context_cases:
  assumes "pool_work p p'"
  obtains (other) "cstate p' = cstate p" "map begun (mThreads p') = map begun (mThreads p)"
      "exited (mThreads p') = exited (mThreads p)"
  | (init) i t c where "i < length (mThreads p)" "pc (mThreads p ! i) = Initialising"
      "Thread_run_begin (mThreads p ! i) (cstate p) = (t, c)" "p' = setThread i t p\<lparr>cstate := c\<rparr>"
  | (deinit) i t c where "i < length (mThreads p)" "pc (mThreads p ! i) = Exiting"
      "Thread_run_end (mThreads p ! i) (cstate p) = Inr (t, c)" "p' = setThread i t p\<lparr>cstate := c\<rparr>"
  using assms
proof (cases rule: pool_work.cases)
  case (run_begin i t c)
  then show ?thesis using init by blast
next
  case (run_end i t c)
  then show ?thesis using deinit by blast
next
  case (start i k)
  then show ?thesis
    by (intro other) (simp_all add: setThread_def same_positions begun_def pc_ops)
next
  case (started i t)
  then show ?thesis
    by (intro other) (simp_all add: setThread_def same_positions begun_def pc_ops)
next
  case (fetch i j s')
  then have "mThreads s' = mThreads p" "cstate s' = cstate p"
    by (auto simp: ThreadPool_threadGetNextJob_def split: list.splits)
  then show ?thesis using fetch
    by (intro other) (simp_all add: setThread_def same_positions begun_def pc_ops)
next
  case (sleep i)
  then show ?thesis by (intro other) (simp_all add: setThread_def same_positions begun_def)
next
  case (run_job i j)
  then show ?thesis by (intro other) (simp_all add: setThread_def same_positions begun_def)
next
  case (deleted i t)
  then show ?thesis
    by (intro other) (simp_all add: setThread_def same_positions begun_def pc_ops)
qed

section \<open>The callbacks\<close>

lemma contexts_update:
  assumes "i < length ts"
  shows "map (\<lambda>k. context_of port s k (ts[i := t] ! k)) [0..<length ts]
    = (map (\<lambda>k. context_of port s k (ts ! k)) [0..<length ts])[i := context_of port s i t]"
  using assms by (intro nth_equalityI) (auto simp: nth_list_update)

lemma init_contexts:
  assumes free: "free_port bind_ok port g" and i: "i < length ts" "pc (ts ! i) = Initialising"
    and order: "in_order ts" "\<forall>u \<in> set ts. thread_ok u" and none: "exited ts = {}"
    and t: "begun t" "pc t \<noteq> Exited"
  shows "init_cbk bind_ok i (contexts_of port g ts) = (contexts_of port g (ts[i := t]) :: 'h contexts)"
proof -
  let ?s = "next_socket g"
  have nb: "\<not> begun (ts ! i)" using i(2) by (simp add: begun_def)
  have len: "length (filter begun ts) = i"
    using in_order_begun [OF order i(1) nb] i by simp
  then have len': "length (filter begun (ts[i := t])) = Suc i"
    using count_update [OF i(1), of begun t] nb t(1) by simp
  have ex: "exited (ts[i := t]) = {}"
    using none t(2) i(1) by (simp add: exited_def nth_list_update)
  have ctx: "context_of port ?s i (ts ! i) = (HttpThread_new_port port None :: 'h HttpThread)" using nb by (simp add: context_of_def)
  have dang: "?s \<notin> freed g" using free by (auto simp: free_port_def)
  have "HttpThread_init bind_ok (HttpThread_new_port port None) (listeners port g i {})
      = Inr (context_of port ?s i t :: 'h HttpThread, listeners port g (Suc i) {})"
    using free dang t by (cases i) (auto simp: HttpThread_init_def HttpThread_new_port_def listeners_def free_port_def context_of_def Let_def)
  then show ?thesis
    using i(1) by (simp add: init_cbk_def contexts_of_def len len' none ex ctx contexts_update)
qed

lemma deinit_contexts:
  assumes i: "i < length ts" "pc (ts ! i) = Exiting" and t: "pc t = Exited"
  shows "deinit_cbk i (contexts_of port g ts) = (contexts_of port g (ts[i := t]) :: 'h contexts)"
proof -
  let ?s = "next_socket g"
  have b: "begun (ts ! i)" "begun t" using i(2) t by (simp_all add: begun_def)
  have len: "length (filter begun (ts[i := t])) = length (filter begun ts)"
    using count_update [OF i(1), of begun t] b by simp
  have ex: "exited (ts[i := t]) = insert i (exited ts)" using i(1) t by (auto simp: exited_def nth_list_update split: if_splits)
  have "HttpThread_deinit (context_of port ?s i (ts ! i)) (listeners port g k (exited ts))
      = Inr (context_of port ?s i t :: 'h HttpThread, listeners port g k (insert i (exited ts)))" for k
    using i(2) t b by (auto simp: HttpThread_deinit_def listeners_def context_of_def Let_def)
  then show ?thesis
    using i(1) by (simp add: deinit_cbk_def contexts_of_def len ex contexts_update)
qed

section \<open>The invariant\<close>

definition sockets_inv :: "(u16 \<Rightarrow> bool) \<Rightarrow> u16 \<Rightarrow> ev_state \<Rightarrow> (nat, 'h contexts) pool_run \<times> dtor \<Rightarrow> bool" where
  "sockets_inv bind_ok port g x \<longleftrightarrow> (case x of (p, e) \<Rightarrow>
     pool_inv p \<and> in_order (mThreads p) \<and> (\<forall>i < length (mThreads p). worker_of bind_ok i (mThreads p ! i)) \<and>
     cstate p = contexts_of port g (mThreads p) \<and>
     (\<forall>i < length (mThreads p). i < length (hAdded p) \<longrightarrow> startReturned (mThreads p ! i)) \<and>
     (mid e \<or> filter isExit (hAdded p) \<noteq> [] \<longrightarrow> length (mThreads p) \<le> length (hAdded p)))"

lemma callbacks_ops:
  "mInitCbk (Thread_start k t) = mInitCbk t \<and> mDeInitCbk (Thread_start k t) = mDeInitCbk t"
  "Thread_run_begin t c = (t', c') \<Longrightarrow> mInitCbk t' = mInitCbk t \<and> mDeInitCbk t' = mDeInitCbk t \<and> startReturned t' = startReturned t"
  "Thread_start_wait t = Some t' \<Longrightarrow> mInitCbk t' = mInitCbk t \<and> mDeInitCbk t' = mDeInitCbk t \<and> startReturned t'"
  "mInitCbk (Thread_run_got j t) = mInitCbk t \<and> mDeInitCbk (Thread_run_got j t) = mDeInitCbk t \<and> startReturned (Thread_run_got j t) = startReturned t"
  "Thread_run_end t c = Inr (t', c') \<Longrightarrow> mInitCbk t' = mInitCbk t \<and> mDeInitCbk t' = mDeInitCbk t \<and> startReturned t' = startReturned t"
  "Thread_delete t = Inr (Some t') \<Longrightarrow> mInitCbk t' = mInitCbk t \<and> mDeInitCbk t' = mDeInitCbk t \<and> startReturned t' = startReturned t"
  by (auto simp: handshake_defs delete_Some dest: run_end_Inr)

lemma work_thread:
  assumes "pool_work p p'" and "k < length (mThreads p)"
  shows "worker_of bind_ok k (mThreads p' ! k) = worker_of bind_ok k (mThreads p ! k)
    \<and> (startReturned (mThreads p ! k) \<longrightarrow> startReturned (mThreads p' ! k))
    \<and> (pc (mThreads p' ! k) \<noteq> Unstarted \<longrightarrow> pc (mThreads p ! k) \<noteq> Unstarted \<or> (\<forall>m < k. startReturned (mThreads p ! m)))"
  using assms
proof (cases rule: pool_work.cases)
  case (start i j)
  then show ?thesis using assms(2)
    by (cases "k = i") (simp_all add: setThread_def worker_of_def callbacks_ops(1) Thread_start_def)
next
  case (run_begin i t c)
  then show ?thesis using assms(2) callbacks_ops(2) [OF run_begin(4)]
    by (cases "k = i") (simp_all add: setThread_def worker_of_def)
next
  case (started i t)
  then show ?thesis using assms(2) callbacks_ops(3) [OF started(5)] pc_ops(3) [OF started(5)]
    by (cases "k = i") (simp_all add: setThread_def worker_of_def)
next
  case (fetch i j s')
  then have "mThreads s' = mThreads p" by (auto simp: ThreadPool_threadGetNextJob_def split: list.splits)
  then show ?thesis using fetch assms(2)
    by (cases "k = i") (simp_all add: setThread_def worker_of_def callbacks_ops(4))
next
  case (run_end i t c)
  then show ?thesis using assms(2) callbacks_ops(5) [OF run_end(4)]
    by (cases "k = i") (simp_all add: setThread_def worker_of_def)
next
  case (deleted i t)
  then show ?thesis using assms(2) callbacks_ops(6) [OF deleted(6)] pc_ops(6) [OF deleted(6)]
    by (cases "k = i") (simp_all add: setThread_def worker_of_def)
next
  case (sleep i)
  then show ?thesis using assms(2) by (cases "k = i") (simp_all add: setThread_def worker_of_def)
next
  case (run_job i j)
  then show ?thesis using assms(2) by (cases "k = i") (simp_all add: setThread_def worker_of_def)
qed

lemma work_in_order: "pool_work (p :: (nat, 'h contexts) pool_run) p' \<Longrightarrow> in_order (mThreads p) \<Longrightarrow> in_order (mThreads p')"
  unfolding in_order_def
proof (intro allI impI)
  fix i k
  assume w: "pool_work p p'" and ord: "\<forall>i < length (mThreads p). pc (mThreads p ! i) \<noteq> Unstarted \<longrightarrow> (\<forall>k < i. startReturned (mThreads p ! k))"
    and i: "i < length (mThreads p')" "pc (mThreads p' ! i) \<noteq> Unstarted" and k: "k < i"
  have i': "i < length (mThreads p)" using work_keeps [OF w] i(1) by simp
  have "startReturned (mThreads p ! k)" using work_thread [OF w i'] ord i' i(2) k by blast
  then show "startReturned (mThreads p' ! k)" using work_thread [OF w, of k] i' k by simp
qed

text \<open>No worker has left while another is still to be started.\<close>

lemma none_exited:
  assumes inv: "sockets_inv bind_ok port g (p, e)" and i: "i < length (mThreads p)" "\<not> startReturned (mThreads p ! i)"
  shows "exited (mThreads p) = {}"
proof (rule ccontr)
  assume "exited (mThreads p) \<noteq> {}"
  then obtain k where "k < length (mThreads p)" "gone (mThreads p ! k)" by (auto simp: exited_def gone_def)
  then have "filter gone (mThreads p) \<noteq> []" by (auto simp: filter_empty_conv)
  then have "filter isExit (hTaken p) \<noteq> []" using inv by (auto simp: sockets_inv_def pool_inv_def)
  then have "filter isExit (hAdded p) \<noteq> []" using inv by (auto simp: sockets_inv_def pool_inv_def)
  then show False using inv i by (auto simp: sockets_inv_def)
qed

lemma sockets_work:
  assumes free: "free_port bind_ok port g" and w: "pool_work p p'" and inv: "sockets_inv bind_ok port g (p, e)"
    and e: "mid e' = mid e"
  shows "sockets_inv bind_ok port g (p', e')"
proof -
  have p: "pool_inv p" "\<forall>u \<in> set (mThreads p). thread_ok u" "in_order (mThreads p)" "cstate p = contexts_of port g (mThreads p)"
    "\<And>i. i < length (mThreads p) \<Longrightarrow> worker_of bind_ok i (mThreads p ! i)"
    using inv by (simp_all add: sockets_inv_def pool_inv_def)
  note keep = work_keeps [OF w] and thr = work_thread [OF w]
  have "cstate p' = contexts_of port g (mThreads p')"
    using w
  proof (cases rule: work_context_cases)
    case other
    then show ?thesis using p(4) by (simp only: contexts_same [OF other(2,3)])
  next
    case (init i t c)
    have ns: "\<not> startReturned (mThreads p ! i)" using p(2) init(1,2) by (auto simp: thread_ok_def begun_def)
    have "t = fst (Thread_run_begin (mThreads p ! i) (cstate p))" "c = init_cbk bind_ok i (cstate p)"
      using init(3) p(5) [OF init(1)] by (auto simp: Thread_run_begin_def worker_of_def Let_def)
    moreover have "pc t = Fetching" using init(3) by (rule pc_ops(2))
    ultimately show ?thesis
      using init_contexts [OF free init(1,2) p(3,2) none_exited [OF inv init(1) ns], of t] p(4) init(4)
      by (simp add: setThread_def begun_def)
  next
    case (deinit i t c)
    have "c = deinit_cbk i (cstate p)"
      using deinit(3) p(5) [OF deinit(1)]
      by (auto simp: Thread_run_end_def worker_of_def Let_def split: option.splits std_thread.splits)
    then show ?thesis
      using deinit_contexts [OF deinit(1,2) pc_ops(5) [OF deinit(3)]] p(4) deinit(4) by (simp add: setThread_def)
  qed
  then show ?thesis
    using inv keep thr pool_inv_work [OF w p(1)] work_in_order [OF w p(3)] e by (auto simp: sockets_inv_def)
qed

lemma job_added_positions:
  assumes "job_added j p p'"
  shows "map begun (mThreads p') = map begun (mThreads p)" "exited (mThreads p') = exited (mThreads p)"
    "i < length (mThreads p) \<Longrightarrow> worker_of bind_ok i (mThreads p' ! i) = worker_of bind_ok i (mThreads p ! i)"
    "i < length (mThreads p) \<Longrightarrow> pc (mThreads p' ! i) = Unstarted \<longleftrightarrow> pc (mThreads p ! i) = Unstarted"
    "cstate p' = cstate p"
proof -
  obtain ts where ts: "notify_one (mThreads p) ts" "mThreads p' = ts" "cstate p' = cstate p"
    using assms by (auto simp: job_added_def ThreadPool_addJob_def)
  from ts(1) have "map begun ts = map begun (mThreads p) \<and> exited ts = exited (mThreads p)
      \<and> (\<forall>i < length (mThreads p). worker_of bind_ok i (ts ! i) = worker_of bind_ok i (mThreads p ! i)
            \<and> (pc (ts ! i) = Unstarted \<longleftrightarrow> pc (mThreads p ! i) = Unstarted))"
  proof (cases rule: notify_one_cases)
    case (one k)
    then show ?thesis
      using same_positions [of k "mThreads p" "(mThreads p ! k)\<lparr>pc := Fetching\<rparr>"]
      by (simp add: begun_def nth_list_update worker_of_def)
  qed simp
  then show "map begun (mThreads p') = map begun (mThreads p)" "exited (mThreads p') = exited (mThreads p)"
    "i < length (mThreads p) \<Longrightarrow> worker_of bind_ok i (mThreads p' ! i) = worker_of bind_ok i (mThreads p ! i)"
    "i < length (mThreads p) \<Longrightarrow> pc (mThreads p' ! i) = Unstarted \<longleftrightarrow> pc (mThreads p ! i) = Unstarted"
    "cstate p' = cstate p"
    using ts(2,3) by simp_all
qed

lemma sockets_job:
  assumes add: "job_added j p p'" and inv: "sockets_inv bind_ok port g (p, e)"
    and room: "isExit j \<Longrightarrow> length (mThreads p) \<le> length (hAdded p)"
    and started: "length (hAdded p) < length (mThreads p) \<Longrightarrow> startReturned (mThreads p ! length (hAdded p))"
    and e: "mid e' \<longrightarrow> mid e"
  shows "sockets_inv bind_ok port g (p', e')"
proof -
  note same = job_added_simps [OF add] and pos = job_added_positions [OF add]
  have "in_order (mThreads p')"
    using inv same(5,8) pos(4) by (auto simp: sockets_inv_def in_order_def)
  moreover have "cstate p' = contexts_of port g (mThreads p')"
    using inv pos(5) by (simp add: sockets_inv_def contexts_same [OF pos(1,2)])
  moreover have "startReturned (mThreads p' ! i)" if "i < length (mThreads p)" "i < Suc (length (hAdded p))" for i
    using that inv started same(8) by (cases "i = length (hAdded p)") (auto simp: sockets_inv_def)
  moreover have "pool_inv p'" using inv pool_inv_step [OF job_added_step [OF add]] by (simp add: sockets_inv_def)
  ultimately show ?thesis
    using inv same(1,5) pos(3) room e by (auto simp: sockets_inv_def split: if_splits)
qed

lemma sockets_step:
  assumes free: "free_port bind_ok port g" and step: "server_step x y" and inv: "sockets_inv bind_ok port g x"
  shows "sockets_inv bind_ok port g y"
  using step inv
proof (induction rule: server_step.induct)
  case (work x y)
  obtain p e p' e' where xy: "x = (p, e)" "y = (p', e')" by (metis surj_pair)
  have "mid e' = mid e" using work(1) by (cases rule: loop_work.cases) (auto simp: xy exit_done_def)
  then show ?case using sockets_work [OF free, of p p' e e'] loop_work_pool [OF work(1)] work(2) by (simp add: xy)
next
  case (job p p' e)
  then show ?case by (intro sockets_job [OF job(3,4)]) simp_all
next
  case (loopexit p e)
  then show ?case by (auto simp: sockets_inv_def event_base_loopexit_def)
next
  case (exit_job e p p')
  then show ?case by (intro sockets_job [OF exit_job(2,3)]) (auto simp: sockets_inv_def)
qed

lemma sockets_init:
  assumes "free_port bind_ok port g"
  shows "sockets_inv bind_ok port g (server_pool bind_ok port n g :: (nat, 'h contexts) pool_run, dtor_new)"
proof -
  let ?p = "server_pool bind_ok port n g :: (nat, 'h contexts) pool_run"
  have t: "mThreads ?p ! i = Thread_new_cbk True (Some (init_cbk bind_ok i)) (Some (deinit_cbk i))" if "i < unat n" for i
    using that by (simp add: server_pool_def)
  have n: "length (mThreads ?p) = unat n" "hAdded ?p = []" "cstate ?p = Inr (replicate (unat n) (HttpThread_new_port port None), g)"
    by (simp_all add: server_pool_def)
  have b: "\<not> begun (mThreads ?p ! i)" "pc (mThreads ?p ! i) \<noteq> Exited" "pc (mThreads ?p ! i) = Unstarted" if "i < unat n" for i
    using t [OF that] by (simp_all add: Thread_new_cbk_def begun_def)
  have "filter begun (mThreads ?p) = []" using b(1) n(1) by (auto simp: filter_empty_conv in_set_conv_nth)
  moreover have "exited (mThreads ?p) = {}" using b(2) n(1) by (auto simp: exited_def)
  moreover have "map (\<lambda>i. context_of port s i (mThreads ?p ! i)) [0..<unat n] = (replicate (unat n) (HttpThread_new_port port None) :: 'h HttpThread list)" for s
    using b(1) by (auto simp: context_of_def intro!: nth_equalityI)
  moreover have "listeners port g 0 {} = g \<longleftrightarrow> evListenSocket g = None" by (cases g) (auto simp: listeners_def Let_def)
  ultimately have "cstate ?p = contexts_of port g (mThreads ?p)"
    using assms n by (simp add: contexts_of_def free_port_def)
  then show ?thesis
    using server_init_inv [of bind_ok port n g] n b t
    by (auto simp: sockets_inv_def in_order_def worker_of_def Thread_new_cbk_def dtor_new_def)
qed

lemma sockets_run:
  assumes free: "free_port bind_ok port g" and run: "server_step\<^sup>*\<^sup>* (server_pool bind_ok port n g, dtor_new) x"
  shows "sockets_inv bind_ok port g x"
  using run by (induction rule: rtranclp_induct) (auto intro: sockets_init [OF free] sockets_step [OF free])

section \<open>Properties\<close>

text \<open>C7: The listener shared by the workers of a server is used safely in every interleaving. From the construction of a server on a free
  port, whatever the constructor, the workers and the destructor do in which order, no \<open>init\<close> and no \<open>deinit\<close> faults; the port is
  bound at most once, by the first worker, and the others accept on that socket; every worker that has started has a
  socket of its own and its libevent server, until it exits; and exactly the sockets of the workers that have exited are destroyed.\<close>

theorem HttpServer_sockets:
  assumes "free_port bind_ok port g" and "server_step\<^sup>*\<^sup>* (server_pool bind_ok port n g, dtor_new) (p, e)"
  shows "\<exists>ts g'. cstate p = Inr (ts, g') \<and> length ts = length (mThreads p)
    \<and> (\<forall>i < length ts. begun (mThreads p ! i) \<longrightarrow>
          evBoundSocket (ts ! i) = Some (next_socket g + i) \<and> evHttp (ts ! i) = (pc (mThreads p ! i) \<noteq> Exited))
    \<and> listens g' = listens g @ (if \<exists>t \<in> set (mThreads p). begun t then [(next_socket g, port)] else [])
    \<and> accepts g' = accepts g @ map (\<lambda>i. (next_socket g + i, next_socket g)) [1..<length (filter begun (mThreads p))]
    \<and> freed g' = freed g \<union> {next_socket g + i |i. i < length (mThreads p) \<and> pc (mThreads p ! i) = Exited}"
proof -
  have c: "cstate p = contexts_of port g (mThreads p)"
    using sockets_run [OF assms] by (simp add: sockets_inv_def)
  have "length (filter begun (mThreads p)) = 0 \<longleftrightarrow> \<not> (\<exists>t \<in> set (mThreads p). begun t)" by (simp add: filter_empty_conv)
  then show ?thesis
    unfolding c contexts_of_def
    by (intro exI conjI) (auto simp: listeners_def context_of_def exited_def Let_def)
qed

lemma moves_steps:
  "(\<lambda>u v. pool_work u v \<and> hRan v = hRan u)\<^sup>*\<^sup>* p p' \<Longrightarrow> server_step\<^sup>*\<^sup>* (p, e) (p', e)"
proof (induction rule: rtranclp_induct)
  case (step u v)
  then show ?case by (meson loop_work.pool_moves rtranclp.rtrancl_into_rtrancl server_step.work)
qed simp

theorem HttpServer_sockets_witness:
  "\<exists>p ts g'. server_step\<^sup>*\<^sup>* (two_workers, dtor_new) (p, dtor_new) \<and> mThreads p = [up 0 Fetching, fresh 1]
     \<and> cstate p = Inr (ts, g') \<and> evBoundSocket (ts ! 0) = Some 0 \<and> listens g' = [(0, 8080)] \<and> freed g' = {}"
proof -
  have free: "free_port (\<lambda>_. True) 8080 no_sockets" by (simp add: free_port_def no_sockets_def)
  have "two_workers = two [] [fresh 0, fresh 1] (cstate two_workers) [] [] [] []"
    by (simp add: server_pool_def two_def fresh_def upt_rec)
  moreover obtain c where m: "(\<lambda>u v. pool_work u v \<and> hRan v = hRan u)\<^sup>*\<^sup>*
      (two [] [fresh 0, fresh 1] (cstate two_workers) [] [] [] []) (two [] [up 0 Fetching, fresh 1] c [] [] [] [])"
    using starts [of 0 "[fresh 0, fresh 1]" "[]" "cstate two_workers" "[]" "[]" "[]" "[]"] by auto
  ultimately have run: "server_step\<^sup>*\<^sup>* (two_workers, dtor_new) (two [] [up 0 Fetching, fresh 1] c [] [] [] [], dtor_new)"
    using moves_steps [OF m] by simp
  let ?p = "two [] [up 0 Fetching, fresh 1] c [] [] [] []"
  have "pc (mThreads ?p ! i) \<noteq> Exited" if "i < length (mThreads ?p)" for i using that by (cases i) simp_all
  then have b: "begun (mThreads ?p ! 0)" "\<exists>t \<in> set (mThreads ?p). begun t" "{0 + i |i. i < length (mThreads ?p) \<and> pc (mThreads ?p ! i) = Exited} = {}"
    by (auto simp: begun_def)
  obtain ts g' where c: "cstate ?p = Inr (ts, g')" "length ts = length (mThreads ?p)"
      "\<forall>i < length ts. begun (mThreads ?p ! i) \<longrightarrow> evBoundSocket (ts ! i) = Some (next_socket no_sockets + i)"
      "listens g' = listens no_sockets @ (if \<exists>t \<in> set (mThreads ?p). begun t then [(next_socket no_sockets, 8080)] else [])"
      "freed g' = freed no_sockets \<union> {next_socket no_sockets + i |i. i < length (mThreads ?p) \<and> pc (mThreads ?p ! i) = Exited}"
    using HttpServer_sockets [OF free run] by blast
  have n: "next_socket no_sockets = 0" "listens no_sockets = []" "freed no_sockets = {}" by (simp_all add: no_sockets_def)
  have "0 < length ts" using c(2) by simp
  then have "evBoundSocket (ts ! 0) = Some 0" using c(3) b(1) n(1) by (metis add_0)
  moreover have "listens g' = [(0, 8080)]" using c(4) b(2) n by (simp only: if_True append_Nil)
  moreover have "freed g' = {}" using c(5) b(3) n by (simp only: Un_empty_left)
  moreover have "mThreads ?p = [up 0 Fetching, fresh 1]" by simp
  ultimately show ?thesis using run c(1) by blast
qed

end
