(* ===== verification/HttpClient.thy ===== *)
theory HttpClient
  imports ThreadPool HttpRouter Utils
begin

text \<open>
  \<open>src/http/client\<close>: the registry of clients, a client's pool of connections, and requests
  and responses. Connections are shared by pointer (the request, the client's map and libevent hold them),
  so they live in a store and a pointer is an index. libevent is a parameter: the parsed form of a
  url, the libevent connection (a number), the request given to it (its headers, body, target).
  \<open>uuid\<close> arguments are what \<open>generateUUID\<close> returned.
\<close>

section \<open>class HttpConnection\<close>

record HttpConnection =
  conn_id :: string
  conn_client :: nat
  connection :: "nat option"
  busy :: bool
  conn_host :: string
  conn_port :: u16

definition HttpConnection_new :: "nat \<Rightarrow> string \<Rightarrow> string \<Rightarrow> u16 \<Rightarrow> HttpConnection" where
  "HttpConnection_new client uuid hostname port =
     \<lparr>conn_id = uuid, conn_client = client, connection = None, busy = False, conn_host = hostname, conn_port = port\<rparr>"

definition getConnectionId :: "HttpConnection \<Rightarrow> string" where
  "getConnectionId c = conn_host c @ '':'' @ to_string (unat (conn_port c)) @ '':''"

definition HttpConnection_setBusy :: "bool \<Rightarrow> HttpConnection \<Rightarrow> HttpConnection" where
  "HttpConnection_setBusy b c = c\<lparr>busy := b\<rparr>"

definition HttpConnection_setConnection :: "nat option \<Rightarrow> HttpConnection \<Rightarrow> HttpConnection" where
  "HttpConnection_setConnection ev c = c\<lparr>connection := ev\<rparr>"

definition HttpConnection_getClient :: "HttpConnection \<Rightarrow> nat" where
  "HttpConnection_getClient c = conn_client c"

definition HttpConnection_setClient :: "nat \<Rightarrow> HttpConnection \<Rightarrow> HttpConnection" where
  "HttpConnection_setClient client c = c\<lparr>conn_client := client\<rparr>"

definition HttpConnection_reset :: "HttpConnection \<Rightarrow> HttpConnection" where
  "HttpConnection_reset c = HttpConnection_setBusy False (c\<lparr>connection := None\<rparr>)"

definition HttpConnection_destroy :: "HttpConnection \<Rightarrow> HttpConnection" where
  "HttpConnection_destroy c = (if connection c \<noteq> None then c\<lparr>connection := None\<rparr> else c)"

section \<open>class HttpClientImpl\<close>

record HttpClientImpl =
  client_id :: string
  mHostname :: string
  mPort :: u16
  mPool :: "(nat, unit) ThreadPool"
  mConnections :: "(string \<times> nat) list"
  mFree :: "string list"
  store :: "HttpConnection list"
  next_ev :: nat

definition HttpClientImpl_new :: "string \<Rightarrow> string \<Rightarrow> u16 \<Rightarrow> HttpClientImpl" where
  "HttpClientImpl_new uuid hostname port =
     \<lparr>client_id = uuid, mHostname = hostname, mPort = port, mPool = ThreadPool_new_base 1 False, mConnections = [],
      mFree = [], store = [], next_ev = 0\<rparr>"

definition HttpClientImpl_new_default :: "string \<Rightarrow> HttpClientImpl" where
  "HttpClientImpl_new_default uuid = HttpClientImpl_new uuid ''127.0.0.1'' 80"

text \<open>\<open>std::unordered_set<string>\<close> as the list of its elements in iteration order.\<close>

definition us_insert :: "string \<Rightarrow> string list \<Rightarrow> string list" where
  "us_insert x xs = (if x \<in> set xs then xs else xs @ [x])"

text \<open>\<open>connect\<close>: when there is a libevent connection already, the event loop runs, in which the close callbacks of
  the connections \<open>closed\<close> fire; they lock the client's mutex, which the caller of \<open>connect\<close> holds.\<close>

definition HttpConnection_connect :: "nat list \<Rightarrow> nat \<Rightarrow> HttpClientImpl \<Rightarrow> HttpClientImpl res" where
  "HttpConnection_connect closed c h =
     (case connection (store h ! c) of
        Some ev \<Rightarrow> if closed \<noteq> [] then Inl UB_relock else Inr h
      | None \<Rightarrow> Inr (h\<lparr>store := (store h)[c := (store h ! c)\<lparr>connection := Some (next_ev h)\<rparr>], next_ev := next_ev h + 1\<rparr>))"

text \<open>The first argument of \<open>open\<close> and \<open>send\<close> is \<open>this\<close>, the pointer to the client.\<close>

definition HttpClient_open :: "nat \<Rightarrow> string \<Rightarrow> nat list \<Rightarrow> HttpClientImpl \<Rightarrow> (nat \<times> HttpClientImpl) res" where
  "HttpClient_open this uuid closed h =
     bindR (case mFree h of
              i # rest \<Rightarrow>
                (case um_find (mConnections h) i of
                   None \<Rightarrow> Inl UB_end_iterator
                 | Some c \<Rightarrow> Inr (c, h))
            | [] \<Rightarrow>
                (let c = length (store h);
                     conn = HttpConnection_new this uuid (mHostname h) (mPort h)
                 in Inr (c, h\<lparr>store := store h @ [conn], mConnections := um_insert (getConnectionId conn) c (mConnections h)\<rparr>)))
       (\<lambda>(c, h1). bindR (HttpConnection_connect closed c
                           (h1\<lparr>store := (store h1)[c := HttpConnection_setClient this (store h1 ! c)]\<rparr>)) (\<lambda>h2.
          let conn = HttpConnection_setBusy True (store h2 ! c)
          in Inr (c, h2\<lparr>store := (store h2)[c := conn], mFree := removeAll (getConnectionId conn) (mFree h2)\<rparr>)))"

definition HttpClient_close :: "nat \<Rightarrow> HttpClientImpl \<Rightarrow> HttpClientImpl" where
  "HttpClient_close c h =
     (let conn = HttpConnection_setBusy False (store h ! c)
      in h\<lparr>store := (store h)[c := conn], mFree := us_insert (getConnectionId conn) (mFree h)\<rparr>)"

definition evConnectionClosed :: "nat \<Rightarrow> HttpClientImpl \<Rightarrow> HttpClientImpl" where
  "evConnectionClosed c h =
     (let conn = HttpConnection_reset (store h ! c)
      in h\<lparr>store := (store h)[c := conn], mFree := us_insert (getConnectionId conn) (mFree h)\<rparr>)"

text \<open>The routine of the job is \<open>_dispatch\<close>, which runs libevent's loop for the client.\<close>

definition HttpClient_send :: "nat \<Rightarrow> HttpClientImpl \<Rightarrow> HttpClientImpl" where
  "HttpClient_send this h = h\<lparr>mPool := ThreadPool_addJob (fst (ThreadJob_new (Some 0) (Some this) 0)) (mPool h)\<rparr>"

definition closeConnctions :: "HttpClientImpl \<Rightarrow> HttpClientImpl" where
  "closeConnctions h =
     (let st = fold (\<lambda>(i, c) cs. cs[c := HttpConnection_destroy (cs ! c)]) (mConnections h) (store h)
      in h\<lparr>store := st, mConnections := []\<rparr>)"

text \<open>The destructor of the client: the connections are deleted, the pool gets the exit command of its thread.\<close>

definition HttpClientImpl_delete :: "HttpClientImpl \<Rightarrow> HttpClientImpl" where
  "HttpClientImpl_delete h = (let h1 = closeConnctions h in h1\<lparr>mPool := ThreadPool_delete_jobs (mPool h1)\<rparr>)"

section \<open>The registry\<close>

record registry =
  gClients :: "(string \<times> nat) list"
  clients :: "HttpClientImpl list"

definition client_key :: "string \<Rightarrow> u16 \<Rightarrow> string" where
  "client_key hostname port = hostname @ '':'' @ to_string (unat port)"

definition NewInstance :: "string \<Rightarrow> string \<Rightarrow> u16 \<Rightarrow> registry \<Rightarrow> nat \<times> registry" where
  "NewInstance uuid hostname port g =
     (let key = client_key hostname port in
      case um_find (gClients g) key of
        None \<Rightarrow>
          (let i = length (clients g)
           in (i, g\<lparr>clients := clients g @ [HttpClientImpl_new uuid hostname port], gClients := um_insert key i (gClients g)\<rparr>))
      | Some i \<Rightarrow> (i, g))"

definition DeleteInstances :: "registry \<Rightarrow> registry" where
  "DeleteInstances g = g\<lparr>gClients := []\<rparr>"

text \<open>The operations of a connection that go through its pointer to the client; the connection itself is given by the
  client that created it and its index there. \<open>_evConnectionClosed\<close> is the callback that \<open>open\<close> installs.\<close>

definition client_of :: "nat \<times> nat \<Rightarrow> registry \<Rightarrow> nat" where
  "client_of p g = HttpConnection_getClient (store (clients g ! fst p) ! snd p)"

definition HttpConnection_send :: "nat \<times> nat \<Rightarrow> registry \<Rightarrow> registry" where
  "HttpConnection_send p g =
     (let j = client_of p g in g\<lparr>clients := (clients g)[j := HttpClient_send j (clients g ! j)]\<rparr>)"

definition HttpConnection_release :: "nat \<times> nat \<Rightarrow> registry \<Rightarrow> registry" where
  "HttpConnection_release p g =
     (let j = client_of p g in g\<lparr>clients := (clients g)[j := HttpClient_close (snd p) (clients g ! j)]\<rparr>)"

definition evConnectionClosed_cbk :: "nat \<times> nat \<Rightarrow> registry \<Rightarrow> registry" where
  "evConnectionClosed_cbk p g =
     (let j = client_of p g in g\<lparr>clients := (clients g)[j := evConnectionClosed (snd p) (clients g ! j)]\<rparr>)"

section \<open>class HttpResponse\<close>

record HttpResponse =
  responseCode :: u32
  responseText :: string
  responseMime :: string
  response_headers :: "(string \<times> string) list"

definition HttpResponse_new :: HttpResponse where
  "HttpResponse_new = \<lparr>responseCode = 0, responseText = [], responseMime = [], response_headers = []\<rparr>"

definition setResponseCode :: "u32 \<Rightarrow> HttpResponse \<Rightarrow> HttpResponse" where
  "setResponseCode c r = r\<lparr>responseCode := c\<rparr>"

definition setResponseMime :: "string \<Rightarrow> HttpResponse \<Rightarrow> HttpResponse" where
  "setResponseMime m r = r\<lparr>responseMime := m\<rparr>"

definition setResponseText :: "string \<Rightarrow> HttpResponse \<Rightarrow> HttpResponse" where
  "setResponseText t r = r\<lparr>responseText := t\<rparr>"

definition tolower :: "char \<Rightarrow> char" where
  "tolower c = (let n = of_char c in if 65 \<le> n \<and> n \<le> (90 :: nat) then char_of (n + 32) else c)"

definition HttpResponse_buildHeaderMap :: "(string \<times> string) list \<Rightarrow> HttpResponse \<Rightarrow> HttpResponse" where
  "HttpResponse_buildHeaderMap input r =
     fold (\<lambda>(key, value) r. r\<lparr>response_headers := um_insert (map tolower key) value (response_headers r)\<rparr>) input r"

section \<open>class HttpRequest\<close>

text \<open>libevent's parsed url and its request.\<close>

record evhttp_uri =
  get_path :: string
  get_query :: "string option"
  get_fragment :: "string option"
  get_host :: "string option"
  get_port :: int

record out_request =
  output_headers :: "(string \<times> string) list"
  output_buffer :: string

record RequestContext =
  ctx_url :: string
  ctx_connection :: "(nat \<times> nat) option"
  ctx_request :: "out_request option"

record HttpRequest =
  req_id :: string
  onload :: "nat option"
  onload_this :: "nat option"
  url :: string
  req_path :: string
  req_query :: string
  fragment :: string
  req_method :: evhttp_cmd_type
  req_context :: RequestContext
  start_time :: u64
  end_time :: u64

definition HttpRequest_new :: "string \<Rightarrow> u64 \<times> u64 \<times> nat option \<Rightarrow> HttpRequest" where
  "HttpRequest_new uuid junk =
     \<lparr>req_id = uuid, onload = None, onload_this = snd (snd junk), url = [], req_path = [], req_query = [], fragment = [],
      req_method = EVHTTP_REQ_GET, req_context = \<lparr>ctx_url = [], ctx_connection = None, ctx_request = None\<rparr>,
      start_time = fst junk, end_time = fst (snd junk)\<rparr>"

definition OnLoad_set :: "nat option \<Rightarrow> HttpRequest \<Rightarrow> HttpRequest" where
  "OnLoad_set f r = r\<lparr>onload := f\<rparr>"

definition OnLoad_bind :: "nat option \<Rightarrow> HttpRequest \<Rightarrow> HttpRequest" where
  "OnLoad_bind t r = r\<lparr>onload_this := t\<rparr>"

definition OnLoad_fire :: "HttpResponse \<Rightarrow> HttpRequest \<Rightarrow> (nat \<times> HttpResponse \<times> nat option) list" where
  "OnLoad_fire response r = (case onload r of None \<Rightarrow> [] | Some f \<Rightarrow> [(f, response, onload_this r)])"

text \<open>\<open>open\<close>: \<open>parse\<close> is \<open>evhttp_uri_parse\<close>, which fails on a malformed url; the port it gives is -1 when the url
  has none. The pointer to a connection is the client's index and the connection's index.\<close>

definition HttpRequest_open ::
  "(string \<Rightarrow> evhttp_uri option) \<Rightarrow> string \<Rightarrow> string \<Rightarrow> nat list \<Rightarrow> evhttp_cmd_type \<Rightarrow> string \<Rightarrow> HttpRequest \<Rightarrow> registry \<Rightarrow>
   (HttpRequest \<times> registry) res" where
  "HttpRequest_open parse uuid1 uuid2 closed m u r g =
     (case parse (c_str u) of
        None \<Rightarrow> Inl UB_null_deref
      | Some uri \<Rightarrow>
          (case get_host uri of
             None \<Rightarrow> Inl UB_null_deref
           | Some hostname \<Rightarrow>
               (let q = (case get_query uri of Some s \<Rightarrow> s | None \<Rightarrow> []);
                    f = (case get_fragment uri of Some s \<Rightarrow> s | None \<Rightarrow> []);
                    (i, g1) = NewInstance uuid1 hostname (word_of_int (get_port uri)) g
                in bindR (HttpClient_open i uuid2 closed (clients g1 ! i)) (\<lambda>(c, h).
                     Inr (r\<lparr>req_method := m, url := u, req_path := get_path uri, req_query := q, fragment := f,
                            req_context := \<lparr>ctx_url = u, ctx_connection = Some (i, c),
                              ctx_request = Some \<lparr>output_headers = [(''Connection'', ''keep-alive'')], output_buffer = []\<rparr>\<rparr>\<rparr>,
                          g1\<lparr>clients := (clients g1)[i := h]\<rparr>)))))"

definition HttpRequest_setHeader :: "string \<Rightarrow> string \<Rightarrow> HttpRequest \<Rightarrow> HttpRequest res" where
  "HttpRequest_setHeader n v r =
     (case ctx_request (req_context r) of
        None \<Rightarrow> Inl UB_null_deref
      | Some q \<Rightarrow>
          Inr (r\<lparr>req_context := (req_context r)\<lparr>ctx_request := Some (q\<lparr>output_headers := output_headers q @ [(c_str n, c_str v)]\<rparr>)\<rparr>\<rparr>))"

definition fullPath :: "HttpRequest \<Rightarrow> string" where
  "fullPath r =
     req_path r @ (if length (req_query r) \<noteq> 0 then ''?'' @ req_query r else [])
       @ (if length (fragment r) \<noteq> 0 then ''#'' @ fragment r else [])"

text \<open>What is handed to libevent: the connection, the method, the target, the headers and the body.\<close>

type_synonym sent = "(nat \<times> nat) \<times> evhttp_cmd_type \<times> string \<times> out_request"

definition HttpRequest_send_length :: "u64 \<Rightarrow> u64 \<Rightarrow> HttpRequest \<Rightarrow> registry \<Rightarrow> (sent \<times> HttpRequest \<times> registry) res" where
  "HttpRequest_send_length now contentLength r g =
     bindR (HttpRequest_setHeader ''Content-Length'' (to_string (unat contentLength)) r) (\<lambda>r1.
       case (ctx_connection (req_context r1), ctx_request (req_context r1)) of
         (Some (i, c), Some q) \<Rightarrow>
           Inr (((i, c), req_method r1, c_str (fullPath r1), q),
                r1\<lparr>start_time := now\<rparr>,
                HttpConnection_send (i, c) g)
       | _ \<Rightarrow> Inl UB_null_deref)"

definition HttpRequest_send :: "u64 \<Rightarrow> HttpRequest \<Rightarrow> registry \<Rightarrow> (sent \<times> HttpRequest \<times> registry) res" where
  "HttpRequest_send now r g = HttpRequest_send_length now 0 r g"

definition HttpRequest_send_body ::
  "u64 \<Rightarrow> string \<Rightarrow> HttpRequest \<Rightarrow> registry \<Rightarrow> (sent \<times> HttpRequest \<times> registry) res" where
  "HttpRequest_send_body now b r g =
     (case ctx_request (req_context r) of
        None \<Rightarrow> Inl UB_null_deref
      | Some q \<Rightarrow>
          HttpRequest_send_length now (word_of_nat (length b))
            (r\<lparr>req_context := (req_context r)\<lparr>ctx_request := Some (q\<lparr>output_buffer := output_buffer q @ b\<rparr>)\<rparr>\<rparr>) g)"

text \<open>\<open>evHttpReqDone\<close>: \<open>None\<close> is libevent's null request (the connection failed), otherwise code, reason and headers. The
  event base of the context is never set, so the final \<open>event_base_loopbreak\<close> has a null argument and does nothing.\<close>

definition evHttpReqDone ::
  "u64 \<Rightarrow> (u32 \<times> string option \<times> (string \<times> string) list) option \<Rightarrow> HttpRequest \<Rightarrow> registry \<Rightarrow>
   ((nat \<times> HttpResponse \<times> nat option) list \<times> HttpRequest \<times> registry) res" where
  "evHttpReqDone now ev r g =
     (let r1 = r\<lparr>end_time := now\<rparr> in
      case ev of
        None \<Rightarrow> Inr (OnLoad_fire (setResponseText [] (setResponseCode 0 HttpResponse_new)) r1, r1, g)
      | Some (code, line, hs) \<Rightarrow>
          (case ctx_connection (req_context r1) of
             None \<Rightarrow> Inl UB_null_deref
           | Some (i, c) \<Rightarrow>
               (let g1 = HttpConnection_release (i, c) g;
                    response = setResponseText (case line of None \<Rightarrow> [] | Some l \<Rightarrow> l)
                      (setResponseCode code (HttpResponse_buildHeaderMap hs HttpResponse_new))
                in Inr (OnLoad_fire response r1, r1, g1))))"

text \<open>\<open>atol\<close>: white space, an optional sign, digits; 0 without digits. A value outside of \<open>long\<close> is undefined.\<close>

definition atol :: "string \<Rightarrow> int res" where
  "atol s =
     (let t = dropWhile (\<lambda>c. c = CHR '' '' \<or> (9 \<le> (of_char c :: nat) \<and> (of_char c :: nat) \<le> 13)) s;
          neg = (str_front t = CHR ''-'');
          u = (if neg \<or> str_front t = CHR ''+'' then drop 1 t else t);
          n = int (decimal_value (takeWhile is_digit u) 0);
          v = (if neg then - n else n)
      in if v < - (2 ^ 63) \<or> 2 ^ 63 \<le> v then Inl UB_signed_overflow else Inr v)"

text \<open>\<open>getResponseBody\<close> of a response whose body libevent has in \<open>buffer\<close>: the result, the bytes, the length as
  32 bits, and what stays in the buffer. \<open>headers["content-length"]\<close> inserts an empty entry when there is none.\<close>

definition getResponseBody :: "string \<Rightarrow> HttpResponse \<Rightarrow> (bool \<times> string \<times> u32 \<times> string) res" where
  "getResponseBody buffer response =
     (let cl = (case um_find (response_headers response) ''content-length'' of None \<Rightarrow> [] | Some v \<Rightarrow> v)
      in bindR (if length cl > 0 then atol cl else Inr 0) (\<lambda>v.
           let contentLength = unat (word_of_int v :: u64);
               bodyLength = (if contentLength > 0 then min contentLength (length buffer) else length buffer);
               got = take bodyLength buffer;
               len = word_of_nat (length got) :: u32
           in Inr (unat len = bodyLength, got, len, drop bodyLength buffer)))"

section \<open>The registry has one client per endpoint\<close>

lemma client_key_inj: "client_key h p = client_key h' p' \<longleftrightarrow> h = h' \<and> p = p'"
proof
  assume eq: "client_key h p = client_key h' p'"
  have no: "CHR '':'' \<notin> set (to_string n)" for n
    using to_string_digits [of "CHR '':''" n] by (auto simp: is_digit_def)
  have "find_last_of CHR '':'' (client_key a q) = Some (length a)" for a q
    using find_last_of_append [of "CHR '':''" "to_string (unat q)" a] no by (simp add: client_key_def)
  then have "length h = length h'" using eq by (metis option.inject)
  then have "h = h'" "to_string (unat p) = to_string (unat p')"
    using eq by (simp_all add: client_key_def)
  then show "h = h' \<and> p = p'" by (auto dest!: to_string_inj simp: word_unat_eq_iff)
qed simp

definition registry_ok :: "registry \<Rightarrow> bool" where
  "registry_ok g \<longleftrightarrow>
     (\<forall>k i. um_find (gClients g) k = Some i \<longrightarrow>
        i < length (clients g) \<and> k = client_key (mHostname (clients g ! i)) (mPort (clients g ! i)))"

lemma registry_fields:
  assumes "registry_ok g" and "um_find (gClients g) (client_key h p) = Some i"
  shows "i < length (clients g) \<and> mHostname (clients g ! i) = h \<and> mPort (clients g ! i) = p"
  using assms unfolding registry_ok_def by (metis client_key_inj)

lemma NewInstance_ok:
  assumes "registry_ok g" and "NewInstance uuid h p g = (i, g')"
  shows "registry_ok g'" and "um_find (gClients g') (client_key h p) = Some i"
    and "um_find (gClients g) k = Some j \<Longrightarrow> um_find (gClients g') k = Some j"
    and "mHostname (clients g' ! i) = h" and "mPort (clients g' ! i) = p" and "i < length (clients g')"
proof -
  show ok: "registry_ok g'"
    using assms
    by (auto simp: registry_ok_def NewInstance_def Let_def HttpClientImpl_new_def nth_append less_Suc_eq
        split: option.splits if_splits)
  show f: "um_find (gClients g') (client_key h p) = Some i"
    using assms by (auto simp: NewInstance_def Let_def split: option.splits)
  show "um_find (gClients g) k = Some j \<Longrightarrow> um_find (gClients g') k = Some j"
    using assms by (auto simp: NewInstance_def Let_def split: option.splits)
  show "mHostname (clients g' ! i) = h" "mPort (clients g' ! i) = p" "i < length (clients g')"
    using registry_fields [OF ok f] by simp_all
qed

text \<open>The clients returned for a sequence of endpoints.\<close>

fun instances :: "(string \<times> string \<times> u16) list \<Rightarrow> registry \<Rightarrow> nat list \<times> registry" where
  "instances [] g = ([], g)"
| "instances ((uuid, h, p) # es) g =
     (let (i, g1) = NewInstance uuid h p g; (is, g2) = instances es g1 in (i # is, g2))"

lemma instances_ok:
  assumes "registry_ok g" and "instances es g = (is, g')"
  shows "registry_ok g' \<and> length is = length es \<and> (\<forall>k j. um_find (gClients g) k = Some j \<longrightarrow> um_find (gClients g') k = Some j)
    \<and> (\<forall>n < length es. um_find (gClients g') (client_key (fst (snd (es ! n))) (snd (snd (es ! n)))) = Some (is ! n))"
  using assms
proof (induction es arbitrary: g "is")
  case (Cons e es)
  obtain uuid h p where e: "e = (uuid, h, p)" by (cases e)
  obtain i g1 where i: "NewInstance uuid h p g = (i, g1)" by fastforce
  obtain js g2 where js: "instances es g1 = (js, g2)" by fastforce
  note ok = NewInstance_ok [OF Cons.prems(1) i]
  have g': "is = i # js" "g' = g2" using Cons.prems(2) e i js by auto
  note IH = Cons.IH [OF ok(1), of js]
  then show ?case using js g' ok(2,3) e by (auto simp: nth_Cons split: nat.splits)
qed simp

definition no_clients :: registry where
  "no_clients = \<lparr>gClients = [], clients = []\<rparr>"

text \<open>C38: The registry of clients gives out one client per endpoint: over any sequence of \<open>NewInstance\<close> calls, two calls
  return the same client exactly if they name the same host and the same port, and the client returned is one for
  that host and port.\<close>

theorem NewInstance_per_endpoint:
  assumes "instances es no_clients = (is, g)" and "m < length es" and "n < length es"
  shows "(is ! m = is ! n \<longleftrightarrow> snd (es ! m) = snd (es ! n))
    \<and> mHostname (clients g ! (is ! n)) = fst (snd (es ! n)) \<and> mPort (clients g ! (is ! n)) = snd (snd (es ! n))"
proof -
  have "registry_ok no_clients" by (simp add: registry_ok_def no_clients_def)
  note ok = instances_ok [OF this assms(1)]
  have mn: "um_find (gClients g) (client_key (fst (snd (es ! k))) (snd (snd (es ! k)))) = Some (is ! k)" if "k < length es" for k
    using ok that by simp
  have fields: "mHostname (clients g ! (is ! k)) = fst (snd (es ! k)) \<and> mPort (clients g ! (is ! k)) = snd (snd (es ! k))"
    if "k < length es" for k
    using registry_fields [OF conjunct1 [OF ok] mn [OF that]] by simp
  have "snd (es ! m) = snd (es ! n)" if "is ! m = is ! n"
    using fields [OF assms(2)] fields [OF assms(3)] that by (simp add: prod_eq_iff)
  moreover have "is ! m = is ! n" if "snd (es ! m) = snd (es ! n)"
    using mn [OF assms(2)] mn [OF assms(3)] that by simp
  ultimately show ?thesis using fields [OF assms(3)] by blast
qed

theorem NewInstance_per_endpoint_witness:
  "\<exists>g. instances [(''u'', ''host'', 80), (''v'', ''host'', 81), (''w'', ''host'', 80)] no_clients = ([0, 1, 0], g)
     \<and> mPort (clients g ! 1) = 81"
proof -
  let ?es = "[(''u'', ''host'', 80), (''v'', ''host'', 81), (''w'', ''host'', 80)] :: (string \<times> string \<times> u16) list"
  have "fst (instances ?es no_clients) = [0, 1, 0]" by code_simp
  then obtain g where g: "instances ?es no_clients = ([0, 1, 0], g)" by (metis prod.collapse)
  then show ?thesis using NewInstance_per_endpoint [OF g, of 0 1] by simp
qed

section \<open>The pool of connections\<close>

fun use_rounds :: "nat \<Rightarrow> nat list \<Rightarrow> HttpClientImpl \<Rightarrow> (nat list \<times> HttpClientImpl) res" where
  "use_rounds 0 cs h = Inr (cs, h)"
| "use_rounds (Suc n) cs h = bindR (HttpClient_open 0 [] [] h) (\<lambda>(c, h1). use_rounds n (cs @ [c]) (HttpClient_close c h1))"

definition one_idle :: "HttpClientImpl \<Rightarrow> bool" where
  "one_idle h \<longleftrightarrow>
     (\<exists>c. store h = [c] \<and> \<not> busy c \<and> mFree h = [getConnectionId c] \<and> um_find (mConnections h) (getConnectionId c) = Some 0)"

lemmas client_defs = HttpClient_open_def HttpClient_close_def HttpConnection_connect_def HttpConnection_new_def
  HttpConnection_setBusy_def HttpConnection_setClient_def us_insert_def Let_def

lemma getConnectionId_same [simp]:
  "getConnectionId (c\<lparr>conn_client := i\<rparr>) = getConnectionId c" "getConnectionId (c\<lparr>busy := b\<rparr>) = getConnectionId c" "getConnectionId (c\<lparr>connection := e\<rparr>) = getConnectionId c"
  by (simp_all add: getConnectionId_def)

lemma round_new: "\<exists>h1. HttpClient_open i u [] (HttpClientImpl_new v host port) = Inr (0, h1) \<and> one_idle (HttpClient_close 0 h1)"
  by (simp add: client_defs HttpClientImpl_new_def one_idle_def getConnectionId_def)

lemma round_idle: "one_idle h \<Longrightarrow> \<exists>h1. HttpClient_open i u [] h = Inr (0, h1) \<and> one_idle (HttpClient_close 0 h1)"
proof -
  assume "one_idle h"
  then obtain c where c: "store h = [c]" "mFree h = [getConnectionId c]" "um_find (mConnections h) (getConnectionId c) = Some 0"
    by (auto simp: one_idle_def)
  define d where "d = (case connection c of None \<Rightarrow> c\<lparr>conn_client := i, connection := Some (next_ev h), busy := True\<rparr>
                        | Some e \<Rightarrow> c\<lparr>conn_client := i, busy := True\<rparr>)"
  obtain h1 where "HttpClient_open i u [] h = Inr (0, h1)" "store h1 = [d]" "mFree h1 = []" "mConnections h1 = mConnections h"
    using c by (cases "connection c") (simp_all add: client_defs d_def)
  moreover have "getConnectionId d = getConnectionId c" by (simp add: d_def split: option.split)
  ultimately show ?thesis using c(3) by (auto simp: one_idle_def HttpClient_close_def HttpConnection_setBusy_def us_insert_def Let_def)
qed

lemma rounds_idle: "one_idle h \<Longrightarrow> \<exists>h'. use_rounds n cs h = Inr (cs @ replicate n 0, h') \<and> one_idle h'"
proof (induction n arbitrary: cs h)
  case (Suc n)
  obtain h1 where "HttpClient_open 0 [] [] h = Inr (0, h1)" "one_idle (HttpClient_close 0 h1)"
    using round_idle [OF Suc.prems] by blast
  then show ?case using Suc.IH [of "HttpClient_close 0 h1" "cs @ [0]"] by auto
qed simp

text \<open>A client that is used for one request at a time keeps a single connection: however often a connection is opened
  and closed again, it is always the first one, it is idle afterwards, and no other is created.\<close>

theorem HttpClient_sequential_reuse:
  assumes "0 < n"
  shows "\<exists>h c. use_rounds n [] (HttpClientImpl_new u host port) = Inr (replicate n 0, h) \<and> store h = [c] \<and> \<not> busy c"
proof -
  obtain m where n: "n = Suc m" using assms by (cases n) auto
  obtain h1 where "HttpClient_open 0 [] [] (HttpClientImpl_new u host port) = Inr (0, h1)" "one_idle (HttpClient_close 0 h1)"
    using round_new by blast
  then show ?thesis
    using n rounds_idle [of "HttpClient_close 0 h1" m "[0]"] by (auto simp: one_idle_def)
qed

theorem HttpClient_sequential_reuse_witness:
  "\<exists>h c. use_rounds 5 [] (HttpClientImpl_new ''u'' ''host'' 80) = Inr (replicate 5 0, h) \<and> store h = [c] \<and> \<not> busy c"
  using HttpClient_sequential_reuse [of 5 "''u''" "''host''" 80] by simp

text \<open>With two requests at once the pool breaks: all connections of a client have the same identifier, so the second one
  is never entered in the map, and when it is closed, the next request is given the first connection, which is still
  in use.\<close>

theorem HttpClient_hands_out_busy:
  "\<exists>h1 h2 h3. HttpClient_open i u1 [] (HttpClientImpl_new u host port) = Inr (0, h1)
     \<and> HttpClient_open i u2 [] h1 = Inr (1, h2)
     \<and> busy (store (HttpClient_close 1 h2) ! 0)
     \<and> HttpClient_open i u3 [] (HttpClient_close 1 h2) = Inr (0, h3)"
  by (simp add: client_defs HttpClientImpl_new_def um_find_def um_insert_def getConnectionId_def)

text \<open>Opening a connection runs the event loop with the client's mutex held whenever an idle connection still has
  its libevent connection; if any connection is closed by its peer meanwhile, the close callback locks the same mutex
  again.\<close>

theorem HttpClient_open_relocks:
  assumes "mFree h = i # rest" and "um_find (mConnections h) i = Some c" and "connection (store h ! c) \<noteq> None"
    and "closed \<noteq> []"
  shows "HttpClient_open me u closed h = Inl UB_relock"
  using assms
  by (cases "c < length (store h)") (auto simp: HttpClient_open_def HttpConnection_connect_def HttpConnection_setClient_def list_update_beyond not_less)

theorem HttpClient_open_relocks_witness:
  "HttpClient_open 0 ''u'' [0] \<lparr>client_id = [], mHostname = ''h'', mPort = 80, mPool = ThreadPool_new_base 1 False,
     mConnections = [(''h:80:'', 0)], mFree = [''h:80:''],
     store = [\<lparr>conn_id = [], conn_client = 0, connection = Some 4, busy = False, conn_host = ''h'', conn_port = 80\<rparr>], next_ev = 5\<rparr> = Inl UB_relock"
  by (rule HttpClient_open_relocks [where i = "''h:80:''" and rest = "[]" and c = 0]) (simp_all add: um_find_def)

section \<open>Requests and responses\<close>

lemma open_keeps_endpoint:
  "HttpClient_open i u cl h = Inr (c, h') \<Longrightarrow> mHostname h' = mHostname h \<and> mPort h' = mPort h"
  by (auto simp: client_defs bindR_Inr_iff split: list.splits option.splits if_splits)

text \<open>\<open>open\<close> connects the request to the host of the url and to the low 16 bits of libevent's port. For a url without
  a port that is -1, so the connection goes to port 65535 instead of the default port 80.\<close>

theorem HttpRequest_open_endpoint:
  assumes "registry_ok g" and "parse (c_str u) = Some uri" and "get_host uri = Some host"
    and "HttpRequest_open parse uuid1 uuid2 cl m u r g = Inr (r', g')"
  shows "\<exists>i c. ctx_connection (req_context r') = Some (i, c) \<and> mHostname (clients g' ! i) = host
    \<and> mPort (clients g' ! i) = (if get_port uri = -1 then 65535 else word_of_int (get_port uri))"
proof -
  obtain i g1 where g1: "NewInstance uuid1 host (word_of_int (get_port uri)) g = (i, g1)" by fastforce
  obtain c h where h: "HttpClient_open i uuid2 cl (clients g1 ! i) = Inr (c, h)" "g' = g1\<lparr>clients := (clients g1)[i := h]\<rparr>"
      "ctx_connection (req_context r') = Some (i, c)"
    using assms(2-4) g1 by (auto simp: HttpRequest_open_def bindR_Inr_iff Let_def split: prod.splits)
  note inst = NewInstance_ok [OF assms(1) g1]
  have "word_of_int (-1) = (65535 :: u16)" by simp
  then show ?thesis using h inst(4-6) open_keeps_endpoint [OF h(1)] by simp
qed

definition sample_uri :: evhttp_uri where
  "sample_uri = \<lparr>get_path = ''/a'', get_query = Some ''q=1'', get_fragment = None, get_host = Some ''host'', get_port = -1\<rparr>"

lemma sample_opens:
  obtains r g where "HttpRequest_open (\<lambda>u. Some sample_uri) ''x'' ''y'' [] EVHTTP_REQ_GET ''http://host/a?q=1''
       (HttpRequest_new ''z'' (0, 0, None)) no_clients = Inr (r, g)"
    and "registry_ok no_clients" and "get_host sample_uri = Some ''host''" and "get_port sample_uri = -1"
proof -
  obtain h1 where "HttpClient_open 0 ''y'' [] (HttpClientImpl_new ''x'' ''host'' (word_of_int (-1))) = Inr (0, h1)"
    using round_new by blast
  then show ?thesis using that
    by (simp add: HttpRequest_open_def NewInstance_def no_clients_def sample_uri_def registry_ok_def Let_def)
qed

theorem HttpRequest_open_endpoint_witness:
  "\<exists>r g i c. HttpRequest_open (\<lambda>u. Some sample_uri) ''x'' ''y'' [] EVHTTP_REQ_GET ''http://host/a?q=1''
       (HttpRequest_new ''z'' (0, 0, None)) no_clients = Inr (r, g)
     \<and> ctx_connection (req_context r) = Some (i, c) \<and> mPort (clients g ! i) = 65535"
proof (rule sample_opens)
  fix r g
  assume rg: "HttpRequest_open (\<lambda>u. Some sample_uri) ''x'' ''y'' [] EVHTTP_REQ_GET ''http://host/a?q=1''
       (HttpRequest_new ''z'' (0, 0, None)) no_clients = Inr (r, g)"
    and "registry_ok no_clients" "get_host sample_uri = Some ''host''" "get_port sample_uri = -1"
  then obtain i c where "ctx_connection (req_context r) = Some (i, c)" "mPort (clients g ! i) = 65535"
    using HttpRequest_open_endpoint [OF _ refl _ rg, of "''host''"] by auto
  with rg show ?thesis by blast
qed

text \<open>The pointers between clients and connections: every connection points back to the client that created it, and
  the map of a client has only its own connections.\<close>

definition client_ok :: "nat \<Rightarrow> HttpClientImpl \<Rightarrow> bool" where
  "client_ok i h \<longleftrightarrow>
     (\<forall>c \<in> set (store h). HttpConnection_getClient c = i) \<and>
     (\<forall>k c. um_find (mConnections h) k = Some c \<longrightarrow> c < length (store h))"

definition registry_owned :: "registry \<Rightarrow> bool" where
  "registry_owned g \<longleftrightarrow> (\<forall>i < length (clients g). client_ok i (clients g ! i))"

lemmas owner_defs = client_ok_def HttpConnection_getClient_def

lemma client_ok_new: "client_ok i (HttpClientImpl_new u host port)"
  by (simp add: owner_defs HttpClientImpl_new_def)

lemma client_ok_update:
  "client_ok i h \<Longrightarrow> conn_client d = i \<Longrightarrow> client_ok i (h\<lparr>store := (store h)[c := d]\<rparr>)"
  using set_update_subset_insert [of "store h" c d] by (auto simp: owner_defs)

lemma client_ok_other [simp]:
  "client_ok i (h\<lparr>mFree := f\<rparr>) = client_ok i h" "client_ok i (h\<lparr>next_ev := n\<rparr>) = client_ok i h"
  "client_ok i (h\<lparr>mPool := q\<rparr>) = client_ok i h"
  by (simp_all add: owner_defs)

lemma client_ok_append:
  "client_ok i h \<Longrightarrow> conn_client d = i \<Longrightarrow>
   client_ok i (h\<lparr>store := store h @ [d], mConnections := um_insert k (length (store h)) (mConnections h)\<rparr>)"
  by (auto simp: owner_defs less_Suc_eq split: if_splits option.splits)

lemma client_ok_connect:
  assumes "client_ok i h" and "HttpConnection_connect cl c h = Inr h'" and "c < length (store h)"
  shows "client_ok i h' \<and> c < length (store h')"
proof -
  have "conn_client (store h ! c) = i" using assms(1,3) by (simp add: owner_defs)
  then have "client_ok i (h\<lparr>store := (store h)[c := (store h ! c)\<lparr>connection := e\<rparr>]\<rparr>)" for e
    using client_ok_update [OF assms(1), of "(store h ! c)\<lparr>connection := e\<rparr>" c] by simp
  then show ?thesis
    using assms by (auto simp: HttpConnection_connect_def owner_defs split: option.splits if_splits)
qed

lemma client_ok_open:
  assumes ok: "client_ok i h" and op: "HttpClient_open i u cl h = Inr (c, h')"
  shows "client_ok i h' \<and> c < length (store h')"
proof -
  obtain h1 h2 where h1: "client_ok i h1" "c < length (store h1)"
    and h2: "HttpConnection_connect cl c (h1\<lparr>store := (store h1)[c := HttpConnection_setClient i (store h1 ! c)]\<rparr>) = Inr h2"
    and h': "h' = h2\<lparr>store := (store h2)[c := HttpConnection_setBusy True (store h2 ! c)],
      mFree := removeAll (getConnectionId (HttpConnection_setBusy True (store h2 ! c))) (mFree h2)\<rparr>"
  proof (cases "mFree h")
    case Nil
    let ?d = "HttpConnection_new i u (mHostname h) (mPort h)"
    let ?h = "h\<lparr>store := store h @ [?d], mConnections := um_insert (getConnectionId ?d) (length (store h)) (mConnections h)\<rparr>"
    have "client_ok i ?h" using ok by (intro client_ok_append) (simp_all add: HttpConnection_new_def)
    then show ?thesis using op Nil that [of ?h] by (auto simp: HttpClient_open_def Let_def bindR_Inr_iff)
  next
    case (Cons k ks)
    then have "c < length (store h)" using ok op by (auto simp: HttpClient_open_def client_ok_def cxx_res Let_def split: option.splits)
    then show ?thesis
      using op Cons ok that [of h] by (auto simp: HttpClient_open_def Let_def bindR_Inr_iff split: option.splits)
  qed
  have "client_ok i (h1\<lparr>store := (store h1)[c := HttpConnection_setClient i (store h1 ! c)]\<rparr>)"
    using h1(1) by (intro client_ok_update) (simp_all add: HttpConnection_setClient_def)
  from client_ok_connect [OF this h2] h1(2) have c: "client_ok i h2" "c < length (store h2)" by simp_all
  then have "client_ok i (h2\<lparr>store := (store h2)[c := HttpConnection_setBusy True (store h2 ! c)]\<rparr>)"
    by (intro client_ok_update) (simp_all add: owner_defs HttpConnection_setBusy_def)
  then show ?thesis using c(2) by (auto simp: h' owner_defs)
qed

lemma client_ok_close:
  "client_ok i h \<Longrightarrow> c < length (store h) \<Longrightarrow> client_ok i (HttpClient_close c h)"
  using client_ok_update [of i h "HttpConnection_setBusy False (store h ! c)" c]
  by (simp add: HttpClient_close_def Let_def owner_defs HttpConnection_setBusy_def)

lemma registry_owned_update:
  "registry_owned g \<Longrightarrow> client_ok i h \<Longrightarrow> registry_owned (g\<lparr>clients := (clients g)[i := h]\<rparr>)"
  by (auto simp: registry_owned_def) (metis nth_list_update_eq nth_list_update_neq)

lemma registry_owned_instance:
  assumes "registry_owned g" and "NewInstance u host port g = (i, g')"
  shows "registry_owned g'"
  using assms by (auto simp: NewInstance_def registry_owned_def Let_def nth_append client_ok_new less_Suc_eq split: option.splits)

lemma HttpRequest_open_owned:
  assumes ok: "registry_ok g" and own: "registry_owned g"
    and op: "HttpRequest_open prs u1 u2 cl m u r g = Inr (r', g')"
  obtains i c where "ctx_connection (req_context r') = Some (i, c)" "registry_owned g'" "i < length (clients g')"
    "c < length (store (clients g' ! i))"
proof -
  obtain uri host where uri: "prs (c_str u) = Some uri" "get_host uri = Some host"
    using op by (auto simp: HttpRequest_open_def split: option.splits)
  obtain i g1 where g1: "NewInstance u1 host (word_of_int (get_port uri)) g = (i, g1)" by fastforce
  obtain c h where h: "HttpClient_open i u2 cl (clients g1 ! i) = Inr (c, h)" "g' = g1\<lparr>clients := (clients g1)[i := h]\<rparr>"
      "ctx_connection (req_context r') = Some (i, c)"
    using op uri g1 by (auto simp: HttpRequest_open_def bindR_Inr_iff Let_def split: prod.splits)
  have i: "i < length (clients g1)" using NewInstance_ok(6) [OF ok g1] .
  have own1: "registry_owned g1" using registry_owned_instance [OF own g1] .
  then have "client_ok i h \<and> c < length (store h)" using client_ok_open [OF _ h(1)] i by (simp add: registry_owned_def)
  then show ?thesis using that [of i c] h i registry_owned_update [OF own1] by simp
qed



lemma response_headers_find:
  "um_find (response_headers (HttpResponse_buildHeaderMap hs r)) k =
     (case um_find (response_headers r) k of
        None \<Rightarrow> map_of (map (\<lambda>(key, v). (map tolower key, v)) hs) k
      | Some v \<Rightarrow> Some v)"
  unfolding HttpResponse_buildHeaderMap_def
  by (induction hs arbitrary: r) (auto split: option.splits)

lemma atol_to_string: "n < 2 ^ 63 \<Longrightarrow> atol (to_string n) = Inr (int n)"
proof -
  assume n: "n < 2 ^ 63"
  obtain c cs where c: "to_string n = c # cs" using to_string_nonempty by (cases "to_string n") auto
  then have d: "is_digit c" using to_string_digits [of c n] by simp
  have drp: "dropWhile (\<lambda>c. c = CHR '' '' \<or> (9 \<le> (of_char c :: nat) \<and> (of_char c :: nat) \<le> 13)) (to_string n) = to_string n"
    using c d by (auto simp: is_digit_def)
  have front: "str_front (to_string n) \<noteq> CHR ''-''" "str_front (to_string n) \<noteq> CHR ''+''"
    using c d by (auto simp: str_front_def is_digit_def)
  have tw: "takeWhile is_digit (to_string n) = to_string n"
    using to_string_digits by (simp add: takeWhile_eq_all_conv [THEN iffD2])
  have "int n < 2 ^ 63" using n by (simp add: of_nat_less_numeral_power_cancel_iff)
  then show ?thesis using front by (simp add: atol_def Let_def drp tw decimal_value_to_string)
qed

lemma response_body_spec:
  assumes "map_of (map (\<lambda>(key, v). (map tolower key, v)) hs) ''content-length'' = Some (to_string n)"
    and "n < 2 ^ 63" and "length buffer < 2 ^ 32"
  shows "getResponseBody buffer (HttpResponse_buildHeaderMap hs HttpResponse_new) =
    Inr (True, if n = 0 then buffer else take n buffer,
         word_of_nat (if n = 0 then length buffer else min n (length buffer)), if n = 0 then [] else drop n buffer)"
proof -
  have "um_find (response_headers (HttpResponse_buildHeaderMap hs HttpResponse_new)) ''content-length'' = Some (to_string n)"
    unfolding response_headers_find using assms(1) by (simp add: HttpResponse_new_def)
  moreover have "unat (word_of_int (int n) :: u64) = n"
    using assms(2) by (simp add: unsigned_of_nat take_bit_nat_eq_self)
  moreover have at: "atol (to_string n) = Inr (int n)" using assms(2) by (rule atol_to_string)
  moreover have "unat (word_of_nat k :: u32) = k" if "k \<le> length buffer" for k
    using that assms(3) by (simp add: unsigned_of_nat take_bit_nat_eq_self)
  ultimately show ?thesis
    by (cases "n = 0"; cases "n \<le> length buffer") (simp_all add: getResponseBody_def Let_def to_string_nonempty min_def)
qed

text \<open>The body of a response. If a response header, in whatever case it is written, is content-length with the decimal
  text of a number, \<open>getResponseBody\<close> returns the received bytes up to that number (all of them if the number is zero),
  leaves the rest in the buffer and succeeds, for bodies below 4 GiB.\<close>

theorem HttpResponse_body:
  assumes "map_of (map (\<lambda>(key, v). (map tolower key, v)) hs) ''content-length'' = Some (to_string n)"
    and "n < 2 ^ 63" and "length buffer < 2 ^ 32"
  shows "getResponseBody buffer (HttpResponse_buildHeaderMap hs HttpResponse_new) =
    Inr (True, if n = 0 then buffer else take n buffer,
         word_of_nat (if n = 0 then length buffer else min n (length buffer)), if n = 0 then [] else drop n buffer)"
  using assms by (rule response_body_spec)

theorem HttpResponse_body_witness:
  "getResponseBody ''hello world'' (HttpResponse_buildHeaderMap [(''Content-Length'', ''5'')] HttpResponse_new) =
     Inr (True, ''hello'', 5, '' world'')"
proof -
  have "to_string 5 = ''5''" by code_simp
  moreover have "map tolower ''Content-Length'' = ''content-length''" by code_simp
  ultimately show ?thesis using HttpResponse_body [of "[(''Content-Length'', ''5'')]" 5 "''hello world''"] by simp
qed

end
