(* ===== verification/RequestLife.thy ===== *)
theory RequestLife
  imports HttpClient
begin

text \<open>
  The lifetime of an \<open>HttpRequest\<close> (\<open>src/http/client/http-request.cpp\<close>): libevent keeps the address of the object from \<open>open\<close> on and hands it to
  \<open>_evHttpReqDone\<close>; the client deletes the object, at any time and also from within its onload handler. Addresses are
  indices into a store.
\<close>

type_synonym requests = "HttpRequest option list"

definition HttpRequest_delete :: "nat \<Rightarrow> requests \<Rightarrow> requests" where
  "HttpRequest_delete p rs = rs[p := None]"

text \<open>\<open>_evHttpReqDone\<close>: \<open>deletes f response this\<close> are the objects that the handler \<open>f\<close> deletes. After the handler the method reads the
  member \<open>context\<close> of its object.\<close>

definition evHttpReqDone_cbk ::
  "u64 \<Rightarrow> (u32 \<times> string option \<times> (string \<times> string) list) option \<Rightarrow> (nat \<Rightarrow> HttpResponse \<Rightarrow> nat option \<Rightarrow> nat list) \<Rightarrow> nat \<Rightarrow>
   requests \<times> registry \<Rightarrow> ((nat \<times> HttpResponse \<times> nat option) list \<times> requests \<times> registry) res" where
  "evHttpReqDone_cbk now ev deletes p = (\<lambda>(rs, g).
     bindR (deref rs p) (\<lambda>r.
     bindR (evHttpReqDone now ev r g) (\<lambda>(calls, r', g').
       let rs' = fold HttpRequest_delete (concat (map (\<lambda>(f, response, this). deletes f response this) calls)) (rs[p := Some r'])
       in bindR (deref rs' p) (\<lambda>_. Inr (calls, rs', g')))))"

lemma deleted_nth:
  "p < length rs \<Longrightarrow> fold HttpRequest_delete ps rs ! p = (if p \<in> set ps then None else rs ! p)"
  by (induction ps arbitrary: rs) (auto simp: HttpRequest_delete_def nth_list_update)

lemma deleted_length [simp]: "length (fold HttpRequest_delete ps rs) = length rs"
  by (induction ps arbitrary: rs) (auto simp: HttpRequest_delete_def)

text \<open>What a client may delete when. For a request that libevent has, the callback is safe exactly when the onload handler does not
  delete the request itself: then the handler has been called and everything it deleted is gone; otherwise the method goes on
  with a deleted object. If the request was deleted before the response came, the callback uses a deleted object too.\<close>

theorem HttpRequest_deletion:
  assumes "p < length rs" and "rs ! p = Some r" and "evHttpReqDone now ev r g = Inr (calls, r', g')"
  shows "evHttpReqDone_cbk now ev deletes p (rs, g) =
      (if \<exists>(f, response, this) \<in> set calls. p \<in> set (deletes f response this) then Inl UB_dangling
       else Inr (calls, fold HttpRequest_delete (concat (map (\<lambda>(f, response, this). deletes f response this) calls)) (rs[p := Some r']), g'))
    \<and> evHttpReqDone_cbk now ev deletes p (HttpRequest_delete p rs, g) = Inl UB_dangling"
proof -
  let ?ds = "concat (map (\<lambda>(f, response, this). deletes f response this) calls)"
  have "p \<in> set ?ds \<longleftrightarrow> (\<exists>(f, response, this) \<in> set calls. p \<in> set (deletes f response this))" by auto
  moreover have "deref (fold HttpRequest_delete ?ds (rs[p := Some r'])) p = (if p \<in> set ?ds then Inl UB_dangling else Inr r')"
    using assms(1) by (simp add: deref_def deleted_nth)
  moreover have "deref rs p = Inr r" using assms(1,2) by (simp add: deref_def)
  moreover have "evHttpReqDone_cbk now ev deletes p (HttpRequest_delete p rs, g) = Inl UB_dangling"
    by (simp add: evHttpReqDone_cbk_def HttpRequest_delete_def deref_def)
  ultimately show ?thesis using assms(3) by (simp add: evHttpReqDone_cbk_def Let_def)
qed

text \<open>Two requests with the handler 7, the first of which fails; the handler deletes the second, or the first.\<close>

definition two_requests :: requests where
  "two_requests = replicate 2 (Some (OnLoad_set (Some 7) (HttpRequest_new ''z'' (0, 0, None))))"

theorem HttpRequest_deletion_witness:
  "(\<exists>calls rs. evHttpReqDone_cbk 5 None (\<lambda>f response this. [1]) 0 (two_requests, no_clients) = Inr (calls, rs, no_clients) \<and> rs ! 1 = None)
   \<and> evHttpReqDone_cbk 5 None (\<lambda>f response this. [0]) 0 (two_requests, no_clients) = Inl UB_dangling"
proof -
  let ?r = "OnLoad_set (Some 7) (HttpRequest_new ''z'' (0, 0, None))"
  let ?calls = "[(7, setResponseText [] (setResponseCode 0 HttpResponse_new), None)]"
  have dn: "evHttpReqDone 5 None ?r no_clients = Inr (?calls, ?r\<lparr>end_time := 5\<rparr>, no_clients)"
    by (simp add: evHttpReqDone_def OnLoad_fire_def OnLoad_set_def HttpRequest_new_def)
  have two: "0 < length two_requests" "two_requests ! 0 = Some ?r" "length two_requests = 2"
    by (simp_all add: two_requests_def)
  note d = HttpRequest_deletion [OF two(1,2) dn]
  show ?thesis
    using d [of "\<lambda>f response this. [1]"] d [of "\<lambda>f response this. [0]"] two(3)
    by (simp add: HttpRequest_delete_def)
qed

end
