(* ===== verification/ClientRun.thy ===== *)
theory ClientRun
  imports EventLoop HttpClient
begin

text \<open>
  One \<open>HttpClientImpl\<close> at run time (\<open>src/http/client/http-client.cpp\<close>): requests are given to its libevent base, and each \<open>send\<close>
  queues a job on its pool of one worker that runs the loop of that base. \<open>open\<close> runs the same loop in the calling thread when it
  reuses a connection that libevent still has; libevent lets one thread at a time run a base, a second call returns at once.
  The calls of libevent are atomic here, as they are with its locking.
\<close>

section \<open>Steps\<close>

text \<open>Which thread is inside the loop of the base.\<close>

datatype loop_owner = Nobody | Worker | Caller

text \<open>\<open>owed\<close> are the threads between \<open>evhttp_make_request\<close> and \<open>addJob\<close>, \<open>inflight\<close> the requests that libevent has, \<open>replied\<close> the calls of
  \<open>evHttpReqDone\<close>, \<open>stuck\<close> that the caller of \<open>open\<close> waits for the mutex it holds.\<close>

record client_env =
  owed :: nat
  inflight :: "nat list"
  made :: "nat list"
  replied :: "nat list"
  owner :: loop_owner
  stuck :: bool

definition dispatch_job :: "nat \<Rightarrow> nat ThreadJobBase" where
  "dispatch_job this = fst (ThreadJob_new (Some 0) (Some this) 0)"

text \<open>\<open>dispatch\<close> returns at once when another thread runs the loop, and else when the loop has nothing left.\<close>

definition loop_may_end :: "client_env \<Rightarrow> nat \<Rightarrow> bool" where
  "loop_may_end e i \<longleftrightarrow> owner e = Caller \<or> owner e = Worker \<and> inflight e = []"

definition loop_ended :: "nat \<Rightarrow> client_env \<Rightarrow> client_env" where
  "loop_ended i e = (if owner e = Worker then e\<lparr>owner := Nobody\<rparr> else e)"

definition make_request :: "nat \<Rightarrow> client_env \<Rightarrow> client_env" where
  "make_request q e = e\<lparr>inflight := inflight e @ [q], made := made e @ [q], owed := owed e + 1\<rparr>"

definition request_done :: "nat \<Rightarrow> client_env \<Rightarrow> client_env" where
  "request_done q e = e\<lparr>inflight := remove1 q (inflight e), replied := replied e @ [q]\<rparr>"

text \<open>The worker by itself: it moves, or its routine enters the loop.\<close>

inductive dispatch_step :: "(nat, unit) pool_run \<times> client_env \<Rightarrow> (nat, unit) pool_run \<times> client_env \<Rightarrow> bool" where
  work: "loop_work loop_may_end loop_ended x y \<Longrightarrow> dispatch_step x y"
| enter: "pc (mThreads p ! 0) = Running j \<Longrightarrow> owner e = Nobody \<Longrightarrow> dispatch_step (p, e) (p, e\<lparr>owner := Worker\<rparr>)"

text \<open>Everybody: \<open>send\<close> in its two parts; a response in the loop of the worker; the loop inside \<open>open\<close>, in which the response calls \<open>close\<close>,
  which locks the mutex that \<open>open\<close> holds.\<close>

inductive http_step :: "nat \<Rightarrow> (nat, unit) pool_run \<times> client_env \<Rightarrow> (nat, unit) pool_run \<times> client_env \<Rightarrow> bool" for this where
  worker: "dispatch_step x y \<Longrightarrow> http_step this x y"
| make: "q \<notin> set (made e) \<Longrightarrow> http_step this (p, e) (p, make_request q e)"
| queue: "0 < owed e \<Longrightarrow> http_step this (p, e) (pool_add (dispatch_job this) p, e\<lparr>owed := owed e - 1\<rparr>)"
| response: "owner e = Worker \<Longrightarrow> q \<in> set (inflight e) \<Longrightarrow> http_step this (p, e) (p, request_done q e)"
| open_enters: "owner e = Nobody \<Longrightarrow> http_step this (p, e) (p, e\<lparr>owner := Caller\<rparr>)"
| open_leaves: "owner e = Caller \<Longrightarrow> \<not> stuck e \<Longrightarrow> inflight e = [] \<Longrightarrow> http_step this (p, e) (p, e\<lparr>owner := Nobody\<rparr>)"
| open_relocks: "owner e = Caller \<Longrightarrow> \<not> stuck e \<Longrightarrow> inflight e \<noteq> [] \<Longrightarrow> http_step this (p, e) (p, e\<lparr>stuck := True\<rparr>)"
| spurious: "pc (mThreads p ! 0) = Sleeping \<Longrightarrow>
     http_step this (p, e) (setThread 0 ((mThreads p ! 0)\<lparr>pc := Fetching\<rparr>) p, e)"

definition client_pool :: "(nat, unit) pool_run" where
  "client_pool = pool_init 1 False ()"

definition idle_env :: client_env where
  "idle_env = \<lparr>owed = 0, inflight = [], made = [], replied = [], owner = Nobody, stuck = False\<rparr>"

inductive client_reachable :: "nat \<Rightarrow> (nat, unit) pool_run \<times> client_env \<Rightarrow> bool" for this where
  init: "client_reachable this (client_pool, idle_env)"
| step: "client_reachable this x \<Longrightarrow> http_step this x y \<Longrightarrow> client_reachable this y"

text \<open>The job and the queue are those of \<open>HttpClient_send\<close>, the pool that of the constructor.\<close>

lemma dispatch_job_send:
  "mPool (HttpClient_send this h) = ThreadPool_addJob (dispatch_job this) (mPool h)"
  "mJobQueue (pool_add (dispatch_job this) p) = mJobQueue p @ [dispatch_job this]"
  "mThreads client_pool = mThreads (mPool (HttpClientImpl_new uuid host port))"
  by (simp_all add: HttpClient_send_def dispatch_job_def pool_add_def ThreadPool_addJob_def client_pool_def pool_init_def
      HttpClientImpl_new_def Let_def)

lemma dispatch_job_not_exit [simp]: "\<not> isExit (dispatch_job this)"
  by (simp add: dispatch_job_def ThreadJob_new_def ThreadJobBase_new_def isExit_def)

section \<open>The invariant\<close>

definition client_inv :: "(nat, unit) pool_run \<times> client_env \<Rightarrow> bool" where
  "client_inv x \<longleftrightarrow> (case x of (p, e) \<Rightarrow>
     pool_inv p \<and> length (mThreads p) = 1 \<and> filter isExit (hAdded p) = [] \<and>
     (inflight e \<noteq> [] \<longrightarrow> owner e = Caller \<or> 0 < owed e \<or> 0 < unfinished p) \<and>
     (owner e = Worker \<longrightarrow> (\<exists>j. pc (mThreads p ! 0) = Running j)) \<and>
     distinct (made e) \<and> mset (made e) = mset (inflight e) + mset (replied e))"

lemma client_inv_work:
  assumes "loop_work loop_may_end loop_ended (p, e) (p', e')" and inv: "client_inv (p, e)"
  shows "client_inv (p', e')"
proof -
  have w: "pool_work p p'" using loop_work_pool [OF assms(1)] by simp
  have pinv: "pool_inv p'" "length (mThreads p') = 1" "hAdded p' = hAdded p" "length (mThreads p) = 1"
    using inv pool_inv_work [OF w] work_keeps [OF w] by (auto simp: client_inv_def)
  from assms(1) show ?thesis
  proof (cases rule: loop_work.cases)
    case (routine_returns i j)
    then have "inflight e' \<noteq> [] \<longrightarrow> owner e' = Caller" "owner e' \<noteq> Worker" "made e' = made e" "inflight e' = inflight e" "replied e' = replied e"
      by (auto simp: loop_may_end_def loop_ended_def)
    then show ?thesis using inv pinv by (auto simp: client_inv_def)
  next
    case pool_moves
    have "pc (mThreads p' ! 0) = Running j" if "pc (mThreads p ! 0) = Running j" for j
      using running_kept [OF w pool_moves(3) _ that] inv pinv(4) by (auto simp: client_inv_def)
    then show ?thesis using inv pinv pool_moves by (auto simp: client_inv_def unfinished_def)
  qed
qed

lemma dispatch_inv: "dispatch_step x y \<Longrightarrow> client_inv x \<Longrightarrow> client_inv y"
proof (induction rule: dispatch_step.induct)
  case (work x y)
  then show ?case by (cases x; cases y) (auto intro: client_inv_work)
next
  case (enter p j e)
  then show ?case by (simp add: client_inv_def)
qed

lemma client_inv_step: "http_step this x y \<Longrightarrow> client_inv x \<Longrightarrow> client_inv y"
proof (induction rule: http_step.induct)
  case (worker x y)
  then show ?case by (rule dispatch_inv)
next
  case (make q e p)
  then show ?case by (auto simp: client_inv_def make_request_def)
next
  case (queue e p)
  have "pool_inv (pool_add (dispatch_job this) p)"
    using queue(2) by (auto simp: client_inv_def intro: pool_inv_step [OF pool_add_step])
  then show ?case using queue unfinished_add [of p "dispatch_job this"] by (auto simp: client_inv_def)
next
  case (response e q p)
  then have "mset (inflight e) = add_mset q (mset (remove1 q (inflight e)))" by simp
  then show ?case using response by (auto simp: client_inv_def request_done_def)
next
  case (spurious p e)
  have "length (mThreads p) = 1" using spurious(2) by (simp add: client_inv_def)
  then have "pool_step p (setThread 0 ((mThreads p ! 0)\<lparr>pc := Fetching\<rparr>) p)"
    using spurious(1) by (intro pool_step.spurious) auto
  then have "pool_inv (setThread 0 ((mThreads p ! 0)\<lparr>pc := Fetching\<rparr>) p)"
    using spurious(2) by (auto simp: client_inv_def intro: pool_inv_step)
  then show ?case using spurious by (auto simp: client_inv_def unfinished_def setThread_def)
qed (auto simp: client_inv_def)

lemma client_reachable_inv: "client_reachable this x \<Longrightarrow> client_inv x"
proof (induction rule: client_reachable.induct)
  case init
  show ?case by (simp add: client_inv_def client_pool_def idle_env_def pool_inv_init)
qed (auto intro: client_inv_step)

section \<open>Every request is served\<close>

fun dispatch_weight :: "(nat, unit) pool_run \<times> client_env \<Rightarrow> nat" where
  "dispatch_weight (p, e) = 2 * pool_weight p + (if owner e = Nobody then 1 else 0)"

lemma dispatch_decreases: "dispatch_step x y \<Longrightarrow> dispatch_weight y < dispatch_weight x"
proof (induction rule: dispatch_step.induct)
  case (work x y)
  obtain p e p' e' where xy: "x = (p, e)" "y = (p', e')" by (metis surj_pair)
  then have "pool_weight p' < pool_weight p" using work_decreases [OF loop_work_pool [OF work]] by simp
  moreover have "owner e \<noteq> Nobody \<or> owner e' = Nobody"
    using work by (cases rule: loop_work.cases) (auto simp: xy loop_ended_def)
  ultimately show ?case by (auto simp: xy)
qed simp

interpretation dispatching: winding_down dispatch_step client_inv dispatch_weight
  by unfold_locales (auto intro: dispatch_inv dispatch_decreases)

lemma dispatch_keeps: "dispatch_step (p, e) (p', e') \<Longrightarrow> inflight e' = inflight e \<and> replied e' = replied e \<and> owed e' = owed e
    \<and> (owner e \<noteq> Caller \<longrightarrow> owner e' \<noteq> Caller)"
  by (cases rule: dispatch_step.cases) (auto elim!: loop_work.cases simp: loop_ended_def split: if_splits)

lemma dispatches_keep: "dispatch_step\<^sup>*\<^sup>* (p, e) (p', e') \<Longrightarrow> inflight e' = inflight e \<and> replied e' = replied e \<and> owed e' = owed e
    \<and> (owner e \<noteq> Caller \<longrightarrow> owner e' \<noteq> Caller)"
  by (induction rule: rtranclp_induct2) (auto dest: dispatch_keeps)

text \<open>A worker that can do nothing by itself, while requests are in flight and no \<open>open\<close> runs the loop, is in the loop.\<close>

lemma dispatch_rest:
  assumes inv: "client_inv (p, e)" and rest: "\<nexists>y. dispatch_step (p, e) y"
    and todo: "inflight e \<noteq> []" "owed e = 0" "owner e \<noteq> Caller"
  shows "owner e = Worker"
proof -
  have no: "\<nexists>y. loop_work loop_may_end loop_ended (p, e) y" using rest dispatch_step.work by blast
  have "pool_inv p" "length (mThreads p) = 1" "filter isExit (hAdded p) = []" "0 < unfinished p"
    using inv todo by (auto simp: client_inv_def)
  then obtain j where "pc (mThreads p ! 0) = Running j"
    using quiet_serves [OF _ loop_rest_quiet(1) [OF no]] by blast
  then have "owner e \<noteq> Nobody" using rest dispatch_step.enter by blast
  then show ?thesis using todo(3) by (cases "owner e") auto
qed

text \<open>C8: Every request sent is served, once. From every reachable state of a client in which a request is in flight, every \<open>send\<close> has
  queued its job, and no \<open>open\<close> is running the loop, the worker comes to a point where it can do nothing by itself, whatever it does until then;
  there it is in the event loop, with the request still in flight and its callback not yet called, so the response to it
  is taken, and the request is not in flight any more.\<close>

theorem HttpClient_serves_requests:
  assumes "client_reachable this (p, e)" and "q \<in> set (inflight e)" and "owed e = 0" and "owner e \<noteq> Caller"
  shows "(\<exists>y. dispatch_step\<^sup>*\<^sup>* (p, e) y \<and> (\<nexists>z. dispatch_step y z))
    \<and> (\<forall>p' e'. dispatch_step\<^sup>*\<^sup>* (p, e) (p', e') \<longrightarrow> (\<nexists>z. dispatch_step (p', e') z) \<longrightarrow>
         q \<notin> set (replied e') \<and> http_step this (p', e') (p', request_done q e') \<and> q \<notin> set (inflight (request_done q e')))"
proof -
  have inv: "client_inv (p, e)" using assms(1) by (rule client_reachable_inv)
  have "q \<notin> set (replied e') \<and> http_step this (p', e') (p', request_done q e') \<and> q \<notin> set (inflight (request_done q e'))"
    if run: "dispatch_step\<^sup>*\<^sup>* (p, e) (p', e')" and rest: "\<nexists>z. dispatch_step (p', e') z" for p' e'
  proof -
    have inv': "client_inv (p', e')" using dispatching.run_keeps [OF run inv] .
    note keep = dispatches_keep [OF run]
    have "owner e' = Worker" using dispatch_rest [OF inv' rest] keep assms(2-4) by (cases "inflight e") auto
    then have "http_step this (p', e') (p', request_done q e')" using keep assms(2) by (auto intro: http_step.response)
    moreover have d: "distinct (made e')" "mset (made e') = mset (inflight e') + mset (replied e')"
      using inv' by (simp_all add: client_inv_def)
    then have "distinct (inflight e' @ replied e')" by (metis mset_append mset_eq_imp_distinct_iff)
    ultimately show ?thesis using keep assms(2) by (auto simp: request_done_def)
  qed
  then show ?thesis using dispatching.comes_to_rest [OF inv] by blast
qed

text \<open>With a request in flight, an \<open>open\<close> that runs the loop itself never comes back, and from then on no request is answered: the
  response takes the client's mutex, which \<open>open\<close> holds.\<close>

definition hung :: "(nat, unit) pool_run \<times> client_env \<Rightarrow> bool" where
  "hung x \<longleftrightarrow> owner (snd x) = Caller \<and> inflight (snd x) \<noteq> []"

lemma hung_step: "http_step this x y \<Longrightarrow> hung x \<Longrightarrow> hung y \<and> replied (snd y) = replied (snd x)"
proof (induction rule: http_step.induct)
  case (worker x y)
  obtain p e p' e' where xy: "x = (p, e)" "y = (p', e')" by (metis surj_pair)
  have "owner e' = Caller" if "owner e = Caller"
    using worker(1) that by (cases rule: dispatch_step.cases) (auto elim!: loop_work.cases simp: xy loop_ended_def)
  then show ?case using worker dispatch_keeps [of p e p' e'] by (auto simp: hung_def xy)
qed (auto simp: hung_def make_request_def)

theorem HttpClient_open_hangs:
  assumes "owner e = Nobody" and "inflight e \<noteq> []"
  shows "http_step this (p, e) (p, e\<lparr>owner := Caller\<rparr>)
    \<and> (\<forall>p' e'. (http_step this)\<^sup>*\<^sup>* (p, e\<lparr>owner := Caller\<rparr>) (p', e') \<longrightarrow> owner e' = Caller \<and> replied e' = replied e)"
proof -
  have "hung y \<and> replied (snd y) = replied e" if "(http_step this)\<^sup>*\<^sup>* (p, e\<lparr>owner := Caller\<rparr>) y" for y
    using that
  proof (induction rule: rtranclp_induct)
    case base
    show ?case using assms(2) by (simp add: hung_def)
  next
    case (step y z)
    then show ?case using hung_step by metis
  qed
  then show ?thesis using assms(1) by (fastforce simp: hung_def intro: http_step.open_enters)
qed

section \<open>A sample run\<close>

text \<open>Request 5 is made and its job queued; the worker, which waits for jobs, has not seen it yet.\<close>

definition sent_pool :: "(nat, unit) pool_run" where
  "sent_pool = pool_add (dispatch_job 0) (client_pool\<lparr>mThreads := [waiting_thread False Fetching]\<rparr>)"

definition sent_env :: client_env where
  "sent_env = idle_env\<lparr>inflight := [5], made := [5]\<rparr>"

lemma client_moves:
  "(\<lambda>u v. pool_work u v \<and> hRan v = hRan u)\<^sup>*\<^sup>* p p' \<Longrightarrow> client_reachable this (p, e) \<Longrightarrow> client_reachable this (p', e)"
proof (induction rule: rtranclp_induct)
  case (step u v)
  then show ?case
    by (blast intro: client_reachable.step http_step.worker dispatch_step.work loop_work.pool_moves)
qed

lemma sent_reachable: "client_reachable 0 (sent_pool, sent_env)"
proof -
  let ?p = "client_pool\<lparr>mThreads := [waiting_thread False Fetching]\<rparr>"
  have "client_reachable 0 (?p, idle_env)"
    using client_moves [OF one_worker_starts [of False], of 0 idle_env] client_reachable.init [of 0] by (simp add: client_pool_def)
  moreover have "http_step 0 (?p, idle_env) (?p, make_request 5 idle_env)" by (rule http_step.make) (simp add: idle_env_def)
  moreover have "http_step 0 (?p, make_request 5 idle_env) (sent_pool, sent_env)"
    using http_step.queue [of "make_request 5 idle_env" 0 ?p]
    by (simp add: make_request_def sent_pool_def sent_env_def idle_env_def)
  ultimately show ?thesis by (blast intro: client_reachable.step)
qed

theorem HttpClient_serves_requests_witness:
  "\<exists>p e. dispatch_step\<^sup>*\<^sup>* (sent_pool, sent_env) (p, e) \<and> http_step 0 (p, e) (p, request_done 5 e) \<and> replied (request_done 5 e) = [5]"
proof -
  have s: "5 \<in> set (inflight sent_env)" "owed sent_env = 0" "owner sent_env \<noteq> Caller" "replied sent_env = []"
    by (simp_all add: sent_env_def idle_env_def)
  note served = HttpClient_serves_requests [OF sent_reachable s(1-3)]
  then obtain p e where run: "dispatch_step\<^sup>*\<^sup>* (sent_pool, sent_env) (p, e)" "\<nexists>z. dispatch_step (p, e) z"
    by (metis surj_pair)
  then have "http_step 0 (p, e) (p, request_done 5 e)" using served by blast
  moreover have "replied (request_done 5 e) = [5]" using dispatches_keep [OF run(1)] s(4) by (simp add: request_done_def)
  ultimately show ?thesis using run(1) by blast
qed

theorem HttpClient_open_hangs_witness:
  "\<exists>x. http_step 0 (sent_pool, sent_env) x \<and> \<not> (\<exists>p e. (http_step 0)\<^sup>*\<^sup>* x (p, e) \<and> replied e = [5])"
proof -
  have "owner sent_env = Nobody" "inflight sent_env \<noteq> []" "replied sent_env = []" by (simp_all add: sent_env_def idle_env_def)
  then show ?thesis using HttpClient_open_hangs [of sent_env 0 sent_pool] by (metis list.distinct(1))
qed

end
