(* ===== verification/ClientEnd.thy ===== *)
theory ClientEnd
  imports ClientRun
begin

text \<open>
  The destructor of \<open>HttpClientImpl\<close> (\<open>src/http/client/http-client.cpp\<close>) together with the worker of the client: it deletes the
  connections in its map, asks the loop to end a second later, deletes the pool, which queues the exit command and waits for
  the worker, and frees the base. The client is not used by anybody else any more.
\<close>

section \<open>Steps\<close>

text \<open>\<open>phase\<close> counts the statements of the destructor that are done; \<open>timer\<close> is the event that \<open>event_base_loopexit\<close> adds to the base, which
  keeps the loop busy until it fires and then ends one call of \<open>event_base_dispatch\<close> (\<open>leaving\<close>).\<close>

record end_env =
  phase :: nat
  pending :: "nat list"
  timer :: bool
  leaving :: bool
  holder :: loop_owner

definition may_leave :: "end_env \<Rightarrow> nat \<Rightarrow> bool" where
  "may_leave e i \<longleftrightarrow> holder e = Worker \<and> (leaving e \<or> pending e = [] \<and> \<not> timer e)"

definition left :: "nat \<Rightarrow> end_env \<Rightarrow> end_env" where
  "left i e = e\<lparr>holder := Nobody, leaving := False\<rparr>"

text \<open>\<open>kept\<close> are the requests on connections that are not in the map, which \<open>closeConnctions\<close> does not delete; libevent drops the
  requests of a deleted connection without a callback.\<close>

definition delete_connections :: "(nat \<Rightarrow> bool) \<Rightarrow> end_env \<Rightarrow> end_env" where
  "delete_connections kept e = e\<lparr>phase := 1, pending := filter kept (pending e)\<rparr>"

definition loopexit_later :: "end_env \<Rightarrow> end_env" where
  "loopexit_later e = e\<lparr>phase := 2, timer := True\<rparr>"

inductive end_step :: "(nat \<Rightarrow> bool) \<Rightarrow> (nat, unit) pool_run \<times> end_env \<Rightarrow> (nat, unit) pool_run \<times> end_env \<Rightarrow> bool" for kept where
  close_connections: "phase e = 0 \<Longrightarrow> end_step kept (p, e) (p, delete_connections kept e)"
| loopexit: "phase e = 1 \<Longrightarrow> end_step kept (p, e) (p, loopexit_later e)"
| delete_pool: "phase e = 2 \<Longrightarrow> end_step kept (p, e) (pool_add exit_job p, e\<lparr>phase := 3\<rparr>)"
| free_base: "phase e = 3 \<Longrightarrow> deleteReturned (mThreads p ! 0) \<Longrightarrow> end_step kept (p, e) (p, e\<lparr>phase := 4\<rparr>)"
| work: "loop_work may_leave left x y \<Longrightarrow> end_step kept x y"
| enter: "pc (mThreads p ! 0) = Running j \<Longrightarrow> holder e = Nobody \<Longrightarrow> end_step kept (p, e) (p, e\<lparr>holder := Worker\<rparr>)"
| response: "holder e = Worker \<Longrightarrow> q \<in> set (pending e) \<Longrightarrow> end_step kept (p, e) (p, e\<lparr>pending := remove1 q (pending e)\<rparr>)"
| fires: "holder e = Worker \<Longrightarrow> timer e \<Longrightarrow> end_step kept (p, e) (p, e\<lparr>timer := False, leaving := True\<rparr>)"

definition end_start :: "client_env \<Rightarrow> end_env" where
  "end_start e = \<lparr>phase = 0, pending = inflight e, timer = False, leaving = False, holder = owner e\<rparr>"

section \<open>The destructor ends\<close>

definition ending :: "(nat, unit) pool_run \<times> end_env \<Rightarrow> bool" where
  "ending x \<longleftrightarrow> (case x of (p, e) \<Rightarrow>
     pool_inv p \<and> length (mThreads p) = 1 \<and> phase e \<le> 4 \<and> holder e \<noteq> Caller \<and>
     (phase e < 3 \<longrightarrow> filter isExit (hAdded p) = []) \<and>
     (3 \<le> phase e \<longrightarrow> (\<exists>js. hAdded p = js @ [exit_job] \<and> filter isExit js = [])) \<and>
     (phase e = 4 \<longrightarrow> deleteReturned (mThreads p ! 0)) \<and>
     (holder e = Worker \<longrightarrow> (\<exists>j. pc (mThreads p ! 0) = Running j)))"

lemma work_deleted:
  assumes "pool_work p p'" and "k < length (mThreads p)" and "deleteReturned (mThreads p ! k)"
  shows "deleteReturned (mThreads p' ! k)"
  using assms
  by (cases rule: pool_work.cases)
     (auto simp: setThread_def nth_list_update handshake_defs delete_Some ThreadPool_threadGetNextJob_def
        split: list.splits dest: run_end_Inr)

lemma ending_work:
  assumes "loop_work may_leave left (p, e) (p', e')" and c: "ending (p, e)"
  shows "ending (p', e')"
proof -
  have w: "pool_work p p'" using loop_work_pool [OF assms(1)] by simp
  have p': "pool_inv p'" "hAdded p' = hAdded p" "length (mThreads p') = length (mThreads p)"
      "deleteReturned (mThreads p ! 0) \<longrightarrow> deleteReturned (mThreads p' ! 0)"
    using c pool_inv_work [OF w] work_keeps [OF w] work_deleted [OF w, of 0] by (auto simp: ending_def)
  from assms(1) show ?thesis
  proof (cases rule: loop_work.cases)
    case (routine_returns i j)
    then show ?thesis using c p' by (auto simp: ending_def left_def)
  next
    case pool_moves
    have "pc (mThreads p' ! 0) = Running j" if "pc (mThreads p ! 0) = Running j" for j
    proof (rule running_kept [OF w pool_moves(3) _ that])
      show "pool_inv p" "0 < length (mThreads p)" using c by (simp_all add: ending_def)
    qed
    then show ?thesis using c p' pool_moves(1) by (auto simp: ending_def)
  qed
qed

lemma ending_step: "end_step kept x y \<Longrightarrow> ending x \<Longrightarrow> ending y"
proof (induction rule: end_step.induct)
  case (delete_pool e p)
  have "pool_inv (pool_add exit_job p)" using delete_pool(2) pool_inv_step [OF pool_add_step] by (auto simp: ending_def)
  then show ?case using delete_pool by (auto simp: ending_def)
next
  case (work x y)
  then show ?case by (cases x; cases y) (auto intro: ending_work)
qed (auto simp: ending_def delete_connections_def loopexit_later_def)

fun end_weight :: "(nat, unit) pool_run \<times> end_env \<Rightarrow> nat" where
  "end_weight (p, e) = 2 * pool_weight p + 12 * (4 - phase e) + length (pending e) + (if timer e then 1 else 0)
     + (if holder e = Nobody then 1 else 0)"

lemma pool_add_weight: "pool_weight (pool_add j p) \<le> pool_weight p + 5"
  using job_added_weight [of j p "pool_add j p"] notify_wake_first by (auto simp: job_added_def pool_add_def)

lemma end_decreases: "end_step kept x y \<Longrightarrow> end_weight y < end_weight x"
proof (induction rule: end_step.induct)
  case (delete_pool e p)
  then show ?case using pool_add_weight [of exit_job p] by simp
next
  case (work x y)
  obtain p e p' e' where xy: "x = (p, e)" "y = (p', e')" by (metis surj_pair)
  then have "pool_weight p' < pool_weight p" using work_decreases [OF loop_work_pool [OF work]] by simp
  moreover have "phase e' = phase e \<and> pending e' = pending e \<and> timer e' = timer e \<and> (e' = e \<or> holder e' = Nobody)"
    using work by (cases rule: loop_work.cases) (auto simp: xy left_def)
  ultimately show ?case by (auto simp: xy)
next
  case (close_connections e p)
  then show ?case by (simp add: delete_connections_def) (rule le_less_trans [OF length_filter_le], simp)
next
  case (response e q p)
  then show ?case by (auto simp: length_remove1 dest: length_pos_if_in_set)
qed (simp_all add: loopexit_later_def)

interpretation client_end: winding_down "end_step kept" ending end_weight for kept
  by unfold_locales (auto intro: ending_step end_decreases)

lemma ending_rest:
  assumes c: "ending (p, e)" and rest: "\<nexists>y. end_step kept (p, e) y"
  shows "phase e = 4 \<and> pc (mThreads p ! 0) = Exited \<and> deleteReturned (mThreads p ! 0) \<and> mJobQueue p = []"
proof -
  have inv: "pool_inv p" "length (mThreads p) = 1" using c by (simp_all add: ending_def)
  have no: "\<nexists>y. loop_work may_leave left (p, e) y" using rest end_step.work by blast
  note quiet = loop_rest_quiet(1) [OF no]
  have "phase e \<noteq> 0" "phase e \<noteq> 1" "phase e \<noteq> 2"
    using rest end_step.close_connections [of e kept p] end_step.loopexit [of e kept p] end_step.delete_pool [of e kept p] by metis+
  then have ph: "3 \<le> phase e" by linarith
  then obtain js where js: "hAdded p = js @ [exit_job]" "filter isExit js = []" using c by (auto simp: ending_def)
  have notrun: "pc (mThreads p ! 0) \<noteq> Running j" for j
  proof
    assume run: "pc (mThreads p ! 0) = Running j"
    have "holder e \<noteq> Nobody" using rest end_step.enter [OF run] by blast
    then have h: "holder e = Worker" using c by (cases "holder e") (simp_all add: ending_def)
    have "q \<notin> set (pending e)" for q using rest end_step.response [OF h] by blast
    then have "pending e = []" by (cases "pending e") auto
    moreover have "\<not> timer e" using rest h end_step.fires by blast
    ultimately show False using loop_rest_quiet(2) [OF no _ run] inv(2) h by (simp add: may_leave_def)
  qed
  have taken: "mJobQueue p = [] \<Longrightarrow> gone (mThreads p ! 0)" "gone (mThreads p ! 0) \<Longrightarrow> mJobQueue p = []"
  proof -
    have t: "mThreads p = [mThreads p ! 0]" using inv(2) by (cases "mThreads p") auto
    have n: "length (filter isExit (hTaken p)) = length (filter gone (mThreads p))" "js @ [exit_job] = hTaken p @ mJobQueue p"
      using inv(1) js(1) by (auto simp: pool_inv_def)
    show "gone (mThreads p ! 0)" if "mJobQueue p = []"
    proof -
      have "length (filter isExit (hTaken p)) = 1" using n(2) that js(2) by (metis append_Nil2 append_Nil exit_job_exit filter.simps filter_append length_Cons list.size(3) One_nat_def)
      then show ?thesis using n(1) by (subst (asm) t) (auto split: if_splits)
    qed
    show "mJobQueue p = []" if "gone (mThreads p ! 0)"
    proof (rule ccontr)
      assume "mJobQueue p \<noteq> []"
      then obtain ks where "js = hTaken p @ ks" using n(2) by (metis append_butlast_last_id append_assoc butlast_append butlast_snoc)
      then have "filter isExit (hTaken p) = []" using js(2) by simp
      moreover have "filter gone (mThreads p) \<noteq> []" using that inv(2) by (subst t) simp
      ultimately show False using n(1) by simp
    qed
  qed
  have "pc (mThreads p ! 0) \<noteq> Sleeping"
  proof
    assume sl: "pc (mThreads p ! 0) = Sleeping"
    then have "mJobQueue p = []" using quiet_sleeper_empty [OF inv(1) quiet, of "mThreads p ! 0"] inv(2) by simp
    then show False using taken(1) sl by (simp add: gone_def)
  qed
  then have ex: "pc (mThreads p ! 0) = Exited" using quiet_idle [OF inv(1) quiet, of 0] inv(2) notrun by auto
  then have "deleteReturned (mThreads p ! 0)" using quiet_deleted [OF inv(1) quiet, of 0] inv(2) by simp
  moreover have "phase e \<noteq> 3" using calculation rest end_step.free_base [of e p kept] by blast
  ultimately show ?thesis using c ph ex taken(2) by (simp add: ending_def gone_def)
qed



end
