(* ===== verification/TcpServer.thy ===== *)
theory TcpServer
  imports Timer
begin

text \<open>
  \<open>src/tcp-listener.cpp\<close>, \<open>src/tcp-server.cpp\<close>, \<open>src/tcp-client.cpp\<close>. The listener waits for one connection at a
  time: its libevent event is not persistent, and accepting a connection queues a job that installs the next event.
  A connection gets a client context and a job of the worker pool that attaches a bufferevent to it. Contexts and
  local events live in stores indexed by pointers; the calls of the client's callbacks are a log. The system calls
  and libevent are parameters.
\<close>

unbundle bit_operations_syntax

section \<open>class TcpListener\<close>

datatype tcp_routine = R_threadCbk | R_workerRoutine | R_localEventRoutine

type_synonym tcp_job = "tcp_routine ThreadJobBase"
type_synonym tcp_pool = "(tcp_routine, unit) ThreadPool"

record sockaddr_in =
  sin_addr :: u32
  sin_port :: u16

text \<open>The host is little endian.\<close>

definition htons :: "u16 \<Rightarrow> u16" where
  "htons p = push_bit 8 p OR drop_bit 8 p"

record tcp_os =
  os_socket :: int
  os_bind :: "int \<Rightarrow> sockaddr_in \<Rightarrow> int"
  os_listen :: "int \<Rightarrow> int \<Rightarrow> int"

text \<open>The pointer \<open>mOnConnectionThis\<close> is a number; \<open>mEvent\<close> says whether libevent will still fire the event of the
  socket.\<close>

record 'f TcpListener =
  lOnConnection :: "'f option"
  lOnConnectionThis :: "nat option"
  lThread :: tcp_pool
  lIp :: u32
  lPort :: u16
  lFd :: int
  lEvent :: bool

definition TcpListener_new :: "u32 \<Rightarrow> u16 \<Rightarrow> 'f TcpListener" where
  "TcpListener_new ip port =
     \<lparr>lOnConnection = None, lOnConnectionThis = None, lThread = ThreadPool_new_base 1 True, lIp = ip, lPort = port,
      lFd = -1, lEvent = False\<rparr>"

definition TcpListener_onNewConnection :: "'f option \<Rightarrow> nat option \<Rightarrow> 'f TcpListener \<Rightarrow> 'f TcpListener" where
  "TcpListener_onNewConnection f this L = L\<lparr>lOnConnection := f, lOnConnectionThis := this\<rparr>"

definition listen_job :: tcp_job where
  "listen_job = fst (ThreadJob_new (Some R_threadCbk) (Some 0) 0)"

definition TcpListener_addJob :: "'f TcpListener \<Rightarrow> 'f TcpListener" where
  "TcpListener_addJob L = L\<lparr>lThread := ThreadPool_addJob listen_job (lThread L)\<rparr>"

definition TcpListener_start :: "tcp_os \<Rightarrow> 'f TcpListener \<Rightarrow> (int \<times> 'f TcpListener) res" where
  "TcpListener_start os L =
     (let fd = os_socket os; L1 = L\<lparr>lFd := fd\<rparr> in
      if fd < 0 then Inl (Proc_exit (-1))
      else if os_bind os fd \<lparr>sin_addr = lIp L, sin_port = htons (lPort L)\<rparr> < 0 then Inl (Proc_exit 1)
      else if os_listen os fd 5 < 0 then Inl (Proc_exit 1)
      else Inr (0, TcpListener_addJob L1))"

definition TcpListener_eventDispatch :: "'f TcpListener \<Rightarrow> 'f TcpListener" where
  "TcpListener_eventDispatch L = L\<lparr>lEvent := True\<rparr>"

definition TcpListener_threadCbk :: "nat option \<Rightarrow> bool \<Rightarrow> 'f TcpListener \<Rightarrow> 'f TcpListener" where
  "TcpListener_threadCbk ptr has_base L = (if ptr = None \<or> \<not> has_base then L else TcpListener_eventDispatch L)"

text \<open>What libevent calls when the socket is readable; \<open>on_connection\<close> is the call of a registered callback, on the
  state \<open>w\<close> of the rest of the program.\<close>

definition TcpListener_acceptConnection ::
  "('f \<Rightarrow> int \<Rightarrow> nat option \<Rightarrow> 'w \<Rightarrow> 'w res) \<Rightarrow> int \<Rightarrow> 'f TcpListener \<Rightarrow> 'w \<Rightarrow> ('f TcpListener \<times> 'w) res" where
  "TcpListener_acceptConnection on_connection client_fd L w =
     bindR (if client_fd > 0
            then (case lOnConnection L of None \<Rightarrow> Inr w | Some f \<Rightarrow> on_connection f client_fd (lOnConnectionThis L) w)
            else Inr w)
       (\<lambda>w'. Inr (TcpListener_addJob L, w'))"

definition TcpListener_evNewConnection ::
  "('f \<Rightarrow> int \<Rightarrow> nat option \<Rightarrow> 'w \<Rightarrow> 'w res) \<Rightarrow> nat option \<Rightarrow> int \<Rightarrow> 'f TcpListener \<Rightarrow> 'w \<Rightarrow> ('f TcpListener \<times> 'w) res" where
  "TcpListener_evNewConnection on_connection ptr client_fd L w =
     (if ptr = None then Inr (L, w) else TcpListener_acceptConnection on_connection client_fd L w)"

section \<open>class TcpServer\<close>

record client_ctxt =
  client_fd :: int
  client_bev :: "nat option"
  disconnected :: bool

record 'u local_event_ctxt =
  onLocalEvent :: "'u option"
  onLocalEventThis :: "nat option"
  ltv :: timeval
  levent :: bool

text \<open>The callbacks of the client of the class, as they are called.\<close>

datatype 'u tcp_callback =
    Called_connection 'u nat "nat option"
  | Called_message 'u nat "u8 list" u32 "nat option"
  | Called_disconnect 'u nat int "nat option"
  | Called_local 'u "nat option"

record 'u tcp_world =
  mWorkerPool :: "tcp_pool option"
  mOnMessage :: "'u option"
  mOnConnection :: "'u option"
  mOnDisconnect :: "'u option"
  mOnMessageThis :: "nat option"
  mOnConnectionThis :: "nat option"
  mOnDisconnectThis :: "nat option"
  clients :: "client_ctxt list"
  locals :: "'u local_event_ctxt list"
  bevs :: "nat list"
  evbuffers :: nat
  called :: "'u tcp_callback list"

text \<open>The server: its fields in \<open>world\<close>, its listener apart (the listener's callback changes the former while the latter
  runs). \<open>clients\<close> and \<open>locals\<close> are the allocated contexts, none of which is ever freed; a pointer is an index. The
  bufferevent number \<open>b\<close> is attached to the client \<open>bevs ! b\<close>; \<open>evbuffers\<close> counts the buffers allocated and not freed.\<close>

record 'u TcpServer =
  mIp :: u32
  mPort :: u16
  mTcpListener :: "unit TcpListener option"
  world :: "'u tcp_world"

definition TcpServer_new :: "u32 \<Rightarrow> u16 \<Rightarrow> 'u TcpServer" where
  "TcpServer_new ip port =
     \<lparr>mIp = ip, mPort = port, mTcpListener = None,
      world = \<lparr>mWorkerPool = None, mOnMessage = None, mOnConnection = None, mOnDisconnect = None, mOnMessageThis = None,
           mOnConnectionThis = None, mOnDisconnectThis = None, clients = [], locals = [], bevs = [], evbuffers = 0,
           called = []\<rparr>\<rparr>"

definition OnNewMessage :: "'u option \<Rightarrow> nat option \<Rightarrow> 'u TcpServer \<Rightarrow> 'u TcpServer" where
  "OnNewMessage f this s = s\<lparr>world := (world s)\<lparr>mOnMessage := f, mOnMessageThis := this\<rparr>\<rparr>"

definition OnNewConnection :: "'u option \<Rightarrow> nat option \<Rightarrow> 'u TcpServer \<Rightarrow> 'u TcpServer" where
  "OnNewConnection f this s = s\<lparr>world := (world s)\<lparr>mOnConnection := f, mOnConnectionThis := this\<rparr>\<rparr>"

definition OnPeerDisconnect :: "'u option \<Rightarrow> nat option \<Rightarrow> 'u TcpServer \<Rightarrow> 'u TcpServer" where
  "OnPeerDisconnect f this s = s\<lparr>world := (world s)\<lparr>mOnDisconnect := f, mOnDisconnectThis := this\<rparr>\<rparr>"

definition getWorkerPool :: "'u TcpServer \<Rightarrow> tcp_pool option" where
  "getWorkerPool s = mWorkerPool (world s)"

definition worker_job :: "tcp_routine \<Rightarrow> nat \<Rightarrow> tcp_job" where
  "worker_job r ptr = fst (ThreadJob_new (Some r) (Some ptr) 0)"

definition handleConnection :: "int \<Rightarrow> 'u tcp_world \<Rightarrow> 'u tcp_world res" where
  "handleConnection fd v =
     (let client = length (clients v);
          v1 = v\<lparr>clients := clients v @ [\<lparr>client_fd = fd, client_bev = None, disconnected = False\<rparr>]\<rparr>
      in case mWorkerPool v of
           None \<Rightarrow> Inl UB_null_deref
         | Some p \<Rightarrow>
             (let v2 = v1\<lparr>mWorkerPool := Some (ThreadPool_addJob (worker_job R_workerRoutine client) p)\<rparr>
              in Inr (case mOnConnection v of
                        None \<Rightarrow> v2
                      | Some f \<Rightarrow> v2\<lparr>called := called v @ [Called_connection f client (mOnConnectionThis v)]\<rparr>)))"

text \<open>\<open>onConnection\<close>, the callback registered with the listener; its pointer is the server's, never null.\<close>

definition onConnection :: "unit \<Rightarrow> int \<Rightarrow> nat option \<Rightarrow> 'u tcp_world \<Rightarrow> 'u tcp_world res" where
  "onConnection f fd this v = (if this = None then Inl UB_null_deref else handleConnection fd v)"

definition newLocalEvent :: "'u option \<Rightarrow> nat option \<Rightarrow> timeval \<Rightarrow> 'u tcp_world \<Rightarrow> 'u tcp_world res" where
  "newLocalEvent f this tv v =
     (let ev = length (locals v);
          v1 = v\<lparr>locals := locals v @ [\<lparr>onLocalEvent = f, onLocalEventThis = this, ltv = tv, levent = False\<rparr>]\<rparr>
      in case mWorkerPool v of
           None \<Rightarrow> Inl UB_null_deref
         | Some p \<Rightarrow> Inr (v1\<lparr>mWorkerPool := Some (ThreadPool_addJob (worker_job R_localEventRoutine ev) p)\<rparr>))"

definition TcpServer_start :: "tcp_os \<Rightarrow> 'u TcpServer \<Rightarrow> (int \<times> 'u TcpServer) res" where
  "TcpServer_start os s =
     (let v = (world s)\<lparr>mWorkerPool := Some (ThreadPool_new_base 8 True)\<rparr>;
          L = TcpListener_onNewConnection (Some ()) (Some 0) (TcpListener_new (mIp s) (mPort s))
      in bindR (TcpListener_start os L) (\<lambda>(r, L'). Inr (r, s\<lparr>world := v, mTcpListener := Some L'\<rparr>)))"

text \<open>The routines of the jobs. Each ends by running the loop of the thread's event base.\<close>

definition workerRoutine :: "nat option \<Rightarrow> bool \<Rightarrow> 'u tcp_world \<Rightarrow> 'u tcp_world res" where
  "workerRoutine ptr has_base v =
     (case ptr of
        None \<Rightarrow> Inr v
      | Some c \<Rightarrow>
          if \<not> has_base then Inr v
          else if length (clients v) \<le> c then Inl UB_dangling
          else Inr (v\<lparr>clients := (clients v)[c := (clients v ! c)\<lparr>client_bev := Some (length (bevs v))\<rparr>],
                      bevs := bevs v @ [c]\<rparr>))"

definition localEventRoutine :: "nat option \<Rightarrow> 'u tcp_world \<Rightarrow> 'u tcp_world res" where
  "localEventRoutine ptr v =
     (case ptr of
        None \<Rightarrow> Inl UB_null_deref
      | Some e \<Rightarrow>
          if length (locals v) \<le> e then Inl UB_dangling
          else Inr (v\<lparr>locals := (locals v)[e := (locals v ! e)\<lparr>levent := True\<rparr>]\<rparr>))"

text \<open>\<open>_onRead\<close> and \<open>readMessage\<close>: \<open>input\<close> is what the bufferevent has received; \<open>evbuffer_remove\<close> returns the number of
  bytes and the bytes.\<close>

definition readMessage ::
  "(u8 list \<Rightarrow> nat \<Rightarrow> int \<times> u8 list) \<Rightarrow> nat \<Rightarrow> u8 list \<Rightarrow> 'u tcp_world \<Rightarrow> 'u tcp_world" where
  "readMessage evbuffer_remove client input v =
     (let v1 = v\<lparr>evbuffers := evbuffers v + 1\<rparr>;
          readLength = length input;
          (read, data) = evbuffer_remove input readLength
      in if read = sint (word_of_nat readLength :: u32)
         then (case mOnMessage v of
                 None \<Rightarrow> v1
               | Some f \<Rightarrow>
                   v1\<lparr>called := called v @ [Called_message f client data (word_of_nat readLength) (mOnMessageThis v)]\<rparr>)
         else v1)"

definition onError :: "nat \<Rightarrow> int \<Rightarrow> 'u tcp_world \<Rightarrow> 'u tcp_world" where
  "onError client what v =
     (let v1 = v\<lparr>clients := (clients v)[client := (clients v ! client)\<lparr>disconnected := True\<rparr>]\<rparr>
      in case mOnDisconnect v of
           None \<Rightarrow> v1
         | Some f \<Rightarrow> v1\<lparr>called := called v @ [Called_disconnect f client what (mOnDisconnectThis v)]\<rparr>)"

definition onTimerExpiry :: "nat \<Rightarrow> 'u tcp_world \<Rightarrow> 'u tcp_world" where
  "onTimerExpiry e v =
     (case onLocalEvent (locals v ! e) of
        None \<Rightarrow> v
      | Some f \<Rightarrow> v\<lparr>called := called v @ [Called_local f (onLocalEventThis (locals v ! e))]\<rparr>)"

section \<open>class TcpClient\<close>

record TcpClient =
  cIp :: u32
  cPort :: u16
  cFd :: int

definition TcpClient_new :: "u32 \<Rightarrow> u16 \<Rightarrow> TcpClient" where
  "TcpClient_new ip port = \<lparr>cIp = ip, cPort = port, cFd = -1\<rparr>"

section \<open>Accepting connections\<close>

text \<open>One round of the listener's thread: it takes a job, which installs the event, and the event fires, with the
  descriptor that \<open>accept\<close> returns. Without a job the thread sleeps.\<close>

definition listener_round :: "int \<Rightarrow> 'u TcpServer \<Rightarrow> 'u TcpServer res" where
  "listener_round fd s =
     (case mTcpListener s of
        None \<Rightarrow> Inl UB_null_deref
      | Some L \<Rightarrow>
          (case ThreadPool_threadGetNextJob (lThread L) of
             None \<Rightarrow> Inr s
           | Some (j, p) \<Rightarrow>
               (let L1 = TcpListener_threadCbk (arg j) (poolBase p) (L\<lparr>lThread := p\<rparr>) in
                if lEvent L1
                then bindR (TcpListener_evNewConnection onConnection (Some 0) fd (L1\<lparr>lEvent := False\<rparr>) (world s))
                       (\<lambda>(L2, v). Inr (s\<lparr>mTcpListener := Some L2, world := v\<rparr>))
                else Inr (s\<lparr>mTcpListener := Some L1\<rparr>))))"

text \<open>One worker takes a job and runs its routine.\<close>

definition worker_round :: "'u tcp_world \<Rightarrow> 'u tcp_world res" where
  "worker_round v =
     (case mWorkerPool v of
        None \<Rightarrow> Inl UB_null_deref
      | Some p \<Rightarrow>
          (case ThreadPool_threadGetNextJob p of
             None \<Rightarrow> Inr v
           | Some (j, p') \<Rightarrow>
               (let v1 = v\<lparr>mWorkerPool := Some p'\<rparr> in
                case routine j of
                  Some R_workerRoutine \<Rightarrow> workerRoutine (arg j) (poolBase p) v1
                | Some R_localEventRoutine \<Rightarrow> localEventRoutine (arg j) v1
                | _ \<Rightarrow> Inr v1)))"

text \<open>A server that listens: its listener has one job and no event, its workers have an event base.\<close>

definition serving :: "'u TcpServer \<Rightarrow> bool" where
  "serving s \<longleftrightarrow>
     (\<exists>L p. mTcpListener s = Some L \<and> mJobQueue (lThread L) = [listen_job] \<and> poolBase (lThread L)
            \<and> lOnConnection L = Some () \<and> lOnConnectionThis L \<noteq> None \<and> \<not> lEvent L
            \<and> mWorkerPool (world s) = Some p \<and> poolBase p)"

definition worker_jobs :: "'u TcpServer \<Rightarrow> tcp_job list" where
  "worker_jobs s = (case mWorkerPool (world s) of None \<Rightarrow> [] | Some p \<Rightarrow> mJobQueue p)"

lemma pool_base_new [simp]: "poolBase (ThreadPool_new_base n b) = b" "mJobQueue (ThreadPool_new_base n b) = []"
  by (simp_all add: ThreadPool_new_base_def ThreadPool_createThreads_def)

lemma start_serving:
  assumes "0 \<le> os_socket os" "0 \<le> os_bind os (os_socket os) \<lparr>sin_addr = mIp s, sin_port = htons (mPort s)\<rparr>"
    and "0 \<le> os_listen os (os_socket os) 5"
  shows "\<exists>s'. TcpServer_start os s = Inr (0, s') \<and> serving s' \<and> worker_jobs s' = []
          \<and> world s' = (world s)\<lparr>mWorkerPool := Some (ThreadPool_new_base 8 True)\<rparr>"
  using assms
  by (auto simp: TcpServer_start_def TcpListener_start_def TcpListener_addJob_def TcpListener_onNewConnection_def
      TcpListener_new_def ThreadPool_addJob_def serving_def worker_jobs_def Let_def)

lemma round_serving:
  assumes "serving s"
  shows "\<exists>s'. listener_round fd s = Inr s' \<and> serving s' \<and> bevs (world s') = bevs (world s)
          \<and> map client_fd (clients (world s')) = map client_fd (clients (world s)) @ (if 0 < fd then [fd] else [])
          \<and> worker_jobs s' = worker_jobs s @ (if 0 < fd then [worker_job R_workerRoutine (length (clients (world s)))] else [])
          \<and> called (world s') = called (world s) @
              (case mOnConnection (world s) of
                 Some f \<Rightarrow> if 0 < fd then [Called_connection f (length (clients (world s))) (mOnConnectionThis (world s))] else []
               | None \<Rightarrow> [])
          \<and> mOnConnection (world s') = mOnConnection (world s) \<and> mOnConnectionThis (world s') = mOnConnectionThis (world s)"
proof -
  obtain L p where L: "mTcpListener s = Some L" "mJobQueue (lThread L) = [listen_job]" "poolBase (lThread L)"
      "lOnConnection L = Some ()" "lOnConnectionThis L \<noteq> None" "\<not> lEvent L" "mWorkerPool (world s) = Some p" "poolBase p"
    using assms by (auto simp: serving_def)
  obtain y where y: "lOnConnectionThis L = Some y" using L(5) by auto
  have job: "arg listen_job = Some 0" by (simp add: listen_job_def ThreadJob_new_def ThreadJobBase_new_def)
  note defs = listener_round_def L ThreadPool_threadGetNextJob_def TcpListener_threadCbk_def TcpListener_eventDispatch_def
    TcpListener_evNewConnection_def TcpListener_acceptConnection_def TcpListener_addJob_def ThreadPool_addJob_def
    onConnection_def handleConnection_def serving_def worker_jobs_def Let_def job
  show ?thesis
  proof (cases "0 < fd")
    case True
    then show ?thesis by (cases "mOnConnection (world s)") (auto simp: defs y)
  next
    case False
    then show ?thesis by (cases "mOnConnection (world s)") (auto simp: defs y)
  qed
qed

lemma rounds_serving:
  assumes "serving s" and "worker_jobs s = map (worker_job R_workerRoutine) [0..<length (clients (world s))]"
  shows "\<exists>s'. foldR listener_round fds s = Inr s' \<and> serving s' \<and> bevs (world s') = bevs (world s)
          \<and> map client_fd (clients (world s')) = map client_fd (clients (world s)) @ filter (\<lambda>fd. 0 < fd) fds
          \<and> worker_jobs s' = map (worker_job R_workerRoutine) [0..<length (clients (world s'))]
          \<and> called (world s') = called (world s) @
              (case mOnConnection (world s) of
                 Some f \<Rightarrow> map (\<lambda>c. Called_connection f c (mOnConnectionThis (world s)))
                             [length (clients (world s))..<length (clients (world s'))]
               | None \<Rightarrow> [])"
  using assms
proof (induction fds arbitrary: s)
  case Nil
  then show ?case by (auto split: option.splits)
next
  case (Cons fd fds)
  obtain u where u: "listener_round fd s = Inr u" "serving u"
      "map client_fd (clients (world u)) = map client_fd (clients (world s)) @ (if 0 < fd then [fd] else [])"
      "worker_jobs u = worker_jobs s @ (if 0 < fd then [worker_job R_workerRoutine (length (clients (world s)))] else [])"
      "called (world u) = called (world s) @
              (case mOnConnection (world s) of
                 Some f \<Rightarrow> if 0 < fd then [Called_connection f (length (clients (world s))) (mOnConnectionThis (world s))] else []
               | None \<Rightarrow> [])"
      "mOnConnection (world u) = mOnConnection (world s)" "mOnConnectionThis (world u) = mOnConnectionThis (world s)" "bevs (world u) = bevs (world s)"
    using round_serving [OF Cons.prems(1), of fd] by blast
  have len: "length (clients (world u)) = length (clients (world s)) + (if 0 < fd then 1 else 0)"
    using arg_cong [OF u(3), of length] by simp
  then have jobs: "worker_jobs u = map (worker_job R_workerRoutine) [0..<length (clients (world u))]"
    using u(4) Cons.prems(2) by simp
  obtain s' where s': "foldR listener_round fds u = Inr s'" "serving s'"
      "map client_fd (clients (world s')) = map client_fd (clients (world u)) @ filter (\<lambda>fd. 0 < fd) fds"
      "worker_jobs s' = map (worker_job R_workerRoutine) [0..<length (clients (world s'))]"
      "called (world s') = called (world u) @
              (case mOnConnection (world u) of
                 Some f \<Rightarrow> map (\<lambda>c. Called_connection f c (mOnConnectionThis (world u)))
                             [length (clients (world u))..<length (clients (world s'))]
               | None \<Rightarrow> [])"
      "bevs (world s') = bevs (world u)"
    using Cons.IH [OF u(2) jobs] by blast
  have "length (clients (world u)) \<le> length (clients (world s'))"
    using arg_cong [OF s'(3), of length] by simp
  then have "called (world s') = called (world s) @
              (case mOnConnection (world s) of
                 Some f \<Rightarrow> map (\<lambda>c. Called_connection f c (mOnConnectionThis (world s)))
                             [length (clients (world s))..<length (clients (world s'))]
               | None \<Rightarrow> [])"
    using s'(5) u(5-7) len by (auto simp: upt_conv_Cons split: option.splits)
  then show ?case using s' u(1,3,8) by auto
qed

lemma worker_rounds:
  assumes "mWorkerPool v = Some p" "poolBase p" "mJobQueue p = map (worker_job R_workerRoutine) cs"
    and "\<forall>c \<in> set cs. c < length (clients v)"
  shows "\<exists>v'. (foldR (\<lambda>_. worker_round) cs v = Inr v') \<and> mWorkerPool v' = Some (p\<lparr>mJobQueue := []\<rparr>)
          \<and> bevs v' = bevs v @ cs \<and> map client_fd (clients v') = map client_fd (clients v)
          \<and> called v' = called v"
  using assms
proof (induction cs arbitrary: v p)
  case Nil
  then show ?case by (cases p) simp
next
  case (Cons c cs)
  let ?p = "p\<lparr>mJobQueue := map (worker_job R_workerRoutine) cs\<rparr>"
  let ?v = "v\<lparr>mWorkerPool := Some ?p, clients := (clients v)[c := (clients v ! c)\<lparr>client_bev := Some (length (bevs v))\<rparr>],
              bevs := bevs v @ [c]\<rparr>"
  have "routine (worker_job R_workerRoutine c) = Some R_workerRoutine" "arg (worker_job R_workerRoutine c) = Some c"
    by (simp_all add: worker_job_def ThreadJob_new_def ThreadJobBase_new_def)
  then have r: "worker_round v = Inr ?v"
    using Cons.prems by (simp add: worker_round_def ThreadPool_threadGetNextJob_def workerRoutine_def Let_def)
  have same: "map client_fd (clients ?v) = map client_fd (clients v)"
    by (simp add: map_update list_update_id) (metis list_update_id map_update nth_map list_update_beyond not_le_imp_less)
  have "\<exists>v'. (foldR (\<lambda>_. worker_round) cs ?v = Inr v') \<and> mWorkerPool v' = Some (?p\<lparr>mJobQueue := []\<rparr>)
          \<and> bevs v' = bevs ?v @ cs \<and> map client_fd (clients v') = map client_fd (clients ?v)
          \<and> called v' = called ?v"
    by (rule Cons.IH) (use Cons.prems in auto)
  then show ?case using r same by auto
qed


definition sample_os :: tcp_os where
  "sample_os = \<lparr>os_socket = 3, os_bind = (\<lambda>fd a. 0), os_listen = (\<lambda>fd n. 0)\<rparr>"


section \<open>Serving connections\<close>

text \<open>The documented result of \<open>evbuffer_remove\<close> for as many bytes as the buffer holds, when their number fits an \<open>int\<close>.\<close>

definition removes_all :: "(u8 list \<Rightarrow> nat \<Rightarrow> int \<times> u8 list) \<Rightarrow> bool" where
  "removes_all evbuffer_remove \<longleftrightarrow>
     (\<forall>buf. length buf < 2 ^ 31 \<longrightarrow> evbuffer_remove buf (length buf) = (int (length buf), buf))"

lemma read_one:
  assumes "removes_all rm" and "length input < 2 ^ 31" and "mOnMessage v = Some f"
  shows "readMessage rm c input v
         = v\<lparr>evbuffers := evbuffers v + 1,
             called := called v @ [Called_message f c input (word_of_nat (length input)) (mOnMessageThis v)]\<rparr>"
proof -
  have "sint (word_of_nat (length input) :: u32) = int (length input)"
    using assms(2) by (simp add: signed_of_nat signed_take_bit_int_eq_self_iff)
  then show ?thesis using assms by (simp add: readMessage_def removes_all_def Let_def)
qed



end
