(* ===== verification/Spec2Isabelle.thy ===== *)
theory Spec2Isabelle
  imports DirTree Base64 LinkedHashMap Events Utils Config ThreadPool Logger EventLoop Timer ProcStat Fts FsWatch
    HttpRouter HttpServer ServerSockets HttpClient RequestLife ClientEnd TcpServer
begin

text \<open>
  A verification library for ch-cpp-utils, a C++ library of utilities for servers: a tree of paths, base64, containers,
  threads and thread pools, timers, a logger, a file system watcher, an HTTP server and client, and a TCP server.

  \<^bold>\<open>The program and its parts.\<close> \<open>ThreadPool\<close> owns a queue of jobs and threads that run them; \<open>Timer\<close>, \<open>FsWatch\<close>,
  \<open>TcpListener\<close>, \<open>TcpServer\<close> and \<open>HttpClientImpl\<close> hand their event loops to pools, and \<open>HttpServer\<close> has a queue of the
  same form of its own. \<open>DirTree\<close> stores data under slash-separated keys; the HTTP router keeps one tree of routes per
  method in it, and \<open>FsWatch\<close> its watched directories. \<open>Fts\<close> walks a directory tree for \<open>FsWatch\<close>. \<open>Semaphore\<close> is the
  hand-shake of threads with their owners. \<open>ProcStat\<close> polls \<open>/proc\<close> with a \<open>Timer\<close>. \<open>Config\<close>, \<open>Events\<close>, \<open>LinkedHashMap\<close>,
  \<open>Base64\<close> and \<open>Utils\<close> stand alone.

  \<^bold>\<open>The theories.\<close>
  \<^item> \<open>CxxPrelude\<close>: machine words, the faults of the language (\<open>fault\<close>: exceptions, undefined behaviour, process exit), results
    \<open>'a res\<close> with sequencing, and the operations of \<open>std::string\<close>. \<open>UnorderedMap\<close>: \<open>std::unordered_map\<close> as an association
    list, and \<open>std::to_string\<close>. \<open>JobQueue\<close>: the locale of a queue filled by producers and emptied by threads, interpreted by
    \<open>ThreadPool\<close>, \<open>HttpServer\<close> and \<open>Logger\<close>. \<open>StepSystem\<close>: the locales of step relations with an invariant and with a
    decreasing weight, interpreted by \<open>ThreadPool\<close>, \<open>Logger\<close>, \<open>EventLoop\<close>, \<open>ServerRun\<close>, \<open>ClientRun\<close> and \<open>ClientEnd\<close>.
  \<^item> \<open>DirTree\<close> (\<open>dirtree.cpp\<close>): nodes and trees, with the loops over tokens as recursive functions; insert and search refine a
    table of paths (locale and interpretation \<open>dt\<close>), drop visits a subtree once, print stays in its buffer up to a depth.
  \<^item> \<open>Base64\<close> (\<open>base64.cpp\<close>): decoding inverts encoding; shape of the encoding.
  \<^item> \<open>LinkedHashMap\<close>, \<open>Events\<close>: refinement of a finite map; firing calls the registered targets.
  \<^item> \<open>Utils\<close> (\<open>utils.cpp\<close>): path creation, string functions, UUIDs, file age, daemonising, HTTP replies.
  \<^item> \<open>Semaphore\<close> and \<open>ThreadPool\<close> (\<open>semaphore.cpp\<close>, \<open>thread-job.cpp\<close>, \<open>thread.cpp\<close>, \<open>thread-pool.cpp\<close>): workers as a step
    relation \<open>pool_step\<close> with the control points of \<open>Thread::run\<close>; first in first out, every job once, no lost wake-up, the
    hand-shakes, the handle that is never deleted while joinable, termination, and the destructor that drains the queue.
  \<^item> \<open>Logger\<close> (\<open>logger.hpp\<close>): a stream per thread and a printing thread (\<open>log_step\<close>); lines never mix, are printed in order, and the
    destructor returns with all of them printed.
  \<^item> \<open>EventLoop\<close>: pools whose jobs run a libevent loop, which returns only when libevent lets it; a quiet pool of one worker with
    an unfinished job is inside a loop. \<open>Timer\<close>, \<open>ServerRun\<close> and \<open>ClientRun\<close> build on it.
  \<^item> \<open>Timer\<close> (\<open>timer.cpp\<close>): the events, the timers of libevent, and the methods as sequences of atomic actions that interleave with the
    worker. No armed timer is forgotten, a due one is served; restarting arms a timer again, and a periodic one never lets the destructor
    return.
  \<^item> \<open>ProcStat\<close> (\<open>proc-stat.cpp\<close>): the parser of \<open>/proc/<pid>/stat\<close>, with the \<open>sscanf\<close> directives it uses, reads back what the kernel
    writes and stays within its fields and its buffer on any input; polling keeps the last line; the destructor leaves its timer armed
    with a dangling pointer.
  \<^item> \<open>Config\<close> (\<open>config.cpp\<close>): the choice of the file and the values taken from it.
  \<^item> \<open>Fts\<close> (\<open>fts.cpp\<close>) and \<open>FsWatch\<close> (\<open>fs-watch.cpp\<close>): the traversal reports what the filters admit; init watches the whole tree with
    its three records in agreement; new files are reported once; removal takes out a subtree.
  \<^item> \<open>HttpRouter\<close>, \<open>HttpServer\<close>, \<open>HttpClient\<close> (\<open>src/http\<close>): the router refines a selection from the list of routes; queries are read back
    as written; dispatch answers every request in one of two ways; a server binds its port once; the client has one
    instance per endpoint; an answered request gives its connection back; bodies follow their declared length.
  \<^item> \<open>ServerRun\<close>: the workers of \<open>HttpServer\<close> and its destructor as a step relation: it ends when all workers are in their loops, and may
    hang when it is called earlier. \<open>ServerSockets\<close>: the listener that the workers share, in every interleaving of that relation: bound
    once, accepted on by all, destroyed by each worker for itself, without a fault.
  \<^item> \<open>ClientRun\<close>: the worker of \<open>HttpClientImpl\<close>, the requests in flight and the loop inside \<open>open\<close>: every request sent is served once,
    unless an \<open>open\<close> runs the loop, which then locks its own mutex. \<open>ClientEnd\<close>: the destructor of the client with its worker: it
    returns. \<open>RequestLife\<close>: when an \<open>HttpRequest\<close> may be deleted.
  \<^item> \<open>TcpServer\<close> (\<open>tcp-listener.cpp\<close>, \<open>tcp-server.cpp\<close>, \<open>tcp-client.cpp\<close>): every connection accepted is served in order and the
    listener is armed again; messages are delivered completely.
  \<^item> This theory: a body posted with the client reaches the handler of the server whose route the path of the url selects, with the
    query of the url; a request without a route comes back to the client as code 400 with the page of the server.

  \<^bold>\<open>Conventions.\<close> A class is a record with the names of its members, a method a function on it that returns the new state, in
  \<open>'a res\<close> when it can fault. Objects shared by pointer are indices into a store. Unsigned integers are words. A callback of the
  client is either a function on the client's state or an entry in a log of calls. Operations that hold a mutex for their whole body
  are single steps of the concurrent models.

  \<^bold>\<open>Bounds and termination.\<close> The loops over strings are functions with a measure, so no fuel is used. The loops that block
  (\<open>epollThreadRoutine\<close>, \<open>handleActivity\<close>) take the list of the results of the blocking calls and end with it. The concurrent
  models have weights (\<open>pool_weight\<close>, \<open>log_weight\<close>, \<open>server_weight\<close>, \<open>dispatch_weight\<close>, \<open>end_weight\<close>) that bound the steps the threads take by themselves.

  \<^bold>\<open>Parameters.\<close> The operating system (file system, inotify, epoll, sockets, clock, \<open>rand\<close>), libevent and the json library are arguments of the
  definitions that use them. Hypotheses on them are named where they are used: fresh descriptors (\<open>fresh_fds\<close>), a complete
  \<open>evbuffer_remove\<close> (\<open>removes_all\<close>), urls parsed into clean parts
  (\<open>uri_ok\<close>), a transport that keeps method, target, headers and body (\<open>carried\<close>) and brings the answer back (\<open>answered\<close>), a newline in the result of \<open>ctime\<close>
  (\<open>clock_ok\<close>). The calls of libevent are atomic in the concurrent models, as they are with its locking (\<open>evthread_use_pthreads\<close>),
  which the sources do not switch on; a request that libevent drops with its connection has no callback (\<open>delete_connections\<close>).

  \<^bold>\<open>Not modelled.\<close> The vendored json library, the log output of glog, the test programs, the includes and macros of the
  common headers, and getters that only return a member.
\<close>

section \<open>A request of the client at the server\<close>

text \<open>What libevent carries from one side to the other: the method, the target, which the other side splits into path, query
  and fragment, the headers and the body.\<close>

definition in_path :: "char \<Rightarrow> bool" where
  "in_path c \<longleftrightarrow> c \<noteq> CHR ''?'' \<and> c \<noteq> CHR ''#''"

definition target_path :: "string \<Rightarrow> string" where
  "target_path t = takeWhile in_path t"

definition target_query :: "string \<Rightarrow> string option" where
  "target_query t =
     (case dropWhile in_path t of
        [] \<Rightarrow> None
      | c # cs \<Rightarrow> if c = CHR ''?'' then Some (takeWhile (\<lambda>c. c \<noteq> CHR ''#'') cs) else None)"

definition carried :: "sent \<Rightarrow> http_request \<Rightarrow> bool" where
  "carried snt req \<longleftrightarrow>
     (case snt of (conn, m, tgt, q) \<Rightarrow>
        rtype req = m \<and> uri_path req = target_path tgt \<and> uri_query req = target_query tgt
          \<and> input_headers req = output_headers q \<and> input_buffer req = output_buffer q)"

text \<open>The parts of a parsed url: C strings without the separators that end them.\<close>

definition uri_ok :: "evhttp_uri \<Rightarrow> bool" where
  "uri_ok uri \<longleftrightarrow>
     (\<forall>c \<in> set (get_path uri). in_path c) \<and> CHR 0x00 \<notin> set (get_path uri)
     \<and> (\<forall>q. get_query uri = Some q \<longrightarrow> CHR ''#'' \<notin> set q \<and> CHR 0x00 \<notin> set q)
     \<and> (\<forall>f. get_fragment uri = Some f \<longrightarrow> CHR 0x00 \<notin> set f)"

definition opt_part :: "char \<Rightarrow> string option \<Rightarrow> string" where
  "opt_part c p = (case p of None \<Rightarrow> [] | Some s \<Rightarrow> if s = [] then [] else c # s)"

definition query_of :: "evhttp_uri \<Rightarrow> string option" where
  "query_of uri = (if opt_part CHR ''?'' (get_query uri) = [] then None else get_query uri)"

definition target_of :: "evhttp_uri \<Rightarrow> string" where
  "target_of uri = get_path uri @ opt_part CHR ''?'' (get_query uri) @ opt_part CHR ''#'' (get_fragment uri)"

lemma opt_part_cases: "opt_part c p = [] \<or> (\<exists>s. p = Some s \<and> opt_part c p = c # s)"
  by (cases p) (simp_all add: opt_part_def)

lemma opt_part_clean:
  assumes "\<forall>s. p = Some s \<longrightarrow> x \<notin> set s" and "x \<noteq> c"
  shows "x \<notin> set (opt_part c p)"
  using assms by (cases p) (simp_all add: opt_part_def)

lemma takeWhile_until:
  assumes "\<forall>c \<in> set p. P c" and "r = [] \<or> \<not> P (hd r)"
  shows "takeWhile P (p @ r) = p" "dropWhile P (p @ r) = r"
proof -
  have "takeWhile P r = []" "dropWhile P r = r" using assms(2) by (cases r; simp)+
  then show "takeWhile P (p @ r) = p" "dropWhile P (p @ r) = r" using assms(1) by simp_all
qed

lemma target_parts:
  assumes ok: "uri_ok uri"
  shows "target_path (target_of uri) = get_path uri" "target_query (target_of uri) = query_of uri"
    "c_str (target_of uri) = target_of uri"
proof -
  define F where "F = opt_part CHR ''#'' (get_fragment uri)"
  have F: "F = [] \<or> hd F = CHR ''#''" using opt_part_cases [of "CHR ''#''" "get_fragment uri"] unfolding F_def by (elim disjE exE conjE) simp_all
  have p: "\<forall>c \<in> set (get_path uri). in_path c" using ok by (simp add: uri_ok_def)
  have "target_path (target_of uri) = get_path uri \<and> target_query (target_of uri) = query_of uri"
    using opt_part_cases [of "CHR ''?''" "get_query uri"]
  proof (elim disjE exE conjE)
    assume Q: "opt_part CHR ''?'' (get_query uri) = []"
    have "F = [] \<or> \<not> in_path (hd F)" using F by (auto simp: in_path_def)
    note parts = takeWhile_until [OF p this]
    have "target_of uri = get_path uri @ F" "query_of uri = None" using Q by (simp_all add: target_of_def query_of_def F_def)
    then show ?thesis using F by (auto simp only: target_path_def target_query_def parts split: list.split) simp_all
  next
    fix q assume Q: "get_query uri = Some q" "opt_part CHR ''?'' (get_query uri) = CHR ''?'' # q"
    have "\<forall>c \<in> set q. c \<noteq> CHR ''#''" using ok Q(1) by (auto simp only: uri_ok_def)
    then have "takeWhile (\<lambda>c. c \<noteq> CHR ''#'') (q @ F) = q" using F by (intro takeWhile_until(1)) auto
    moreover have "CHR ''?'' # q @ F = [] \<or> \<not> in_path (hd (CHR ''?'' # q @ F))" by (simp add: in_path_def)
    note takeWhile_until [OF p this]
    ultimately show ?thesis using Q
      by (simp add: target_path_def target_query_def target_of_def query_of_def F_def [symmetric])
  qed
  then show "target_path (target_of uri) = get_path uri" "target_query (target_of uri) = query_of uri" by simp_all
  have "CHR 0x00 \<notin> set (opt_part CHR ''?'' (get_query uri))" "CHR 0x00 \<notin> set (opt_part CHR ''#'' (get_fragment uri))"
    using ok by (intro opt_part_clean; simp add: uri_ok_def)+
  then have "CHR 0x00 \<notin> set (target_of uri)" using ok by (simp add: target_of_def uri_ok_def)
  then have "takeWhile (\<lambda>c. c \<noteq> CHR 0x00) (target_of uri) = target_of uri" unfolding takeWhile_eq_all_conv by blast
  then show "c_str (target_of uri) = target_of uri" by (simp only: c_str_def)
qed

lemma c_str_to_string: "c_str (to_string n) = to_string n"
proof -
  have "\<forall>c \<in> set (to_string n). c \<noteq> CHR 0x00" using to_string_digits by (fastforce simp: is_digit_def)
  then show ?thesis by (simp add: c_str_def takeWhile_eq_all_conv [THEN iffD2])
qed

lemma c_str_content_length: "c_str ''Content-Length'' = ''Content-Length''"
  by (simp add: c_str_def)

lemma open_send_body:
  assumes opened: "HttpRequest_open prs u1 u2 cl m u r g = Inr (r1, g1)"
    and sent: "HttpRequest_send_body now b r1 g1 = Inr ((conn, m', tgt, q), r2, g2)"
    and len: "length b < 2 ^ 64"
    and parsed: "prs (c_str u) = Some uri"
  shows "m' = m" "output_buffer q = b" "map_of (output_headers q) ''Content-Length'' = Some (to_string (length b))"
    "tgt = c_str (target_of uri)" "ctx_connection (req_context r2) = Some conn" "onload r2 = onload r"
proof -
  have r1: "ctx_request (req_context r1) = Some \<lparr>output_headers = [(''Connection'', ''keep-alive'')], output_buffer = []\<rparr>"
    "req_method r1 = m" "req_path r1 = get_path uri"
    "req_query r1 = (case get_query uri of Some s \<Rightarrow> s | None \<Rightarrow> [])"
    "fragment r1 = (case get_fragment uri of Some s \<Rightarrow> s | None \<Rightarrow> [])" "onload r1 = onload r"
    using opened parsed by (auto simp: HttpRequest_open_def Let_def cxx_res split: option.splits prod.splits)
  then have full: "fullPath r1 = target_of uri"
    by (auto simp: fullPath_def target_of_def opt_part_def split: option.split)
  have n: "unat (word_of_nat (length b) :: u64) = length b" using len by (simp add: unat_of_nat take_bit_nat_eq_self)
  obtain p where ctx: "ctx_connection (req_context r1) = Some p"
    using sent r1(1) by (auto simp: HttpRequest_send_body_def HttpRequest_send_length_def HttpRequest_setHeader_def
        split: option.splits)
  have fp: "fullPath (r1\<lparr>req_context := x\<rparr>) = target_of uri" for x
    unfolding full [symmetric] by (simp add: fullPath_def)
  have "m' = m \<and> tgt = c_str (target_of uri) \<and> ctx_connection (req_context r2) = Some conn
      \<and> onload r2 = onload r \<and> q = \<lparr>output_headers = [(''Connection'', ''keep-alive''), (''Content-Length'', to_string (length b))],
             output_buffer = b\<rparr>"
    using sent r1(1,2,6) ctx n by (auto simp: HttpRequest_send_body_def HttpRequest_send_length_def HttpRequest_setHeader_def
        c_str_to_string c_str_content_length fp)
  then show "m' = m" "output_buffer q = b" "map_of (output_headers q) ''Content-Length'' = Some (to_string (length b))"
    "tgt = c_str (target_of uri)" "ctx_connection (req_context r2) = Some conn" "onload r2 = onload r"
    by simp_all
qed

text \<open>C3: A body that the library's client posts is the body that the library's server hands to the handler of the route
  for the url. The client opens and sends a request with a non-empty body; if libevent parses the url into clean parts and
  carries the request over, then the server looks for a route under the path and the query of that url, and the handler
  of the route it selects is called once, with exactly that body and its length.\<close>

theorem posted_body_reaches_handler:
  assumes opened: "HttpRequest_open prs u1 u2 cl EVHTTP_REQ_POST u r g = Inr (r1, g1)"
    and parsed: "prs (c_str u) = Some uri" "uri_ok uri"
    and sent: "HttpRequest_send_body now b r1 g1 = Inr (snt, r2, g2)"
    and b: "b \<noteq> []" "length b < 2 ^ 31"
    and carried: "carried snt req" "has_output (reply req)"
    and routed: "router s = Router_new" "select_route EVHTTP_REQ_POST (get_path uri) rs = Some route" "onrequest route = Some h"
  shows "onRequestEvent (register rs s) req (RequestEvent_new req)
         = Inr (reply req, [(h, (RequestEvent_new req)\<lparr>body := Some b, body_length := word_of_nat (length b)\<rparr>, Route.this_ptr route)])
       \<and> uri_query req = query_of uri"
proof -
  obtain conn m' tgt q where snt: "snt = (conn, m', tgt, q)" by (cases snt)
  have n: "length b < 2 ^ 64" using b(2) by simp
  note sd = open_send_body [OF opened sent [unfolded snt] n parsed(1)]
  have req: "rtype req = EVHTTP_REQ_POST" "input_buffer req = b" "uri_path req = get_path uri" "uri_query req = query_of uri"
    "map_of (input_headers req) ''Content-Length'' = Some (to_string (length b))"
    using carried(1) sd target_parts [OF parsed(2)] by (simp_all add: carried_def snt)
  have "readBody req (RequestEvent_new req)
        = Inr ((RequestEvent_new req)\<lparr>body := Some b, body_length := word_of_nat (length b)\<rparr>)"
    using readBody_spec [OF req(5) n] req(1,2) b by simp
  then show ?thesis
    using dispatch_select [OF routed(1) carried(2), of rs "RequestEvent_new req"] req(1,3,4) routed(2,3) by simp
qed

text \<open>The body \<open>hello\<close> posted to \<open>http://host/user/7?x=1\<close>.\<close>

definition posted_uri :: evhttp_uri where
  "posted_uri = \<lparr>get_path = ''/user/7'', get_query = Some ''x=1'', get_fragment = None, get_host = Some ''host'', get_port = 80\<rparr>"

definition received :: "sent \<Rightarrow> http_request" where
  "received snt = (case snt of (conn, m, tgt, q) \<Rightarrow>
     sample_request\<lparr>uri_path := target_path tgt, uri_query := target_query tgt,
                    input_headers := output_headers q, input_buffer := output_buffer q\<rparr>)"

lemma posted_uri_ok: "uri_ok posted_uri"
  by (simp add: uri_ok_def posted_uri_def in_path_def)

lemma received_reply: "reply (received snt) = \<lparr>has_output = True, out_buf = [], replies = []\<rparr>"
  by (cases snt) (simp add: received_def sample_request_def)

lemma sample_exchange:
  "\<exists>r1 g1 snt r2 g2.
     HttpRequest_open (\<lambda>u. Some posted_uri) ''x'' ''y'' [] EVHTTP_REQ_POST ''http://host/user/7?x=1'' r no_clients = Inr (r1, g1)
   \<and> HttpRequest_send_body 0 ''hello'' r1 g1 = Inr (snt, r2, g2) \<and> carried snt (received snt) \<and> onload r2 = onload r"
proof -
  obtain h1 where "HttpClient_open 0 ''y'' [] (HttpClientImpl_new ''x'' ''host'' (word_of_int 80)) = Inr (0, h1)"
    using round_new by blast
  then obtain r1 g1 where o: "HttpRequest_open (\<lambda>u. Some posted_uri) ''x'' ''y'' [] EVHTTP_REQ_POST
        ''http://host/user/7?x=1'' r no_clients = Inr (r1, g1)"
      "ctx_request (req_context r1) \<noteq> None" "ctx_connection (req_context r1) \<noteq> None"
    by (simp add: HttpRequest_open_def NewInstance_def no_clients_def posted_uri_def Let_def)
  then obtain conn m tgt q r2 g2 where s: "HttpRequest_send_body 0 ''hello'' r1 g1 = Inr ((conn, m, tgt, q), r2, g2)"
    by (auto simp: HttpRequest_send_body_def HttpRequest_send_length_def HttpRequest_setHeader_def)
  have "carried (conn, m, tgt, q) (received (conn, m, tgt, q))" "onload r2 = onload r"
    using open_send_body(1,6) [OF o(1) s _ refl] by (simp_all add: carried_def received_def sample_request_def)
  then show ?thesis using o(1) s by blast
qed

theorem posted_body_reaches_handler_witness:
  "\<exists>r1 g1 snt r2 g2 e.
     HttpRequest_open (\<lambda>u. Some posted_uri) ''x'' ''y'' [] EVHTTP_REQ_POST ''http://host/user/7?x=1''
       (HttpRequest_new ''z'' (0, 0, None)) no_clients = Inr (r1, g1)
   \<and> HttpRequest_send_body 0 ''hello'' r1 g1 = Inr (snt, r2, g2)
   \<and> onRequestEvent (register [sample_route] sample_server) (received snt) (RequestEvent_new (received snt))
       = Inr (reply (received snt), [(3, e, Some 9)]) \<and> body e = Some ''hello'' \<and> uri_query (received snt) = Some ''x=1''"
proof -
  obtain r1 g1 snt r2 g2 where o: "HttpRequest_open (\<lambda>u. Some posted_uri) ''x'' ''y'' [] EVHTTP_REQ_POST
        ''http://host/user/7?x=1'' (HttpRequest_new ''z'' (0, 0, None)) no_clients = Inr (r1, g1)"
      and s: "HttpRequest_send_body 0 ''hello'' r1 g1 = Inr (snt, r2, g2)" and c: "carried snt (received snt)"
    using sample_exchange by blast
  have "key_tokens ''/user/7'' = [''.'', ''user'', ''7'']" "key_tokens ''/user/*'' = [''.'', ''user'', ''*'']" by code_simp+
  then have sel: "select_route EVHTTP_REQ_POST (get_path posted_uri) [sample_route] = Some sample_route"
    "router sample_server = Router_new" "onrequest sample_route = Some 3" "Route.this_ptr sample_route = Some 9"
    by (simp_all add: select_route_def of_method_def last_at_def sample_route_def Route_new_def posted_uri_def
        sample_server_def Let_def)
  have "query_of posted_uri = Some ''x=1''" by (simp add: query_of_def posted_uri_def opt_part_def)
  then have "\<exists>e. onRequestEvent (register [sample_route] sample_server) (received snt) (RequestEvent_new (received snt))
       = Inr (reply (received snt), [(3, e, Some 9)]) \<and> body e = Some ''hello'' \<and> uri_query (received snt) = Some ''x=1''"
    using posted_body_reaches_handler [OF o refl posted_uri_ok s _ _ c _ sel(2,1,3)] sel(4) by (auto simp: received_reply)
  then show ?thesis using o s by blast
qed

text \<open>What libevent carries back: the code of the last reply, its body, and the length it adds to the headers.\<close>

definition answered :: "evhttp_request \<Rightarrow> u32 \<Rightarrow> (string \<times> string) list \<Rightarrow> string \<Rightarrow> bool" where
  "answered rep code hs buf \<longleftrightarrow>
     replies rep \<noteq> [] \<and> code = word_of_nat (fst (last (replies rep))) \<and> buf = snd (last (replies rep))
     \<and> map_of (map (\<lambda>(key, v). (map tolower key, v)) hs) ''content-length'' = Some (to_string (length buf))"

definition bad_request_page :: string where
  "bad_request_page = ''<html><body><center><h1>Bad Request</h1></center></body></html>''"

text \<open>C6: The error path from end to end: a request for a path that no route of the server serves comes back to the client as an
  error. No handler of the server runs; if libevent carries the answer over, the onload handler of the request is called
  once, with the code 400, and the body it reads is the page of the server, complete.\<close>

theorem unrouted_request_reports_400:
  assumes opened: "HttpRequest_open prs u1 u2 cl m u r g = Inr (r1, g1)"
    and parsed: "prs (c_str u) = Some uri" "uri_ok uri"
    and sent: "HttpRequest_send_body now b r1 g1 = Inr (snt, r2, g2)" "length b < 2 ^ 64"
    and carried: "carried snt req" "has_output (reply req)" "out_buf (reply req) = []"
    and unrouted: "router s = Router_new" "select_route m (get_path uri) rs = None"
    and served: "onRequestEvent (register rs s) req (RequestEvent_new req) = Inr (rep, handled)"
    and answer: "answered rep code hs buf" "onload r2 = Some f"
  shows "handled = [] \<and> (\<exists>resp r3 g3. evHttpReqDone now' (Some (code, line, hs)) r2 g2 = Inr ([(f, resp, onload_this r2)], r3, g3)
           \<and> responseCode resp = 400
           \<and> getResponseBody buf resp = Inr (True, bad_request_page, word_of_nat (length bad_request_page), []))"
proof -
  obtain conn m' tgt q where snt: "snt = (conn, m', tgt, q)" by (cases snt)
  note sd = open_send_body [OF opened sent(1) [unfolded snt] sent(2) parsed(1)]
  have req: "rtype req = m" "uri_path req = get_path uri"
    using carried(1) sd target_parts [OF parsed(2)] by (simp_all add: carried_def snt)
  then have srv: "handled = []" "last (replies rep) = (400, bad_request_page)"
    using served dispatch_select [OF unrouted(1) carried(2), of rs "RequestEvent_new req"] unrouted(2) carried(3) req
    by (auto simp: bad_request_page_def)
  define resp where "resp = setResponseText (case line of None \<Rightarrow> [] | Some l \<Rightarrow> l)
    (setResponseCode code (HttpResponse_buildHeaderMap hs HttpResponse_new))"
  have len: "length bad_request_page < 2 ^ 32" by (simp add: bad_request_page_def)
  have "getResponseBody buf resp = getResponseBody buf (HttpResponse_buildHeaderMap hs HttpResponse_new)"
    by (simp add: resp_def getResponseBody_def setResponseText_def setResponseCode_def)
  also have "\<dots> = Inr (True, bad_request_page, word_of_nat (length bad_request_page), [])"
    using answer(1) srv(2) response_body_spec [of hs "length bad_request_page" bad_request_page] len by (simp add: answered_def)
  finally have body: "getResponseBody buf resp = Inr (True, bad_request_page, word_of_nat (length bad_request_page), [])" .
  obtain i c where conn: "conn = (i, c)" by (cases conn)
  have "\<exists>r3 g3. evHttpReqDone now' (Some (code, line, hs)) r2 g2 = Inr ([(f, resp, onload_this r2)], r3, g3)"
    using sd(5) answer(2) by (simp add: evHttpReqDone_def OnLoad_fire_def Let_def conn resp_def)
  moreover have "responseCode resp = 400"
    using answer(1) srv(2) by (simp add: answered_def resp_def setResponseText_def setResponseCode_def)
  ultimately show ?thesis using body srv(1) by blast
qed

theorem unrouted_request_reports_400_witness:
  "\<exists>r1 g1 snt r2 g2 rep hs resp r3 g3.
     HttpRequest_open (\<lambda>u. Some posted_uri) ''x'' ''y'' [] EVHTTP_REQ_POST ''http://host/user/7?x=1''
       (OnLoad_set (Some 7) (HttpRequest_new ''z'' (0, 0, None))) no_clients = Inr (r1, g1)
   \<and> HttpRequest_send_body 0 ''hello'' r1 g1 = Inr (snt, r2, g2)
   \<and> onRequestEvent (register [] sample_server) (received snt) (RequestEvent_new (received snt)) = Inr (rep, [])
   \<and> answered rep 400 hs bad_request_page
   \<and> evHttpReqDone 9 (Some (400, None, hs)) r2 g2 = Inr ([(7, resp, onload_this r2)], r3, g3) \<and> responseCode resp = 400"
proof -
  define r where "r = OnLoad_set (Some 7) (HttpRequest_new ''z'' (0, 0, None))"
  obtain r1 g1 snt r2 g2 where o: "HttpRequest_open (\<lambda>u. Some posted_uri) ''x'' ''y'' [] EVHTTP_REQ_POST
        ''http://host/user/7?x=1'' r no_clients = Inr (r1, g1)"
      and s: "HttpRequest_send_body 0 ''hello'' r1 g1 = Inr (snt, r2, g2)" and c: "carried snt (received snt)"
      and l: "onload r2 = onload r"
    using sample_exchange by blast
  define rep where "rep = HttpServer_send400BadRequest (reply (received snt))"
  define hs where "hs = [(''Content-Length'', to_string (length bad_request_page))]"
  have "map tolower ''Content-Length'' = ''content-length''" by code_simp
  then have a: "answered rep 400 hs bad_request_page"
    by (simp add: answered_def rep_def HttpServer_send400BadRequest_def send_reply_def received_reply hs_def bad_request_page_def)
  have sel: "select_route EVHTTP_REQ_POST (get_path posted_uri) ([] :: nat Route list) = None" "router sample_server = Router_new"
    by (simp_all add: select_route_def of_method_def last_at_def sample_server_def Let_def)
  have srv: "onRequestEvent (register [] sample_server) (received snt) (RequestEvent_new (received snt)) = Inr (rep, [])"
    using dispatch_select [OF sel(2), of "received snt" "[]"]
    by (simp add: rep_def received_reply HttpServer_send400BadRequest_def send_reply_def select_route_def of_method_def
        last_at_def Let_def)
  have f: "onload r2 = Some 7" using l by (simp add: r_def OnLoad_set_def)
  note reported = unrouted_request_reports_400 [OF o refl posted_uri_ok s _ c _ _ sel(2,1) srv a f, where now' = 9 and line = None]
  have "\<exists>resp r3 g3. evHttpReqDone 9 (Some (400, None, hs)) r2 g2 = Inr ([(7, resp, onload_this r2)], r3, g3) \<and> responseCode resp = 400"
    using reported by (auto simp: received_reply)
  then show ?thesis using o s srv a unfolding r_def by blast
qed

end
